theory Spec2Isabelle
  imports Complex_Main "HOL-Library.Signed_Division" "HOL-Library.Monad_Syntax"
begin

section \<open>The quadsphere of pvQt: sizes, layout and accessors\<close>

text \<open>
  The class \<open>quadsphere\<close> (quadsphere.h, quadsphere.cpp) tessellates the unit sphere
  from the six faces of the inscribed cube and stores vertices, seven sets of texture
  coordinates, line indices and quad indices in one block of 32-bit words.

  The C++ \<open>int\<close> values of the constructor are modelled as mathematical integers:
  signed overflow has no defined behaviour in C++, so the constructor has a meaning
  only where its \<open>int\<close> values fit, that is while \<open>24 * divs * divs < 2 ^ 31\<close>
  (\<open>int_values_fit\<close>, up to the resolution 9459; up to 1800 no byte offset into the
  block wraps, \<open>block_fits\<close>). Division is C's: it truncates towards zero (\<open>sdiv\<close>).
  Where the code computes in \<open>unsigned int\<close>, the reduction modulo \<open>2 ^ 32\<close> is
  written out. Addresses are word offsets from the start of the block \<open>words\<close>; the
  null pointer is \<open>None\<close>.
\<close>

subsection \<open>Constants that the sources take from pvQtPic.h\<close>

text \<open>
  Modelled from the spec: the macro \<open>Nprojections\<close> of pvQtPic.h, a header that is not
  among the sources. The spec counts seven projections (rectilinear, fisheye,
  equirectangular, cylindrical, equiangular, mercator, stereographic), and the
  constructor asks \<open>texCoords\<close> for seven distinct coordinate sets and writes all of them.
\<close>

definition Nprojections :: int where
  "Nprojections = 7"

definition sizeof_float :: int where
  "sizeof_float = 4"

definition sizeof_uint :: int where
  "sizeof_uint = 4"

definition u32 :: "int \<Rightarrow> int" where
  "u32 x = x mod 2 ^ 32"

subsection \<open>The size computations of the constructor (quadsphere.cpp 122-139)\<close>

definition round_divs :: "int \<Rightarrow> int" where
  "round_divs divs = (let divs' = 2 * ((divs + 1) sdiv 2) in if divs' < 1 then 1 else divs')"

definition dm1 :: "int \<Rightarrow> int" where
  "dm1 divs = divs - 1"

definition dp1 :: "int \<Rightarrow> int" where
  "dp1 divs = divs + 1"

definition qpf :: "int \<Rightarrow> int" where
  "qpf divs = divs * divs"

definition ppf :: "int \<Rightarrow> int" where
  "ppf divs = dp1 divs * dp1 divs"

definition d2 :: "int \<Rightarrow> int" where
  "d2 divs = divs sdiv 2"

definition ntb :: "int \<Rightarrow> int" where
  "ntb divs = d2 divs"

definition dups :: "int \<Rightarrow> int" where
  "dups divs = dp1 divs + 2 * ntb divs + 4"

record quadsphere =
  vertpnts :: int
  linewrds :: int
  quadwrds :: int
  nwords :: int
  verts :: int
  TCs :: int
  lineidx :: int
  quadidx :: int

text \<open>
  \<open>quadsphere_sizes d\<close> holds the size fields and array addresses that the constructor
  called with \<open>d\<close> sets (lines 122-149); \<open>verts = words\<close> is offset 0. The sizes are
  set before the block is allocated. The rest of the model is the constructor after an
  allocation that succeeded; when \<open>new\<close> returns 0 the constructor posts
  \<open>errmsg\<close> and builds nothing.
\<close>

definition quadsphere_sizes :: "int \<Rightarrow> quadsphere" where
  "quadsphere_sizes divs0 =
     (let divs = round_divs divs0;
          vp = 6 * ppf divs + dups divs;
          lw = 24 * qpf divs;
          qw = lw;
          nw = u32 (u32 ((3 + 2 * Nprojections) * vp) + lw + qw);
          vs = 0;
          tc = vs + 3 * vp;
          li = tc + Nprojections * 2 * vp;
          qi = li + lw
      in \<lparr> vertpnts = vp, linewrds = lw, quadwrds = qw, nwords = nw,
           verts = vs, TCs = tc, lineidx = li, quadidx = qi \<rparr>)"

subsection \<open>Accessors (quadsphere.h 76-97, quadsphere.cpp 643-665)\<close>

definition vertexOffset :: "quadsphere \<Rightarrow> int" where
  "vertexOffset q = 0"

definition vertexBytes :: "quadsphere \<Rightarrow> int" where
  "vertexBytes q = u32 (3 * vertpnts q * sizeof_float)"

definition texCoordSize :: "quadsphere \<Rightarrow> int" where
  "texCoordSize q = u32 (2 * vertpnts q * sizeof_float)"

definition lineIndexCount :: "quadsphere \<Rightarrow> int" where
  "lineIndexCount q = linewrds q"

definition lineIndexOffset :: "quadsphere \<Rightarrow> int" where
  "lineIndexOffset q = u32 ((lineidx q - verts q) * sizeof_float)"

definition lineIndexSize :: "quadsphere \<Rightarrow> int" where
  "lineIndexSize q = u32 (linewrds q * sizeof_uint)"

definition quadIndexCount :: "quadsphere \<Rightarrow> int" where
  "quadIndexCount q = quadwrds q"

definition quadIndexOffset :: "quadsphere \<Rightarrow> int" where
  "quadIndexOffset q = u32 ((quadidx q - verts q) * sizeof_float)"

definition quadIndexSize :: "quadsphere \<Rightarrow> int" where
  "quadIndexSize q = u32 (quadwrds q * sizeof_uint)"

definition dataBlockAddr :: "quadsphere \<Rightarrow> int" where
  "dataBlockAddr q = 0"

definition dataBlockSize :: "quadsphere \<Rightarrow> int" where
  "dataBlockSize q = u32 (15 * vertpnts q * sizeof_float)"

text \<open>
  The catalog \<open>pictureTypes\<close> is not among the sources: its \<open>picTypeIndex\<close> is a
  parameter, a function from the identifier (a name, or a \<open>PicType\<close> code) to an
  index, negative when the catalog does not know the identifier.
\<close>

definition texCoords :: "(string \<Rightarrow> int) \<Rightarrow> quadsphere \<Rightarrow> string \<Rightarrow> int option" where
  "texCoords picTypeIndex q proj =
     (let i = picTypeIndex proj
      in if i < 0 \<or> i \<ge> Nprojections then None
         else Some (TCs q + i * 2 * vertpnts q))"

definition texCoordOffset :: "(string \<Rightarrow> int) \<Rightarrow> quadsphere \<Rightarrow> string \<Rightarrow> int" where
  "texCoordOffset picTypeIndex q proj =
     (case texCoords picTypeIndex q proj of
        None \<Rightarrow> 0
      | Some p \<Rightarrow> u32 ((p - verts q) * sizeof_float))"

definition texCoords_PicType :: "(int \<Rightarrow> int) \<Rightarrow> quadsphere \<Rightarrow> int \<Rightarrow> int option" where
  "texCoords_PicType picTypeIndex q proj =
     (let i = picTypeIndex proj
      in if i < 0 \<or> i \<ge> Nprojections then None
         else Some (TCs q + i * 2 * vertpnts q))"

definition texCoordOffset_PicType :: "(int \<Rightarrow> int) \<Rightarrow> quadsphere \<Rightarrow> int \<Rightarrow> int" where
  "texCoordOffset_PicType picTypeIndex q proj =
     (case texCoords_PicType picTypeIndex q proj of
        None \<Rightarrow> 0
      | Some p \<Rightarrow> u32 ((p - verts q) * sizeof_float))"


section \<open>The index builder and the seam repair of the quad indices\<close>

subsection \<open>Loops\<close>

text \<open>
  \<open>for_up i n body\<close> is \<open>for (r = i; r < n; r++) body\<close>, and \<open>repeat r body\<close> is
  \<open>for (; r > 0; --r) body\<close> for a body that does not read \<open>r\<close>. The body works on a
  state and fails (\<open>None\<close>) when it reads or writes outside the memory it is given.
\<close>

function for_up :: "int \<Rightarrow> int \<Rightarrow> (int \<Rightarrow> 's \<Rightarrow> 's option) \<Rightarrow> 's \<Rightarrow> 's option" where
  "for_up i n body s =
     (if i < n
      then (case body i s of None \<Rightarrow> None | Some s' \<Rightarrow> for_up (i + 1) n body s')
      else Some s)"
  by pat_completeness auto
termination
  by (relation "measure (\<lambda>(i, n, body, s). nat (n - i))") auto

function repeat :: "int \<Rightarrow> ('s \<Rightarrow> 's option) \<Rightarrow> 's \<Rightarrow> 's option" where
  "repeat r body s =
     (if r > 0
      then (case body s of None \<Rightarrow> None | Some s' \<Rightarrow> repeat (r - 1) body s')
      else Some s)"
  by pat_completeness auto
termination
  by (relation "measure (\<lambda>(r, body, s). nat r)") auto

declare for_up.simps [simp del]
declare repeat.simps [simp del]

subsection \<open>Memory\<close>

text \<open>
  An index array is a list of the \<open>unsigned int\<close> values it holds. \<open>rd\<close> and \<open>wr\<close>
  are a read and a write at an address; outside the list they fail.
\<close>

definition rd :: "int list \<Rightarrow> int \<Rightarrow> int option" where
  "rd m a = (if 0 \<le> a \<and> a < int (length m) then Some (m ! nat a) else None)"

definition wr :: "int list \<Rightarrow> int \<Rightarrow> int \<Rightarrow> int list option" where
  "wr m a v = (if 0 \<le> a \<and> a < int (length m) then Some (m[nat a := v]) else None)"

subsection \<open>Quad indices (quadsphere.cpp 238-254)\<close>

text \<open>
  The loops store through \<open>*pq++\<close> into the fresh array \<open>quadidx\<close>: the list is what has
  been stored so far, and a store appends to it. The second loop reads through \<open>qq\<close>
  what the first loop and it itself have stored.
\<close>

definition quad_face0 :: "int \<Rightarrow> int list \<Rightarrow> int list option" where
  "quad_face0 divs quad0 =
     for_up 0 divs
       (\<lambda>r quad.
          let k = r * dp1 divs
          in for_up 0 divs
               (\<lambda>c quad.
                  Some (quad @ [k + c, dp1 divs + k + c, dp1 divs + k + c + 1, k + c + 1]))
               quad)
       quad0"

definition quad_copy :: "int \<Rightarrow> int list \<Rightarrow> int list option" where
  "quad_copy divs quad0 =
     map_option snd
       (repeat (20 * qpf divs)
          (\<lambda>(qq, quad). do { v \<leftarrow> rd quad qq; Some (qq + 1, quad @ [v + ppf divs]) })
          (0, quad0))"

definition quad_indices :: "int \<Rightarrow> int list option" where
  "quad_indices divs = do { quad \<leftarrow> quad_face0 divs []; quad_copy divs quad }"

subsection \<open>Line indices (quadsphere.cpp 263-318)\<close>

datatype face = Front | Top | Left | Back | Bottom | Right

text \<open>The body of the loop of each face: the four stores to \<open>pq[0..3]\<close>.\<close>

fun line_quad :: "face \<Rightarrow> int \<Rightarrow> int \<Rightarrow> int \<Rightarrow> int \<Rightarrow> int list" where
  "line_quad Front q0 q1 q2 q3 = [q0, q1, q0, q3]"
| "line_quad Top q0 q1 q2 q3 = [q0, q1, q0, q3]"
| "line_quad Left q0 q1 q2 q3 = [q0, q1, q2, q1]"
| "line_quad Back q0 q1 q2 q3 = [q0, q1, q2, q1]"
| "line_quad Bottom q0 q1 q2 q3 = [q0, q3, q2, q3]"
| "line_quad Right q0 q1 q2 q3 = [q0, q1, q0, q3]"

definition line_face :: "int \<Rightarrow> int list \<Rightarrow> face \<Rightarrow> int \<times> int list \<Rightarrow> (int \<times> int list) option" where
  "line_face divs quad f s0 =
     repeat (qpf divs)
       (\<lambda>(qq, line). do {
          q0 \<leftarrow> rd quad qq;
          q1 \<leftarrow> rd quad (qq + 1);
          q2 \<leftarrow> rd quad (qq + 2);
          q3 \<leftarrow> rd quad (qq + 3);
          Some (qq + 4, line @ line_quad f q0 q1 q2 q3) })
       s0"

definition line_indices :: "int \<Rightarrow> int list \<Rightarrow> int list option" where
  "line_indices divs quad = do {
     s \<leftarrow> line_face divs quad Front (0, []);
     s \<leftarrow> line_face divs quad Top s;
     s \<leftarrow> line_face divs quad Left s;
     s \<leftarrow> line_face divs quad Back s;
     s \<leftarrow> line_face divs quad Bottom s;
     s \<leftarrow> line_face divs quad Right s;
     Some (snd s) }"

text \<open>
  The index memory after the index builder: \<open>lineidx\<close> is followed by \<open>quadidx\<close>
  (\<open>quadidx = lineidx + linewrds\<close>), so the address of \<open>quadidx[0]\<close> in it is
  \<open>linewrds = 24 * qpf\<close>.
\<close>

definition index_builder :: "int \<Rightarrow> int list option" where
  "index_builder divs = do {
     quad \<leftarrow> quad_indices divs;
     line \<leftarrow> line_indices divs quad;
     Some (line @ quad) }"

subsection \<open>Seam repair of the quad indices (quadsphere.cpp 469-479, 542-566, 598-635)\<close>

text \<open>
  The seam repair stores into \<open>quadidx\<close> at computed addresses. \<open>jq\<close> is an
  \<open>unsigned int\<close>, and at the resolution 1 its initialiser \<open>divs * (d2 - 1) + d2\<close> is
  \<open>-1\<close>: the conversion and the unsigned arithmetic of \<open>4 * (qpf + jq)\<close> are written
  out with \<open>u32\<close>. The other unsigned values of this part are nonnegative and below
  \<open>2 ^ 31\<close> wherever the \<open>int\<close> values fit. The stores to the texture coordinates in
  between go to the coordinate sets (\<open>quadsphere_TC_sets\<close>).
\<close>

definition seam_top :: "int \<Rightarrow> int list \<Rightarrow> int list option" where
  "seam_top divs m0 =
     (let qtb = ntb divs - 1;
          iqt = qpf divs + d2 divs;
          idt = 6 * ppf divs;
          quadidx = 24 * qpf divs
      in do {
        (pq, idt, m) \<leftarrow>
          for_up 0 qtb
            (\<lambda>r (pq, idt, m). do {
               m \<leftarrow> wr m pq idt;
               m \<leftarrow> wr m (pq + 1) (idt + 1);
               Some (pq + 4 * divs, idt + 1, m) })
            (quadidx + 4 * iqt, idt, m0);
        wr m pq idt })"

definition seam_back :: "int \<Rightarrow> int list \<Rightarrow> int list option" where
  "seam_back divs m0 =
     (let iqk = 3 * qpf divs + d2 divs;
          idk = 6 * ppf divs + ntb divs;
          quadidx = 24 * qpf divs
      in do {
        m \<leftarrow> wr m0 (quadidx + 4 * iqk) idk;
        (pq, idk, m) \<leftarrow>
          for_up 0 (divs - 1)
            (\<lambda>r (pq, idk, m). do {
               m \<leftarrow> wr m (pq + 1) idk;
               m \<leftarrow> wr m (pq + 4 * divs) idk;
               Some (pq + 4 * divs, idk + 1, m) })
            (quadidx + 4 * iqk, idk + 1, m);
        wr m (pq + 1) idk })"

definition seam_bottom :: "int \<Rightarrow> int list \<Rightarrow> int list option" where
  "seam_bottom divs m0 =
     (let qtb = ntb divs - 1;
          iqb = 4 * qpf divs + (divs - 1 - qtb) * divs + d2 divs;
          idb = 6 * ppf divs + ntb divs + dp1 divs;
          quadidx = 24 * qpf divs
      in do {
        m \<leftarrow> wr m0 (quadidx + 4 * iqb + 1) idb;
        (pq, idb, m) \<leftarrow>
          for_up 0 qtb
            (\<lambda>r (pq, idb, m). do {
               m \<leftarrow> wr m (pq + 4 * divs) idb;
               m \<leftarrow> wr m (pq + 4 * divs + 1) (idb + 1);
               Some (pq + 4 * divs, idb + 1, m) })
            (quadidx + 4 * iqb, idb, m);
        Some m })"

definition seam_centers :: "int \<Rightarrow> int list \<Rightarrow> int list option" where
  "seam_centers divs m0 =
     (let idc = 6 * ppf divs + ntb divs + dp1 divs + ntb divs;
          quadidx = 24 * qpf divs;
          jq = u32 (divs * (d2 divs - 1) + d2 divs);
          pq = quadidx + u32 (4 * u32 (qpf divs + jq));
          jq' = (divs + 1) * d2 divs;
          pq' = quadidx + 4 * (4 * qpf divs + jq')
      in do {
        m \<leftarrow> wr m0 (pq - 2) idc;
        m \<leftarrow> wr m (pq + 1) (idc + 1);
        m \<leftarrow> wr m (pq' - 1) (idc + 2);
        wr m pq' (idc + 3) })"

definition seam_repair :: "int \<Rightarrow> int list \<Rightarrow> int list option" where
  "seam_repair divs m0 = do {
     m \<leftarrow> seam_top divs m0;
     m \<leftarrow> seam_back divs m;
     m \<leftarrow> seam_bottom divs m;
     seam_centers divs m }"

text \<open>
  The index memory of the constructed object: \<open>lineidx\<close> at address 0 and \<open>quadidx\<close> at
  address \<open>linewrds\<close>.
\<close>

definition quadsphere_indices :: "int \<Rightarrow> int list option" where
  "quadsphere_indices divs0 =
     (let divs = round_divs divs0 in do { m \<leftarrow> index_builder divs; seam_repair divs m })"

definition lineidx_of :: "int \<Rightarrow> int list \<Rightarrow> int list" where
  "lineidx_of divs m = take (nat (24 * qpf divs)) m"

definition quadidx_of :: "int \<Rightarrow> int list \<Rightarrow> int list" where
  "quadidx_of divs m = drop (nat (24 * qpf divs)) m"


subsection \<open>The faces, the cells and the table of the line indices\<close>

text \<open>
  The blocks of the faces, as the comment of the constructor numbers them:
  0 front, 1 top, 2 left, 3 back, 4 bottom, 5 right.
\<close>

fun face_no :: "face \<Rightarrow> int" where
  "face_no Front = 0"
| "face_no Top = 1"
| "face_no Left = 2"
| "face_no Back = 3"
| "face_no Bottom = 4"
| "face_no Right = 5"

definition face_of :: "int \<Rightarrow> face" where
  "face_of k = (if k = 0 then Front else if k = 1 then Top else if k = 2 then Left
                else if k = 3 then Back else if k = 4 then Bottom else Right)"

text \<open>
  The comment before the line loops gives the doubled corner of each face:
  \<open>F, T, R : 0 => 2; K, L: 1 => 3; B: 3 => 1\<close>. \<open>line_src\<close> is the corner that is
  copied and \<open>line_dst\<close> the position it overwrites.
\<close>

fun line_src :: "face \<Rightarrow> nat" where
  "line_src Front = 0"
| "line_src Top = 0"
| "line_src Right = 0"
| "line_src Back = 1"
| "line_src Left = 1"
| "line_src Bottom = 3"

fun line_dst :: "face \<Rightarrow> nat" where
  "line_dst Front = 2"
| "line_dst Top = 2"
| "line_dst Right = 2"
| "line_dst Back = 3"
| "line_dst Left = 3"
| "line_dst Bottom = 1"

text \<open>
  \<open>quad_cell divs f r c\<close> are the four corners of the cell in row \<open>r\<close> and column \<open>c\<close> of
  the face \<open>f\<close>, as the quad loops compute them; \<open>cell_at\<close> is the address of the
  cell's first index in either index array.
\<close>

definition quad_cell :: "int \<Rightarrow> face \<Rightarrow> int \<Rightarrow> int \<Rightarrow> int list" where
  "quad_cell divs f r c =
     (let k = r * dp1 divs; off = face_no f * ppf divs
      in [off + (k + c), off + (dp1 divs + k + c), off + (dp1 divs + k + c + 1),
          off + (k + c + 1)])"

definition cell_at :: "int \<Rightarrow> face \<Rightarrow> int \<Rightarrow> int \<Rightarrow> nat" where
  "cell_at divs f r c = nat (4 * (face_no f * qpf divs + r * divs + c))"

definition quadruple :: "int list \<Rightarrow> nat \<Rightarrow> int list" where
  "quadruple xs b = [xs ! b, xs ! (b + 1), xs ! (b + 2), xs ! (b + 3)]"

text \<open>The number of positions at which two quadruples differ.\<close>

definition overwritten :: "int list \<Rightarrow> int list \<Rightarrow> nat" where
  "overwritten ls qs = length (filter (\<lambda>p. ls ! p \<noteq> qs ! p) [0..<4])"

text \<open>
  The two segments that a line draw makes of a quadruple of line indices, and the four
  edges of a quad, as sets of end points.
\<close>

definition segments :: "int list \<Rightarrow> int set list" where
  "segments ls = [{ls ! 0, ls ! 1}, {ls ! 2, ls ! 3}]"

definition edges :: "int list \<Rightarrow> int set set" where
  "edges qs = {{qs ! 0, qs ! 1}, {qs ! 1, qs ! 2}, {qs ! 2, qs ! 3}, {qs ! 3, qs ! 0}}"

text \<open>
  The value that the index builder stores at address \<open>i\<close> of \<open>quadidx\<close> and of
  \<open>lineidx\<close>, in closed form.
\<close>

definition quad_elem :: "int \<Rightarrow> int \<Rightarrow> int" where
  "quad_elem divs i =
     (let j = i div 4; cell = j mod qpf divs
      in quad_cell divs (face_of (j div qpf divs)) (cell div divs) (cell mod divs) ! nat (i mod 4))"

definition line_elem :: "int \<Rightarrow> int \<Rightarrow> int" where
  "line_elem divs i =
     (let j = i div 4; b = 4 * j
      in line_quad (face_of (j div qpf divs))
           (quad_elem divs b) (quad_elem divs (b + 1)) (quad_elem divs (b + 2))
           (quad_elem divs (b + 3)) ! nat (i mod 4))"

definition tab :: "(int \<Rightarrow> int) \<Rightarrow> int \<Rightarrow> int list" where
  "tab E k = map (\<lambda>i. E (int i)) [0..<nat k]"

definition quad_table :: "int \<Rightarrow> int list" where
  "quad_table divs = tab (quad_elem divs) (24 * qpf divs)"

definition line_table :: "int \<Rightarrow> int list" where
  "line_table divs = tab (line_elem divs) (24 * qpf divs)"

text \<open>
  The invariant of the seam repair on the index memory \<open>m\<close>: it has \<open>2 * L\<close> words,
  every index is below the vertex count \<open>V\<close>, and its first \<open>L\<close> words, the line
  indices, are \<open>li\<close>.
\<close>

definition seam_inv :: "int \<Rightarrow> int \<Rightarrow> int list \<Rightarrow> int list \<Rightarrow> bool" where
  "seam_inv L V li m \<longleftrightarrow>
     int (length m) = 2 * L \<and> list_all (\<lambda>x. 0 \<le> x \<and> x < V) m \<and> take (nat L) m = li"


section \<open>The vertex generator and the projection mapper\<close>

text \<open>
  The vertices and the texture coordinates are \<open>float\<close> values that the constructor
  computes in \<open>double\<close>. Here they are real numbers and the arithmetic is exact: the
  conversions \<open>float(...)\<close> are the identity, and \<open>sqrt\<close>, \<open>sin\<close>, \<open>cos\<close>, \<open>tan\<close>,
  \<open>asin\<close>, \<open>acos\<close> and \<open>log\<close> are the functions of analysis. The model says which
  branch a vertex takes and which expression is stored; it says nothing about rounding.
\<close>

type_synonym vec3 = "real \<times> real \<times> real"

definition Pi :: real where
  "Pi = pi"

definition DEG2RAD :: "real \<Rightarrow> real" where
  "DEG2RAD x = x * Pi / 180"

definition dotp :: "vec3 \<Rightarrow> vec3 \<Rightarrow> real" where
  "dotp a b = (case (a, b) of ((a0, a1, a2), (b0, b1, b2)) \<Rightarrow> a0 * b0 + a1 * b1 + a2 * b2)"

text \<open>
  The reals have one zero, the floats of the vertex array have two, and \<open>atan2\<close> of
  the C library tells them apart: \<open>atan2(\<plusminus>0, x)\<close> is \<open>\<plusminus>\<pi>\<close> for a negative \<open>x\<close> and for
  \<open>x = -0\<close>, and \<open>\<plusminus>0\<close> for a positive \<open>x\<close> and for \<open>x = +0\<close>. \<open>atan2 ny y nx x\<close> is
  the angle of the point \<open>(x, y)\<close> in \<open>[-\<pi>, \<pi>]\<close>; \<open>ny\<close> and \<open>nx\<close> say whether \<open>y\<close> and
  \<open>x\<close>, when they are zero, are the negative zero. The sign of a zero result is not
  kept: nothing that the constructor does with the result depends on it.
\<close>

definition atan2 :: "bool \<Rightarrow> real \<Rightarrow> bool \<Rightarrow> real \<Rightarrow> real" where
  "atan2 ny y nx x =
     (if 0 < x then arctan (y / x)
      else if x < 0 then
        (if 0 < y \<or> (y = 0 \<and> \<not> ny) then arctan (y / x) + pi else arctan (y / x) - pi)
      else if 0 < y then pi / 2
      else if y < 0 then - (pi / 2)
      else if nx then (if ny then - pi else pi)
      else 0)"

subsection \<open>slerp and the six faces (quadsphere.cpp 50-67, 164-230)\<close>

text \<open>
  \<open>slerp\<close> stores \<open>divs + 1\<close> points through \<open>pf\<close>, which advances by one vertex
  (the stride is 1 at its only call): the list is what has been stored, and a store
  appends.
\<close>

definition slerp :: "int \<Rightarrow> vec3 \<Rightarrow> vec3 \<Rightarrow> vec3 list \<Rightarrow> vec3 list option" where
  "slerp divs v0 v1 pf =
     (if divs < 1 then Some pf
      else
        let om = dotp v0 v1;
            som = sqrt (1 - om * om);
            om = arcsin som;
            s = 1 / real_of_int divs
        in for_up 0 (divs + 1)
             (\<lambda>i pf.
                let t = real_of_int i * s;
                    a = sin (om * (1 - t)) / som;
                    b = sin (om * t) / som
                in case (v0, v1) of ((v00, v01, v02), (v10, v11, v12)) \<Rightarrow>
                     Some (pf @ [(v00 * a + v10 * b, v01 * a + v11 * b, v02 * a + v12 * b)]))
             pf)"

definition ccc :: real where
  "ccc = sqrt (1 / 3)"

definition vul :: vec3 where "vul = (ccc, ccc, ccc)"
definition vur :: vec3 where "vur = (- ccc, ccc, ccc)"
definition vll :: vec3 where "vll = (ccc, - ccc, ccc)"
definition vlr :: vec3 where "vlr = (- ccc, - ccc, ccc)"

definition front_face :: "int \<Rightarrow> vec3 list option" where
  "front_face divs =
     (let om = dotp vul vll;
          som = sqrt (1 - om * om);
          om = arcsin som;
          s = 1 / real_of_int divs
      in for_up 0 (divs + 1)
           (\<lambda>i pd.
              let t = real_of_int i * s;
                  a = sin (om * (1 - t)) / som;
                  b = sin (om * t) / som
              in case (vul, vll, vur, vlr) of
                   ((ul0, ul1, ul2), (ll0, ll1, ll2), (ur0, ur1, ur2), (lr0, lr1, lr2)) \<Rightarrow>
                     slerp divs
                       (ul0 * a + ll0 * b, ul1 * a + ll1 * b, ul2 * a + ll2 * b)
                       (ur0 * a + lr0 * b, ur1 * a + lr1 * b, ur2 * a + lr2 * b)
                       pd)
           [])"

text \<open>
  The loop over the points of the front face stores the five images of the \<open>i\<close>-th
  point at the \<open>i\<close>-th place of the five other blocks. Block by block, each is the
  front face under one of these maps.
\<close>

fun face_image :: "face \<Rightarrow> vec3 \<Rightarrow> vec3" where
  "face_image Front (x, y, z) = (x, y, z)"
| "face_image Top (x, y, z) = (x, z, - y)"
| "face_image Left (x, y, z) = (z, y, - x)"
| "face_image Back (x, y, z) = (- x, y, - z)"
| "face_image Bottom (x, y, z) = (x, - z, y)"
| "face_image Right (x, y, z) = (- z, y, x)"

definition face_vertices :: "int \<Rightarrow> vec3 list option" where
  "face_vertices divs =
     map_option
       (\<lambda>front. concat (map (\<lambda>f. map (face_image f) front) [Front, Top, Left, Back, Bottom, Right]))
       (front_face divs)"

text \<open>
  The zeros of the stored coordinates. A coordinate of the front face that is zero is
  the sum of two opposite products, or of two products of zero with a nonnegative
  factor, so it is the positive zero. The loop of the other faces stores some
  coordinates negated (\<open>p[2] = -ps[1]\<close>), and the negation of the positive zero is the
  negative zero: \<open>face_neg f\<close> says which of the three coordinates of the face \<open>f\<close> are
  stored negated, and \<open>stored_signs\<close> lists that for the \<open>6 * ppf\<close> vertices in the
  order of the vertex array.
\<close>

fun face_neg :: "face \<Rightarrow> bool \<times> bool \<times> bool" where
  "face_neg Front = (False, False, False)"
| "face_neg Top = (False, False, True)"
| "face_neg Left = (False, False, True)"
| "face_neg Back = (True, False, True)"
| "face_neg Bottom = (False, True, False)"
| "face_neg Right = (True, False, False)"

definition stored_signs :: "int \<Rightarrow> (bool \<times> bool \<times> bool) list" where
  "stored_signs divs =
     concat (map (\<lambda>f. replicate (nat (ppf divs)) (face_neg f))
               [Front, Top, Left, Back, Bottom, Right])"

text \<open>
  The seam repair copies vertices to the duplicates area behind the six faces
  (quadsphere.cpp 470-536, 577-588): \<open>ntb\<close> from the top face, \<open>dp1\<close> from the back
  face, \<open>ntb\<close> from the bottom face, each run with the stride \<open>dp1\<close>, then the top
  center twice and the bottom center twice. A copy fails when it reads outside the six
  faces.
\<close>

definition rdv :: "vec3 list \<Rightarrow> int \<Rightarrow> vec3 option" where
  "rdv vs a = (if 0 \<le> a \<and> a < int (length vs) then Some (vs ! nat a) else None)"

definition copy_run :: "vec3 list \<Rightarrow> int \<Rightarrow> int \<Rightarrow> int \<Rightarrow> vec3 list \<Rightarrow> vec3 list option" where
  "copy_run vs divs cnt ip pd0 =
     map_option snd
       (for_up 0 cnt
          (\<lambda>r (ps, pd). do { v \<leftarrow> rdv vs ps; Some (ps + dp1 divs, pd @ [v]) })
          (ip, pd0))"

definition seam_vertices :: "int \<Rightarrow> vec3 list \<Rightarrow> vec3 list option" where
  "seam_vertices divs vs =
     (let ipt = ppf divs + d2 divs;
          ipk = 3 * ppf divs + d2 divs;
          ipb = 4 * ppf divs + (dp1 divs - ntb divs) * dp1 divs + d2 divs;
          jf = (dp1 divs + 1) * d2 divs;
          ic = ppf divs + jf;
          id = 4 * ppf divs + jf
      in do {
        pd \<leftarrow> copy_run vs divs (ntb divs) ipt [];
        pd \<leftarrow> copy_run vs divs (dp1 divs) ipk pd;
        pd \<leftarrow> copy_run vs divs (ntb divs) ipb pd;
        vc \<leftarrow> rdv vs ic;
        vd \<leftarrow> rdv vs id;
        Some (pd @ [vc, vc, vd, vd]) })"

text \<open>The vertex array of the constructed object: the six faces, then the duplicates.\<close>

definition quadsphere_vertices :: "int \<Rightarrow> vec3 list option" where
  "quadsphere_vertices divs0 =
     (let divs = round_divs divs0
      in do { vs \<leftarrow> face_vertices divs; pd \<leftarrow> seam_vertices divs vs; Some (vs @ pd) })"

definition magnitude :: "vec3 \<Rightarrow> real" where
  "magnitude v = sqrt (dotp v v)"

subsection \<open>Texture coordinates of one vertex (quadsphere.cpp 74-77, 332-452)\<close>

definition ninv :: real where
  "ninv = - 0.01"

definition pinv :: real where
  "pinv = 1.01"

definition CLIP :: "real \<Rightarrow> real" where
  "CLIP x = (if x < ninv then ninv else if x > pinv then pinv else x)"

definition INVAL :: "real \<Rightarrow> real" where
  "INVAL t = (if t > 0 then pinv else ninv)"

text \<open>
  The limits that the constructor fixes before the loop over the vertices. The maximal
  field of view of the rectilinear projection comes from the catalog \<open>pictureTypes\<close>,
  which is not among the sources: \<open>fovw\<close> is \<open>fovs.width()\<close>, in degrees.
\<close>

definition amaxrect :: "real \<Rightarrow> real" where "amaxrect fovw = DEG2RAD (0.5 * fovw)"
definition cminrect :: "real \<Rightarrow> real" where "cminrect fovw = cos (amaxrect fovw)"
definition tmaxrect :: "real \<Rightarrow> real" where "tmaxrect fovw = tan (amaxrect fovw)"
definition amaxcyl :: real where "amaxcyl = DEG2RAD 80"
definition amaxsph :: real where "amaxsph = DEG2RAD 180"
definition amaxfish :: real where "amaxfish = DEG2RAD 180"
definition amaxmerc :: real where "amaxmerc = DEG2RAD 80"
definition cminmerc :: real where "cminmerc = cos amaxmerc"
definition tmaxmerc :: real where "tmaxmerc = ln (tan amaxmerc + 1 / cminmerc)"
definition amaxster :: real where "amaxster = DEG2RAD 155"
definition tmaxster :: real where "tmaxster = tan (0.5 * amaxster)"

text \<open>
  The angles and the direction \<open>(sx, sy)\<close> of a vertex \<open>v\<close>. Only \<open>xa\<close> depends on
  the signs \<open>ng\<close> of its zeros.
\<close>

definition xa :: "bool \<times> bool \<times> bool \<Rightarrow> vec3 \<Rightarrow> real" where
  "xa ng v = (case (ng, v) of ((nx, ny, nz), (x, y, z)) \<Rightarrow> - atan2 nx x nz z)"
definition ya :: "vec3 \<Rightarrow> real" where "ya v = (case v of (x, y, z) \<Rightarrow> arccos y)"
definition za :: "vec3 \<Rightarrow> real" where "za v = (case v of (x, y, z) \<Rightarrow> arccos z)"
definition sxa :: "vec3 \<Rightarrow> real" where "sxa v = (case v of (x, y, z) \<Rightarrow> - x)"
definition cxa :: "vec3 \<Rightarrow> real" where "cxa v = (case v of (x, y, z) \<Rightarrow> z)"
definition sya :: "vec3 \<Rightarrow> real" where "sya v = (case v of (x, y, z) \<Rightarrow> y)"
definition cya :: "vec3 \<Rightarrow> real" where "cya v = (case v of (x, y, z) \<Rightarrow> sqrt (x * x + z * z))"
definition sza :: "vec3 \<Rightarrow> real" where "sza v = (case v of (x, y, z) \<Rightarrow> sqrt (x * x + y * y))"
definition cza :: "vec3 \<Rightarrow> real" where "cza v = (case v of (x, y, z) \<Rightarrow> z)"

definition sx :: "vec3 \<Rightarrow> real" where
  "sx v = (if sza v \<ge> 0.0001 then sxa v / sza v else 0)"

definition sy :: "vec3 \<Rightarrow> real" where
  "sy v = (if sza v \<ge> 0.0001 then - sya v / sza v else 0)"

text \<open>
  The sections of the loop body, in the order of the code. The variable \<open>s\<close> is shared
  by the sections: each takes its value on entry and returns the coordinate pair with
  its value on exit.
\<close>

definition tc_rect :: "real \<Rightarrow> vec3 \<Rightarrow> real \<Rightarrow> (real \<times> real) \<times> real" where
  "tc_rect fovw v s =
     (if za v > 0.45 * Pi then ((INVAL (sx v), INVAL (sy v)), s)
      else let s = 0.5 * (sza v / cza v) / tmaxrect fovw
           in ((CLIP (0.5 + s * sx v), CLIP (0.5 + s * sy v)), s))"

definition tc_fish :: "bool \<times> bool \<times> bool \<Rightarrow> vec3 \<Rightarrow> real \<Rightarrow> (real \<times> real) \<times> real" where
  "tc_fish ng v s =
     (if za v > amaxfish then ((INVAL (xa ng v), INVAL (ya v - 0.5 * Pi)), s)
      else let s = 0.5 * sqrt (0.5 * (1 - cza v))
           in ((CLIP (0.5 + s * sx v), CLIP (0.5 + s * sy v)), s))"

definition tc_equi :: "bool \<times> bool \<times> bool \<Rightarrow> vec3 \<Rightarrow> real \<times> real" where
  "tc_equi ng v = (CLIP (0.5 + 0.5 * xa ng v / Pi), CLIP (ya v / Pi))"

definition tc_cyli ::
  "real \<Rightarrow> bool \<times> bool \<times> bool \<Rightarrow> vec3 \<Rightarrow> real \<times> real \<Rightarrow> (real \<times> real) \<times> real" where
  "tc_cyli fovw ng v pe =
     (let s = ya v - 0.5 * Pi
      in if \<bar>s\<bar> > amaxcyl then ((INVAL (xa ng v), INVAL s), s)
         else ((fst pe, CLIP (0.5 - 0.5 * (sya v / cya v) / tmaxrect fovw)), s))"

definition tc_angl :: "bool \<times> bool \<times> bool \<Rightarrow> vec3 \<Rightarrow> real \<Rightarrow> (real \<times> real) \<times> real" where
  "tc_angl ng v s =
     (if za v > amaxsph then ((INVAL (xa ng v), INVAL (ya v - 0.5 * Pi)), s)
      else let s = 0.5 * za v / Pi
           in ((CLIP (0.5 + s * sx v), CLIP (0.5 + s * sy v)), s))"

definition tc_merc :: "vec3 \<Rightarrow> real \<times> real \<Rightarrow> real \<Rightarrow> (real \<times> real) \<times> real" where
  "tc_merc v pe s =
     (if \<bar>cya v\<bar> < cminmerc then ((fst pe, INVAL s), s)
      else let s = ln ((sya v + 1) / cya v)
           in ((fst pe, CLIP (s / tmaxmerc)), s))"

definition tc_ster :: "vec3 \<Rightarrow> real \<Rightarrow> (real \<times> real) \<times> real" where
  "tc_ster v s =
     (if za v > amaxster then ((INVAL (sx v), INVAL (sy v)), s)
      else let s = tan (0.5 * za v) / tmaxster
           in ((CLIP (0.5 + s * sx v), CLIP (0.5 + s * sy v)), s))"

record texcoord =
  rects :: "real \<times> real"
  fishs :: "real \<times> real"
  cylis :: "real \<times> real"
  equis :: "real \<times> real"
  angls :: "real \<times> real"
  mercs :: "real \<times> real"
  sters :: "real \<times> real"

text \<open>
  One pass of the loop body: the coordinates of the vertex \<open>v\<close>, whose zeros have the
  signs \<open>ng\<close>, in the seven sets and the value of \<open>s\<close> after it, from the value \<open>s0\<close>
  before it.
\<close>

definition vertex_TCs :: "real \<Rightarrow> bool \<times> bool \<times> bool \<Rightarrow> vec3 \<Rightarrow> real \<Rightarrow> texcoord \<times> real" where
  "vertex_TCs fovw ng v s0 =
     (let (pr, s) = tc_rect fovw v s0;
          (pf, s) = tc_fish ng v s;
          pe = tc_equi ng v;
          (pc, s) = tc_cyli fovw ng v pe;
          (pa, s) = tc_angl ng v s;
          (pm, s) = tc_merc v pe s;
          (pt, s) = tc_ster v s
      in (\<lparr> rects = pr, fishs = pf, cylis = pc, equis = pe, angls = pa, mercs = pm,
             sters = pt \<rparr>, s))"

text \<open>
  The loop over the \<open>6 * ppf\<close> vertices of the faces: \<open>ps\<close> runs over the vertex array
  \<open>vs\<close>, each vertex with the signs of its zeros; the state is what is left of it, the
  coordinates stored so far and the value of \<open>s\<close>, which is \<open>1 / divs\<close> when the loop
  starts.
\<close>

definition face_TCs ::
  "real \<Rightarrow> int \<Rightarrow> vec3 list \<Rightarrow>
     ((vec3 \<times> bool \<times> bool \<times> bool) list \<times> texcoord list \<times> real) option" where
  "face_TCs fovw divs vs =
     repeat (6 * ppf divs)
       (\<lambda>(ps, tcs, s).
          (case ps of
             [] \<Rightarrow> None
           | (v, ng) # ps' \<Rightarrow>
               (case vertex_TCs fovw ng v s of (tc, s') \<Rightarrow> Some (ps', tcs @ [tc], s'))))
       (zip vs (stored_signs divs), [], 1 / real_of_int divs)"

text \<open>
  The coordinates of the vertices of the six faces when that loop ends. The seam repair
  that follows it in the constructor works on the coordinate sets, \<open>quadsphere_TC_sets\<close>.
\<close>

definition quadsphere_TCs :: "real \<Rightarrow> int \<Rightarrow> texcoord list option" where
  "quadsphere_TCs fovw divs0 =
     (let divs = round_divs divs0
      in do { vs \<leftarrow> face_vertices divs;
              (ps, tcs, s) \<leftarrow> face_TCs fovw divs vs;
              Some tcs })"


subsection \<open>The coordinate sets and their seam repair (quadsphere.cpp 77-88, 480-536, 590-636)\<close>

definition EVAL :: "real \<Rightarrow> real" where
  "EVAL t = (if t < 0.5 then (if t < 0 then t else 0) else (if t > 1 then t else 1))"

text \<open>
  A coordinate set is an array of \<open>2 * vertpnts\<close> floats, two for each vertex. The
  block comes from \<open>new float[nwords]\<close>, which does not initialise it: a cell holds
  \<open>None\<close> until a value is stored in it, and a copy of such a cell is \<open>None\<close> again.
  \<open>rdf\<close> and \<open>wrf\<close> are a read and a write at an index of the set; outside the set
  they fail.
\<close>

type_synonym tcset = "real option list"

definition rdf :: "tcset \<Rightarrow> int \<Rightarrow> real option option" where
  "rdf base a = (if 0 \<le> a \<and> a < int (length base) then Some (base ! nat a) else None)"

definition wrf :: "tcset \<Rightarrow> int \<Rightarrow> real option \<Rightarrow> tcset option" where
  "wrf base a v = (if 0 \<le> a \<and> a < int (length base) then Some (base[nat a := v]) else None)"

definition setEdgeTCs :: "tcset \<Rightarrow> int \<Rightarrow> int \<Rightarrow> tcset option" where
  "setEdgeTCs base ic idd = do {
     a \<leftarrow> rdf base (ic - 2);
     base \<leftarrow> wrf base ic (map_option EVAL a);
     b \<leftarrow> rdf base (ic + 2);
     base \<leftarrow> wrf base idd (map_option EVAL b);
     c \<leftarrow> rdf base (ic + 1);
     wrf base (idd + 1) c }"

definition copyTCs :: "tcset \<Rightarrow> int \<Rightarrow> int \<Rightarrow> tcset option" where
  "copyTCs base ic idd = do {
     a \<leftarrow> rdf base ic;
     base \<leftarrow> wrf base idd a;
     b \<leftarrow> rdf base (ic + 1);
     wrf base (idd + 1) b }"

text \<open>
  In \<open>setEdgeTCs\<close> and \<open>copyTCs\<close> the parameter \<open>idd\<close> is the \<open>id\<close> of the code. The
  seven sets are named as the local pointers of the constructor. The catalog gives
  each of the seven names its own set.
\<close>

record tcsets =
  set_rects :: tcset
  set_fishs :: tcset
  set_cylis :: tcset
  set_equis :: tcset
  set_sters :: tcset
  set_mercs :: tcset
  set_angls :: tcset

text \<open>
  The sets when the loop over the vertices of the faces has ended: it has stored the
  two coordinates of each of the \<open>6 * ppf\<close> vertices, in order, and the cells of the
  \<open>dups\<close> duplicates behind them have not been written.
\<close>

definition store_set :: "(texcoord \<Rightarrow> real \<times> real) \<Rightarrow> int \<Rightarrow> texcoord list \<Rightarrow> tcset" where
  "store_set sel divs tcs =
     concat (map (\<lambda>tc. [Some (fst (sel tc)), Some (snd (sel tc))]) tcs)
     @ replicate (nat (2 * dups divs)) None"

definition stored_TCs :: "int \<Rightarrow> texcoord list \<Rightarrow> tcsets" where
  "stored_TCs divs tcs =
     \<lparr> set_rects = store_set rects divs tcs, set_fishs = store_set fishs divs tcs,
       set_cylis = store_set cylis divs tcs, set_equis = store_set equis divs tcs,
       set_sters = store_set sters divs tcs, set_mercs = store_set mercs divs tcs,
       set_angls = store_set angls divs tcs \<rparr>"

text \<open>
  One of the three loops that copy a run of seam vertices (lines 482-536): \<open>cnt\<close>
  vertices from the vertex \<open>ip\<close> on, with the stride \<open>dp1\<close>, to the duplicates from
  \<open>idp\<close> on. The copies of the vertices themselves are \<open>copy_run\<close>.
\<close>

definition seam_TC_run :: "int \<Rightarrow> int \<Rightarrow> int \<Rightarrow> int \<Rightarrow> tcsets \<Rightarrow> tcsets option" where
  "seam_TC_run divs cnt ip idp st0 =
     map_option (\<lambda>(ic, idd, st). st)
       (for_up 0 cnt
          (\<lambda>r (ic, idd, st). do {
             a \<leftarrow> copyTCs (set_angls st) ic idd;
             re \<leftarrow> setEdgeTCs (set_rects st) ic idd;
             f \<leftarrow> copyTCs (set_fishs st) ic idd;
             c \<leftarrow> setEdgeTCs (set_cylis st) ic idd;
             e \<leftarrow> setEdgeTCs (set_equis st) ic idd;
             Some (ic + 2 * dp1 divs, idd + 2,
                   st\<lparr> set_angls := a, set_rects := re, set_fishs := f, set_cylis := c,
                       set_equis := e \<rparr>) })
          (2 * ip, 2 * idp, st0))"

definition seam_TCs :: "int \<Rightarrow> tcsets \<Rightarrow> tcsets option" where
  "seam_TCs divs st0 =
     (let ipt = ppf divs + d2 divs;
          ipk = 3 * ppf divs + d2 divs;
          ipb = 4 * ppf divs + (dp1 divs - ntb divs) * dp1 divs + d2 divs;
          idt = 6 * ppf divs;
          idk = idt + ntb divs;
          idb = idk + dp1 divs
      in do {
        st \<leftarrow> seam_TC_run divs (ntb divs) ipt idt st0;
        st \<leftarrow> seam_TC_run divs (dp1 divs) ipk idk st;
        seam_TC_run divs (ntb divs) ipb idb st })"

text \<open>
  The coordinates of the four duplicates of the two centers (lines 590-636) are read
  through the quad indices: \<open>m\<close> is the index memory, \<open>pq\<close> the address of a quad in
  it, \<open>ps\<close> a coordinate set and \<open>pd\<close> the index of the first cell to store.
\<close>

definition makeCTCtop :: "int list \<Rightarrow> int \<Rightarrow> tcset \<Rightarrow> int \<Rightarrow> tcset option" where
  "makeCTCtop m pq ps pd = do {
     i \<leftarrow> rd m (pq - 1); a \<leftarrow> rdf ps (2 * i); ps \<leftarrow> wrf ps pd a;
     i \<leftarrow> rd m (pq - 2); a \<leftarrow> rdf ps (2 * i + 1); ps \<leftarrow> wrf ps (pd + 1) a;
     i \<leftarrow> rd m pq; a \<leftarrow> rdf ps (2 * i); ps \<leftarrow> wrf ps (pd + 2) a;
     i \<leftarrow> rd m (pq + 1); a \<leftarrow> rdf ps (2 * i + 1); wrf ps (pd + 3) a }"

definition makeCTCbot :: "int list \<Rightarrow> int \<Rightarrow> tcset \<Rightarrow> int \<Rightarrow> tcset option" where
  "makeCTCbot m pq ps pd = do {
     i \<leftarrow> rd m (pq - 2); a \<leftarrow> rdf ps (2 * i); ps \<leftarrow> wrf ps pd a;
     i \<leftarrow> rd m (pq - 1); a \<leftarrow> rdf ps (2 * i + 1); ps \<leftarrow> wrf ps (pd + 1) a;
     i \<leftarrow> rd m (pq + 1); a \<leftarrow> rdf ps (2 * i); ps \<leftarrow> wrf ps (pd + 2) a;
     i \<leftarrow> rd m pq; a \<leftarrow> rdf ps (2 * i + 1); wrf ps (pd + 3) a }"

text \<open>
  \<open>center_TCs divs m0 st\<close>: \<open>m0\<close> is the index memory when the three loops over the
  quads of the seam have run (\<open>seam_top\<close>, \<open>seam_back\<close>, \<open>seam_bottom\<close>). The two
  index stores of the top center come before the reads of the bottom center, as in the
  code; those of the bottom center come last and no coordinate depends on them
  (\<open>seam_centers\<close> has all four). \<open>center_TCs_at\<close> is the sequence of the calls, and
  \<open>center_TCs\<close> computes the addresses for it, like \<open>seam_centers\<close>.
\<close>

definition center_TCs_at :: "int \<Rightarrow> int \<Rightarrow> int \<Rightarrow> int list \<Rightarrow> tcsets \<Rightarrow> tcsets option" where
  "center_TCs_at idc pq pq' m0 st =
     (let jf = 2 * idc; jf' = 2 * idc + 4
      in do {
        a \<leftarrow> makeCTCtop m0 pq (set_angls st) jf;
        re \<leftarrow> makeCTCtop m0 pq (set_rects st) jf;
        f \<leftarrow> makeCTCtop m0 pq (set_fishs st) jf;
        c \<leftarrow> makeCTCtop m0 pq (set_cylis st) jf;
        e \<leftarrow> makeCTCtop m0 pq (set_equis st) jf;
        m \<leftarrow> wr m0 (pq - 2) idc;
        m \<leftarrow> wr m (pq + 1) (idc + 1);
        a \<leftarrow> makeCTCbot m pq' a jf';
        re \<leftarrow> makeCTCbot m pq' re jf';
        f \<leftarrow> makeCTCbot m pq' f jf';
        c \<leftarrow> makeCTCbot m pq' c jf';
        e \<leftarrow> makeCTCbot m pq' e jf';
        Some (st\<lparr> set_angls := a, set_rects := re, set_fishs := f, set_cylis := c,
                  set_equis := e \<rparr>) })"

definition center_TCs :: "int \<Rightarrow> int list \<Rightarrow> tcsets \<Rightarrow> tcsets option" where
  "center_TCs divs m0 st =
     (let idc = 6 * ppf divs + ntb divs + dp1 divs + ntb divs;
          quadidx = 24 * qpf divs;
          jq = u32 (divs * (d2 divs - 1) + d2 divs);
          pq = quadidx + u32 (4 * u32 (qpf divs + jq));
          jq' = (divs + 1) * d2 divs;
          pq' = quadidx + 4 * (4 * qpf divs + jq')
      in center_TCs_at idc pq pq' m0 st)"

text \<open>
  The seven coordinate sets of the constructed object: the loop over the vertices of the
  faces, the three loops of the seam, and the centers, which read the quad indices that
  the index builder and the loops over the quads of the seam have left.
\<close>

definition quadsphere_TC_sets :: "real \<Rightarrow> int \<Rightarrow> tcsets option" where
  "quadsphere_TC_sets fovw divs0 =
     (let divs = round_divs divs0
      in do {
        vs \<leftarrow> face_vertices divs;
        m \<leftarrow> index_builder divs;
        (ps, tcs, s) \<leftarrow> face_TCs fovw divs vs;
        st \<leftarrow> seam_TCs divs (stored_TCs divs tcs);
        m \<leftarrow> seam_top divs m;
        m \<leftarrow> seam_back divs m;
        m \<leftarrow> seam_bottom divs m;
        center_TCs divs m st })"

text \<open>
  \<open>coords base i\<close> is the coordinate pair of the vertex \<open>i\<close> in the set \<open>base\<close>, and
  \<open>seam_points\<close> lists the vertices of the faces whose coordinates the three loops of
  the seam rewrite.
\<close>

definition coords :: "tcset \<Rightarrow> int \<Rightarrow> (real option \<times> real option) option" where
  "coords base i = do { a \<leftarrow> rdf base (2 * i); b \<leftarrow> rdf base (2 * i + 1); Some (a, b) }"

definition seam_points :: "int \<Rightarrow> int list" where
  "seam_points divs =
     map (\<lambda>r. ppf divs + d2 divs + int r * dp1 divs) [0..<nat (ntb divs)]
     @ map (\<lambda>r. 3 * ppf divs + d2 divs + int r * dp1 divs) [0..<nat (dp1 divs)]
     @ map (\<lambda>r. 4 * ppf divs + (dp1 divs - ntb divs) * dp1 divs + d2 divs + int r * dp1 divs)
         [0..<nat (ntb divs)]"

text \<open>
  The invariants of the seam repair on one coordinate set \<open>B\<close> that started as \<open>A\<close>,
  for the cells below \<open>F2\<close>, those of the vertices of the faces. A set that
  \<open>copyTCs\<close> works on keeps them. In a set that \<open>setEdgeTCs\<close> works on, the cells in
  \<open>W\<close> hold \<open>EVAL\<close> of what the cell two places before held at the start, and the others
  are kept.
\<close>

definition copy_inv :: "tcset \<Rightarrow> int \<Rightarrow> tcset \<Rightarrow> bool" where
  "copy_inv A F2 B \<longleftrightarrow>
     length B = length A \<and> (\<forall>j. 0 \<le> j \<and> j < F2 \<longrightarrow> B ! nat j = A ! nat j)"

definition edge_inv :: "tcset \<Rightarrow> int \<Rightarrow> int set \<Rightarrow> tcset \<Rightarrow> bool" where
  "edge_inv A F2 W B \<longleftrightarrow>
     length B = length A
     \<and> (\<forall>j. 0 \<le> j \<and> j < F2 \<longrightarrow>
            B ! nat j = (if j \<in> W then map_option EVAL (A ! nat (j - 2)) else A ! nat j))"

definition TC_inv :: "tcsets \<Rightarrow> int \<Rightarrow> int set \<Rightarrow> tcsets \<Rightarrow> bool" where
  "TC_inv st0 F2 W st \<longleftrightarrow>
     copy_inv (set_angls st0) F2 (set_angls st)
     \<and> edge_inv (set_rects st0) F2 W (set_rects st)
     \<and> copy_inv (set_fishs st0) F2 (set_fishs st)
     \<and> edge_inv (set_cylis st0) F2 W (set_cylis st)
     \<and> edge_inv (set_equis st0) F2 W (set_equis st)
     \<and> set_sters st = set_sters st0
     \<and> set_mercs st = set_mercs st0"


subsection \<open>The vertices and the stored pairs in closed form\<close>

text \<open>
  \<open>slerp_pt divs v0 v1 i\<close> is the point that \<open>slerp\<close> stores in its pass \<open>i\<close>, and
  \<open>front_pt divs i j\<close> the vertex in row \<open>i\<close> and column \<open>j\<close> of the front face: the
  end points of the row are the points \<open>i\<close> between the corners on the left and on the
  right. \<open>mesh_vertex divs k\<close> is the vertex with the index \<open>k\<close> in the six faces.
\<close>

definition slerp_pt :: "int \<Rightarrow> vec3 \<Rightarrow> vec3 \<Rightarrow> int \<Rightarrow> vec3" where
  "slerp_pt divs v0 v1 i =
     (let om = dotp v0 v1;
          som = sqrt (1 - om * om);
          om = arcsin som;
          s = 1 / real_of_int divs;
          t = real_of_int i * s;
          a = sin (om * (1 - t)) / som;
          b = sin (om * t) / som
      in case (v0, v1) of ((v00, v01, v02), (v10, v11, v12)) \<Rightarrow>
           (v00 * a + v10 * b, v01 * a + v11 * b, v02 * a + v12 * b))"

definition front_pt :: "int \<Rightarrow> int \<Rightarrow> int \<Rightarrow> vec3" where
  "front_pt divs i j = slerp_pt divs (slerp_pt divs vul vll i) (slerp_pt divs vur vlr i) j"

definition mesh_vertex :: "int \<Rightarrow> int \<Rightarrow> vec3" where
  "mesh_vertex divs k =
     (let c = k mod ppf divs
      in face_image (face_of (k div ppf divs)) (front_pt divs (c div dp1 divs) (c mod dp1 divs)))"

text \<open>
  The pair that the loop over the vertices stores for the vertex \<open>v\<close> in the
  rectilinear, cylindrical and stereographic set. The rectilinear and the stereographic
  section do not read the variable \<open>s\<close>, and the cylindrical section reads the
  equirectangular pair of the same vertex.
\<close>

definition rect_pair :: "real \<Rightarrow> vec3 \<Rightarrow> real \<times> real" where
  "rect_pair fovw v = fst (tc_rect fovw v 0)"

definition cyli_pair :: "real \<Rightarrow> bool \<times> bool \<times> bool \<Rightarrow> vec3 \<Rightarrow> real \<times> real" where
  "cyli_pair fovw ng v = fst (tc_cyli fovw ng v (tc_equi ng v))"

definition ster_pair :: "vec3 \<Rightarrow> real \<times> real" where
  "ster_pair v = fst (tc_ster v 0)"

text \<open>
  The mercator section reads \<open>s\<close>. The equiangular section before it has set \<open>s\<close> to
  \<open>0.5 * za / Pi\<close>, because its test \<open>za > amaxsph\<close> fails for every vertex.
\<close>

definition merc_pair :: "bool \<times> bool \<times> bool \<Rightarrow> vec3 \<Rightarrow> real \<times> real" where
  "merc_pair ng v = fst (tc_merc v (tc_equi ng v) (0.5 * za v / Pi))"

text \<open>
  What a caller reads from the constructed object: \<open>vertex d k\<close> is the entry \<open>k\<close> of
  the vertex array, and \<open>texcoord_of sel fovw d k\<close> the coordinate pair of the vertex
  \<open>k\<close> in the set \<open>sel\<close>, of the object constructed with the argument \<open>d\<close>.
\<close>

definition vertex :: "int \<Rightarrow> int \<Rightarrow> vec3 option" where
  "vertex divs0 k = do { vs \<leftarrow> quadsphere_vertices divs0; rdv vs k }"

definition texcoord_of ::
  "(tcsets \<Rightarrow> tcset) \<Rightarrow> real \<Rightarrow> int \<Rightarrow> int \<Rightarrow> (real option \<times> real option) option" where
  "texcoord_of sel fovw divs0 k = do { st \<leftarrow> quadsphere_TC_sets fovw divs0; coords (sel st) k }"


section \<open>Properties of the sizes\<close>

lemma round_divs_cases:
  "round_divs d = (if d \<le> 0 then 1 else if even d then d else d + 1)"
proof (cases "d \<le> 0")
  case True
  then have "(d + 1) sdiv 2 \<le> 0"
    by (simp add: signed_divide_int_def sgn_if)
  then show ?thesis using True by (simp add: round_divs_def Let_def)
next
  case False
  then have pos: "0 < d + 1" by simp
  then have eq: "(d + 1) sdiv 2 = (d + 1) div 2"
    by (simp add: signed_divide_int_def sgn_if)
  show ?thesis
  proof (cases "even d")
    case True
    then obtain k where "d = 2 * k" by (auto elim: evenE)
    then show ?thesis using False eq by (simp add: round_divs_def Let_def)
  next
    case False
    then obtain k where "d = 2 * k + 1" by (auto elim: oddE)
    then show ?thesis using \<open>\<not> d \<le> 0\<close> False eq by (simp add: round_divs_def Let_def)
  qed
qed

lemma round_divs_ge1: "1 \<le> round_divs d"
  by (simp add: round_divs_cases)

lemma round_divs_shape: "round_divs d = 1 \<or> (even (round_divs d) \<and> 2 \<le> round_divs d)"
  by (auto simp: round_divs_cases elim: evenE)

lemma d2_pos: "0 \<le> n \<Longrightarrow> d2 n = n div 2"
  by (simp add: d2_def signed_divide_int_def sgn_if)

text \<open>
  The \<open>int\<close> values of the constructor are sums and products of nonnegative values,
  and \<open>linewrds = 24 * qpf\<close> is the largest of them: when it fits, so does the vertex
  count. That is the case up to the resolution 9459.
\<close>

lemma int_values_fit:
  assumes "1 \<le> n" and "24 * qpf n < 2 ^ 31"
  shows "6 * ppf n + dups n < 2 ^ 31"
proof (cases "n = 1")
  case True
  then show ?thesis by (simp add: ppf_def dp1_def dups_def ntb_def d2_pos)
next
  case False
  then have n2: "2 \<le> n" using assms(1) by simp
  define nn where "nn = n * n"
  have "2 * n \<le> n * n" using n2 by (intro mult_right_mono) auto
  then have a: "2 * n \<le> nn" by (simp add: nn_def)
  have b: "n div 2 \<le> n" using n2 by simp
  have c: "d2 n = n div 2" using n2 by (simp add: d2_pos)
  have d: "ppf n = nn + 2 * n + 1" by (simp add: ppf_def dp1_def nn_def algebra_simps)
  have e: "24 * nn < 2 ^ 31" using assms(2) by (simp add: qpf_def nn_def)
  show ?thesis
    using a b e n2 unfolding d c dups_def ntb_def dp1_def by simp
qed

lemma int_values_fit_9459: "1 \<le> n \<Longrightarrow> n \<le> 9459 \<Longrightarrow> 24 * qpf n < 2 ^ 31"
proof -
  assume "1 \<le> n" "n \<le> 9459"
  then have "n * n \<le> 9459 * 9459" by (intro mult_mono) auto
  then show ?thesis by (simp add: qpf_def)
qed

lemma block_fits:
  assumes "1 \<le> n" and "n \<le> 1800"
  shows "4 * ((3 + 2 * Nprojections) * (6 * ppf n + dups n) + 24 * qpf n + 24 * qpf n) < 2 ^ 31"
proof -
  have a: "n * n \<le> 1800 * 1800"
    using assms by (intro mult_mono) auto
  have b: "n div 2 \<le> n" using assms by simp
  have c: "d2 n = n div 2" using assms by (simp add: d2_pos)
  have d: "ppf n = n * n + 2 * n + 1" by (simp add: ppf_def dp1_def algebra_simps)
  show ?thesis
    using a b assms unfolding d c dups_def ntb_def dp1_def qpf_def Nprojections_def by simp
qed

lemma fits_resolution:
  assumes "linewrds (quadsphere_sizes d) < 2 ^ 31"
  shows "24 * qpf (round_divs d) < 2 ^ 31" and "round_divs d \<le> 9459" and "d \<le> 9459"
proof -
  let ?n = "round_divs d"
  show q: "24 * qpf ?n < 2 ^ 31" using assms by (simp add: quadsphere_sizes_def Let_def)
  have n: "1 \<le> ?n" by (rule round_divs_ge1)
  show le: "?n \<le> 9459"
  proof (rule ccontr)
    assume "\<not> ?n \<le> 9459"
    then have "9460 \<le> ?n" by simp
    then have "9460 * 9460 \<le> ?n * ?n" by (intro mult_mono) auto
    then show False using q by (simp add: qpf_def)
  qed
  show "d \<le> 9459" using le by (simp add: round_divs_cases split: if_splits)
qed

text \<open>
  C1. Let \<open>d\<close> be an argument of the constructor, an \<open>int\<close>, for which the \<open>int\<close>
  values of the size computation fit (\<open>linewrds < 2 ^ 31\<close>), and \<open>n = round_divs d\<close> the
  resolution after rounding. The vertex count is
  \<open>6 (n + 1)\<^sup>2 + (n + 1) + 2 \<lfloor>n / 2\<rfloor> + 4\<close> and the quad index array holds four indices for
  each of \<open>6 n\<^sup>2\<close> quads; both counts are values of \<open>unsigned int\<close>. At \<open>n = 2\<close> that
  is 63 vertices, 54 of the six faces and 9 duplicates, and 24 quads.
\<close>

theorem vertex_and_quad_count:
  assumes int_d: "- (2 ^ 31) \<le> d" and fits: "linewrds (quadsphere_sizes d) < 2 ^ 31"
  shows "vertpnts (quadsphere_sizes d) =
     6 * (round_divs d + 1)\<^sup>2 + (round_divs d + 1) + 2 * (round_divs d div 2) + 4
   \<and> quadIndexCount (quadsphere_sizes d) = 4 * (6 * (round_divs d)\<^sup>2)
   \<and> 0 \<le> vertpnts (quadsphere_sizes d) \<and> vertpnts (quadsphere_sizes d) < 2 ^ 31
   \<and> 0 \<le> quadIndexCount (quadsphere_sizes d) \<and> quadIndexCount (quadsphere_sizes d) < 2 ^ 31
   \<and> d < 2 ^ 31 - 1
   \<and> round_divs 2 = 2
   \<and> vertpnts (quadsphere_sizes 2) = 63
   \<and> 6 * ppf (round_divs 2) = 54
   \<and> dups (round_divs 2) = 9
   \<and> quadIndexCount (quadsphere_sizes 2) = 4 * 24"
proof -
  have n1: "1 \<le> round_divs d" by (rule round_divs_ge1)
  then have n: "0 \<le> round_divs d" by simp
  have gen: "vertpnts (quadsphere_sizes d) =
      6 * (round_divs d + 1)\<^sup>2 + (round_divs d + 1) + 2 * (round_divs d div 2) + 4"
    by (simp add: quadsphere_sizes_def Let_def ppf_def dp1_def dups_def ntb_def d2_pos [OF n]
        power2_eq_square)
  have quads: "quadIndexCount (quadsphere_sizes d) = 4 * (6 * (round_divs d)\<^sup>2)"
    by (simp add: quadIndexCount_def quadsphere_sizes_def Let_def qpf_def power2_eq_square)
  have q: "24 * qpf (round_divs d) < 2 ^ 31" by (rule fits_resolution(1) [OF fits])
  have vp: "vertpnts (quadsphere_sizes d) = 6 * ppf (round_divs d) + dups (round_divs d)"
    by (simp add: quadsphere_sizes_def Let_def)
  have v1: "vertpnts (quadsphere_sizes d) < 2 ^ 31"
    unfolding vp by (rule int_values_fit [OF n1 q])
  have "0 \<le> round_divs d div 2" using n by simp
  then have v0: "0 \<le> vertpnts (quadsphere_sizes d)" unfolding gen using n by simp
  have q0: "0 \<le> quadIndexCount (quadsphere_sizes d)" unfolding quads by simp
  have q1: "quadIndexCount (quadsphere_sizes d) < 2 ^ 31"
    using fits by (simp add: quadIndexCount_def quadsphere_sizes_def Let_def)
  have dd: "d < 2 ^ 31 - 1" using fits_resolution(3) [OF fits] by simp
  have r2: "round_divs 2 = 2" by (simp add: round_divs_cases)
  have two: "vertpnts (quadsphere_sizes 2) = 63" "6 * ppf (round_divs 2) = 54"
    "dups (round_divs 2) = 9" "quadIndexCount (quadsphere_sizes 2) = 4 * 24"
    by (simp_all add: quadIndexCount_def quadsphere_sizes_def Let_def r2 ppf_def dp1_def
        dups_def ntb_def d2_pos qpf_def)
  show ?thesis using gen quads v0 v1 q0 q1 dd r2 two by simp
qed

theorem vertex_and_quad_count_witness:
  "- (2 ^ 31) \<le> (5::int) \<and> linewrds (quadsphere_sizes 5) < 2 ^ 31
   \<and> round_divs 5 = 6
   \<and> vertpnts (quadsphere_sizes 5) = 311
   \<and> quadIndexCount (quadsphere_sizes 5) = 864"
proof -
  have r: "round_divs 5 = 6" by (simp add: round_divs_cases)
  have a: "- (2 ^ 31) \<le> (5::int)" by simp
  have b: "linewrds (quadsphere_sizes 5) < 2 ^ 31"
    by (simp add: quadsphere_sizes_def Let_def r qpf_def)
  from vertex_and_quad_count [OF a b] have
    "vertpnts (quadsphere_sizes 5) =
       6 * (round_divs 5 + 1)\<^sup>2 + (round_divs 5 + 1) + 2 * (round_divs 5 div 2) + 4"
    "quadIndexCount (quadsphere_sizes 5) = 4 * (6 * (round_divs 5)\<^sup>2)"
    by blast+
  then show ?thesis using a b r by simp
qed

text \<open>
  C2. The byte range that \<open>dataBlockAddr\<close> and \<open>dataBlockSize\<close> describe is meant to
  span the vertex array and all seven texture-coordinate sets. The block of the
  constructor called with 2 has 63 vertices: the last coordinate set ends, and the
  line indices start, 4284 bytes after the start of the vertex array, the seventh
  coordinate set starts at byte 3780, and \<open>dataBlockSize\<close> is 3780. The range stops
  where the seventh set begins.
\<close>

theorem dataBlockSize_misses_last_set:
  "dataBlockSize (quadsphere_sizes 2) = 3780
   \<and> (TCs (quadsphere_sizes 2) + Nprojections * 2 * vertpnts (quadsphere_sizes 2)
        - verts (quadsphere_sizes 2)) * sizeof_float = 4284
   \<and> (3 + 2 * 7) * vertpnts (quadsphere_sizes 2) * sizeof_float = 4284
   \<and> lineIndexOffset (quadsphere_sizes 2) = 4284
   \<and> texCoordOffset (\<lambda>p. 6) (quadsphere_sizes 2) ''any'' = 3780"
proof -
  have r2: "round_divs 2 = 2" by (simp add: round_divs_cases)
  have v: "vertpnts (quadsphere_sizes 2) = 63"
    by (simp add: quadsphere_sizes_def Let_def r2 ppf_def dp1_def dups_def ntb_def d2_pos)
  have t: "TCs (quadsphere_sizes 2) = 189"
    by (simp add: quadsphere_sizes_def Let_def r2 ppf_def dp1_def dups_def ntb_def d2_pos)
  have vs: "verts (quadsphere_sizes 2) = 0"
    by (simp add: quadsphere_sizes_def Let_def)
  have l: "lineidx (quadsphere_sizes 2) = 1071"
    by (simp add: quadsphere_sizes_def Let_def r2 ppf_def dp1_def dups_def ntb_def d2_pos
        Nprojections_def)
  show ?thesis
    by (simp add: dataBlockSize_def lineIndexOffset_def texCoordOffset_def texCoords_def
        Let_def v t vs l u32_def sizeof_float_def Nprojections_def)
qed

text \<open>
  In general \<open>dataBlockSize\<close> is the byte distance from the vertex array to the start of
  the coordinate set with index 6, whatever \<open>Nprojections\<close> is: the 15 of the header is
  \<open>3 + 2 * 6\<close>.
\<close>

lemma dataBlockSize_six_sets:
  "dataBlockSize (quadsphere_sizes d) =
     u32 ((TCs (quadsphere_sizes d) + 6 * 2 * vertpnts (quadsphere_sizes d)
           - verts (quadsphere_sizes d)) * sizeof_float)"
  by (simp add: dataBlockSize_def quadsphere_sizes_def Let_def)

text \<open>
  C9. A lookup of texture coordinates always returns. When the catalog's index of the
  projection is negative or not below \<open>Nprojections\<close>, \<open>texCoords\<close> returns the null
  pointer and \<open>texCoordOffset\<close> returns 0. When the index \<open>i\<close> is in range,
  \<open>texCoords\<close> returns the address \<open>i * 2 * vertpnts\<close> floats after the start \<open>TCs\<close>
  of the coordinate block and \<open>texCoordOffset\<close> that address as a byte offset from the
  vertex array. Both hold for the lookup by name and for the lookup by type code.
\<close>

theorem texCoords_lookup:
  fixes byName :: "string \<Rightarrow> int" and byType :: "int \<Rightarrow> int"
  shows
  "(byName name < 0 \<or> Nprojections \<le> byName name \<longrightarrow>
      texCoords byName q name = None \<and> texCoordOffset byName q name = 0)
   \<and> (0 \<le> byName name \<and> byName name < Nprojections \<longrightarrow>
      texCoords byName q name = Some (TCs q + byName name * 2 * vertpnts q)
      \<and> texCoordOffset byName q name =
          u32 ((TCs q + byName name * 2 * vertpnts q - verts q) * sizeof_float))
   \<and> (byType code < 0 \<or> Nprojections \<le> byType code \<longrightarrow>
      texCoords_PicType byType q code = None \<and> texCoordOffset_PicType byType q code = 0)
   \<and> (0 \<le> byType code \<and> byType code < Nprojections \<longrightarrow>
      texCoords_PicType byType q code = Some (TCs q + byType code * 2 * vertpnts q)
      \<and> texCoordOffset_PicType byType q code =
          u32 ((TCs q + byType code * 2 * vertpnts q - verts q) * sizeof_float))"
  by (auto simp: texCoords_def texCoordOffset_def texCoords_PicType_def
      texCoordOffset_PicType_def Let_def)

theorem texCoords_lookup_witness:
  "texCoords (\<lambda>s. if s = ''fish'' then 1 else - 1) (quadsphere_sizes 2) ''fish'' = Some 315
   \<and> texCoordOffset (\<lambda>s. if s = ''fish'' then 1 else - 1) (quadsphere_sizes 2) ''fish'' = 1260
   \<and> texCoords (\<lambda>s. if s = ''fish'' then 1 else - 1) (quadsphere_sizes 2) ''cube'' = None
   \<and> texCoordOffset (\<lambda>s. if s = ''fish'' then 1 else - 1) (quadsphere_sizes 2) ''cube'' = 0
   \<and> texCoords_PicType (\<lambda>c. c - 1) (quadsphere_sizes 2) 7 = Some 945
   \<and> texCoordOffset_PicType (\<lambda>c. c - 1) (quadsphere_sizes 2) 7 = 3780
   \<and> texCoords_PicType (\<lambda>c. c - 1) (quadsphere_sizes 2) 8 = None
   \<and> texCoordOffset_PicType (\<lambda>c. c - 1) (quadsphere_sizes 2) 8 = 0"
proof -
  let ?cat = "\<lambda>s. if s = ''fish'' then 1 else (- 1::int)"
  let ?byt = "\<lambda>c::int. c - 1"
  let ?q = "quadsphere_sizes 2"
  have r2: "round_divs 2 = 2" by (simp add: round_divs_cases)
  have v: "vertpnts ?q = 63"
    by (simp add: quadsphere_sizes_def Let_def r2 ppf_def dp1_def dups_def ntb_def d2_pos)
  have t: "TCs ?q = 189"
    by (simp add: quadsphere_sizes_def Let_def r2 ppf_def dp1_def dups_def ntb_def d2_pos)
  have vs: "verts ?q = 0"
    by (simp add: quadsphere_sizes_def Let_def)
  have found: "0 \<le> ?cat ''fish'' \<and> ?cat ''fish'' < Nprojections"
    by (simp add: Nprojections_def)
  have unknown: "?cat ''cube'' < 0 \<or> Nprojections \<le> ?cat ''cube''"
    by simp
  have found_t: "0 \<le> ?byt 7 \<and> ?byt 7 < Nprojections"
    by (simp add: Nprojections_def)
  have unknown_t: "?byt 8 < 0 \<or> Nprojections \<le> ?byt 8"
    by (simp add: Nprojections_def)
  from texCoords_lookup [of ?cat "''fish''" ?q ?byt 7] found found_t
  have a: "texCoords ?cat ?q ''fish'' = Some (TCs ?q + ?cat ''fish'' * 2 * vertpnts ?q)"
    "texCoordOffset ?cat ?q ''fish'' =
       u32 ((TCs ?q + ?cat ''fish'' * 2 * vertpnts ?q - verts ?q) * sizeof_float)"
    "texCoords_PicType ?byt ?q 7 = Some (TCs ?q + ?byt 7 * 2 * vertpnts ?q)"
    "texCoordOffset_PicType ?byt ?q 7 =
       u32 ((TCs ?q + ?byt 7 * 2 * vertpnts ?q - verts ?q) * sizeof_float)"
    by blast+
  from texCoords_lookup [of ?cat "''cube''" ?q ?byt 8] unknown unknown_t
  have b: "texCoords ?cat ?q ''cube'' = None" "texCoordOffset ?cat ?q ''cube'' = 0"
    "texCoords_PicType ?byt ?q 8 = None" "texCoordOffset_PicType ?byt ?q 8 = 0"
    by blast+
  show ?thesis
    using a b by (simp add: v t vs u32_def sizeof_float_def)
qed

text \<open>
  On a constructed object whose block fits, the offset of a coordinate set that was
  found is never 0, so the 0 of \<open>texCoordOffset\<close> is read as not found without doubt.
\<close>

lemma texCoordOffset_found_nonzero:
  assumes "1 \<le> d" and "d \<le> 1800"
    and "0 \<le> byName name" and "byName name < Nprojections"
  shows "texCoordOffset byName (quadsphere_sizes d) name \<noteq> 0"
proof -
  let ?n = "round_divs d"
  let ?V = "6 * ppf ?n + dups ?n"
  have n: "1 \<le> ?n" "?n \<le> 1801 " using assms by (simp_all add: round_divs_cases)
  have n0: "0 \<le> ?n" using n by simp
  have sq: "0 \<le> (?n + 1) * (?n + 1)" by simp
  have hf: "0 \<le> ?n div 2" using n by simp
  have vpos: "0 < ?V"
    unfolding ppf_def dp1_def dups_def ntb_def d2_pos [OF n0] using n sq hf by linarith
  have a: "?n * ?n \<le> 1801 * 1801"
    using n by (intro mult_mono) auto
  have b: "?n div 2 \<le> ?n" using n by simp
  have vle: "?V \<le> 6 * (1801 * 1801 + 2 * 1801 + 1) + 1802 + 2 * 1801 + 4"
    using a b n by (simp add: ppf_def dp1_def dups_def ntb_def d2_pos [OF n0] algebra_simps)
  define i where "i = byName name"
  have i: "0 \<le> i" "i \<le> 6" using assms by (simp_all add: i_def Nprojections_def)
  have "i * ?V \<le> 6 * ?V" using i vpos by (intro mult_right_mono) auto
  then have up: "(3 * ?V + i * 2 * ?V) * 4 < 2 ^ 32" using vle by simp
  have "0 \<le> i * ?V" using i vpos by simp
  then have lo: "0 < (3 * ?V + i * 2 * ?V) * 4" using vpos by simp
  have "texCoordOffset byName (quadsphere_sizes d) name = u32 ((3 * ?V + i * 2 * ?V) * 4)"
    using assms(3,4)
    by (simp add: texCoordOffset_def texCoords_def Let_def quadsphere_sizes_def
        sizeof_float_def i_def)
  also have "\<dots> = (3 * ?V + i * 2 * ?V) * 4"
    unfolding u32_def using lo up by (intro mod_pos_pos_trivial) auto
  finally show ?thesis using lo by simp
qed

section \<open>Properties of the index builder and of the seam repair\<close>

subsection \<open>Rules for the loops\<close>

lemma for_up_rule:
  assumes "I i s" and "i \<le> n"
    and step: "\<And>j t. i \<le> j \<Longrightarrow> j < n \<Longrightarrow> I j t \<Longrightarrow> \<exists>t'. body j t = Some t' \<and> I (j + 1) t'"
  shows "\<exists>t. for_up i n body s = Some t \<and> I n t"
  using assms
proof (induction "nat (n - i)" arbitrary: i s)
  case 0
  then have "i = n" by simp
  with 0 show ?case by (simp add: for_up.simps)
next
  case (Suc k)
  then have lt: "i < n" by simp
  from Suc.prems(3) [of i s] lt Suc.prems(1) obtain t' where
    t': "body i s = Some t'" "I (i + 1) t'" by auto
  have "\<exists>t. for_up (i + 1) n body t' = Some t \<and> I n t"
  proof (rule Suc.hyps(1))
    show "k = nat (n - (i + 1))" using Suc.hyps(2) by simp
    show "I (i + 1) t'" by (rule t')
    show "i + 1 \<le> n" using lt by simp
    show "\<And>j t. i + 1 \<le> j \<Longrightarrow> j < n \<Longrightarrow> I j t \<Longrightarrow> \<exists>t'. body j t = Some t' \<and> I (j + 1) t'"
      using Suc.prems(3) by simp
  qed
  then show ?case using lt t' by (subst for_up.simps) simp
qed

lemma for_up_none: "n \<le> i \<Longrightarrow> for_up i n body s = Some s"
  by (simp add: for_up.simps)

lemma repeat_rule_gen:
  assumes "I k s" and "0 \<le> k" and "k \<le> N"
    and step: "\<And>j t. k \<le> j \<Longrightarrow> j < N \<Longrightarrow> I j t \<Longrightarrow> \<exists>t'. body t = Some t' \<and> I (j + 1) t'"
  shows "\<exists>t. repeat (N - k) body s = Some t \<and> I N t"
  using assms
proof (induction "nat (N - k)" arbitrary: k s)
  case 0
  then have "k = N" by simp
  with 0 show ?case by (simp add: repeat.simps)
next
  case (Suc m)
  then have lt: "k < N" by simp
  from Suc.prems(4) [of k s] lt Suc.prems(1) obtain t' where
    t': "body s = Some t'" "I (k + 1) t'" by auto
  have "\<exists>t. repeat (N - (k + 1)) body t' = Some t \<and> I N t"
  proof (rule Suc.hyps(1))
    show "m = nat (N - (k + 1))" using Suc.hyps(2) by simp
    show "I (k + 1) t'" by (rule t')
    show "0 \<le> k + 1" using Suc.prems(2) by simp
    show "k + 1 \<le> N" using lt by simp
    show "\<And>j t. k + 1 \<le> j \<Longrightarrow> j < N \<Longrightarrow> I j t \<Longrightarrow> \<exists>t'. body t = Some t' \<and> I (j + 1) t'"
      using Suc.prems(4) by simp
  qed
  moreover have "N - (k + 1) = N - k - 1" by simp
  ultimately have "\<exists>t. repeat (N - k - 1) body t' = Some t \<and> I N t" by simp
  then show ?case using lt t' by (subst repeat.simps) simp
qed

lemma repeat_rule:
  assumes "I 0 s" and "0 \<le> N"
    and step: "\<And>j t. 0 \<le> j \<Longrightarrow> j < N \<Longrightarrow> I j t \<Longrightarrow> \<exists>t'. body t = Some t' \<and> I (j + 1) t'"
  shows "\<exists>t. repeat N body s = Some t \<and> I N t"
  using repeat_rule_gen [of I 0 s N body] assms by simp

subsection \<open>Tables\<close>

lemma length_tab: "length (tab E k) = nat k"
  by (simp add: tab_def)

lemma tab_nth: "0 \<le> i \<Longrightarrow> i < k \<Longrightarrow> tab E k ! nat i = E i"
  by (simp add: tab_def)

lemma tab_snoc: "0 \<le> k \<Longrightarrow> tab E k @ [E k] = tab E (k + 1)"
  by (simp add: tab_def nat_add_distrib)

lemma tab_snoc4:
  assumes "0 \<le> k"
  shows "tab E k @ [E k, E (k + 1), E (k + 2), E (k + 3)] = tab E (k + 4)"
proof -
  have "tab E (k + 4) = tab E (k + 3) @ [E (k + 3)]"
    using tab_snoc [of "k + 3" E] assms by (simp add: algebra_simps)
  also have "tab E (k + 3) = tab E (k + 2) @ [E (k + 2)]"
    using tab_snoc [of "k + 2" E] assms by (simp add: algebra_simps)
  also have "tab E (k + 2) = tab E (k + 1) @ [E (k + 1)]"
    using tab_snoc [of "k + 1" E] assms by (simp add: algebra_simps)
  also have "tab E (k + 1) = tab E k @ [E k]"
    using tab_snoc [of k E] assms by simp
  finally show ?thesis by simp
qed

lemma rd_tab: "0 \<le> i \<Longrightarrow> i < k \<Longrightarrow> rd (tab E k) i = Some (E i)"
  by (simp add: rd_def length_tab tab_nth)

subsection \<open>The index builder in closed form\<close>

lemma face_of_no: "face_of (face_no f) = f"
  by (cases f) (simp_all add: face_of_def)

lemma face_no_range: "0 \<le> face_no f \<and> face_no f \<le> 5"
  by (cases f) simp_all

lemma cell_lt:
  assumes "0 \<le> r" "r < n" "0 \<le> c" "c < (n::int)"
  shows "0 \<le> r * n + c" and "r * n + c < n * n"
proof -
  have "0 \<le> r * n" using assms by simp
  then show "0 \<le> r * n + c" using assms by simp
  have "r * n \<le> (n - 1) * n" using assms by (intro mult_right_mono) auto
  then show "r * n + c < n * n" using assms by (simp add: algebra_simps)
qed

lemma div_lt_int:
  assumes "0 < (q::int)" and "j < k * q"
  shows "j div q < k"
proof -
  have "j div q * q + j mod q = j" by simp
  moreover have "0 \<le> j mod q" using assms by simp
  ultimately have "j div q * q < k * q" using assms by linarith
  then show ?thesis using assms(1) by (simp add: mult_less_cancel_right)
qed

lemma divmod4:
  assumes "0 \<le> p" and "p < 4"
  shows "(4 * (j::int) + p) div 4 = j" and "(4 * j + p) mod 4 = p"
  using assms by auto

lemma quad_elem_cell:
  assumes n: "1 \<le> n" and r: "0 \<le> r" "r < n" and c: "0 \<le> c" "c < n" and p: "0 \<le> p" "p < 4"
  shows "quad_elem n (4 * (face_no f * qpf n + r * n + c) + p) = quad_cell n f r c ! nat p"
proof -
  let ?j = "face_no f * qpf n + r * n + c"
  have cl: "0 \<le> r * n + c" "r * n + c < n * n" using cell_lt [OF r c] by auto
  have i4: "(4 * ?j + p) div 4 = ?j" "(4 * ?j + p) mod 4 = p"
    using divmod4 [OF p, of ?j] by blast+
  have nn: "n * n \<noteq> 0" using n by simp
  have jd: "?j div qpf n = face_no f"
    unfolding qpf_def add.assoc div_mult_self3 [OF nn] using cl
    by simp
  have jm: "?j mod qpf n = r * n + c"
    unfolding qpf_def add.assoc mod_mult_self3 using cl
    by simp
  have rd: "(r * n + c) div n = r" using c n by simp
  have rm: "(r * n + c) mod n = c" using c n by simp
  show ?thesis
    unfolding quad_elem_def Let_def i4 jd jm rd rm face_of_no ..
qed

lemma quad_elem_front:
  assumes n: "1 \<le> n" and r: "0 \<le> r" "r < n" and c: "0 \<le> c" "c < n" and p: "0 \<le> p" "p < 4"
  shows "quad_elem n (4 * (r * n + c) + p) = quad_cell n Front r c ! nat p"
  using quad_elem_cell [OF assms, of Front] by simp

lemma quad_elem_shift:
  assumes "1 \<le> n" and "0 \<le> i" and "i < 20 * qpf n"
  shows "quad_elem n (4 * qpf n + i) = quad_elem n i + ppf n"
proof -
  let ?q = "qpf n"
  have q: "0 < ?q" using assms(1) by (simp add: qpf_def)
  have d4: "(4 * ?q + i) div 4 = ?q + i div 4" by simp
  have m4: "(4 * ?q + i) mod 4 = i mod 4" by simp
  let ?j = "i div 4"
  have j: "0 \<le> ?j" "?j < 5 * ?q" using assms by auto
  have jd: "(?q + ?j) div ?q = 1 + ?j div ?q" using q by simp
  have jm: "(?q + ?j) mod ?q = ?j mod ?q" by simp
  have f: "0 \<le> ?j div ?q" "?j div ?q < 5"
    using j q div_lt_int [of ?q ?j 5] by (simp_all add: pos_imp_zdiv_nonneg_iff)
  have fo: "face_no (face_of (1 + ?j div ?q)) = face_no (face_of (?j div ?q)) + 1"
    using f by (auto simp: face_of_def)
  have pm: "0 \<le> i mod 4" "i mod 4 < 4" by auto
  then have "nat (i mod 4) < 4" by simp
  then have pc: "nat (i mod 4) = 0 \<or> nat (i mod 4) = 1 \<or> nat (i mod 4) = 2 \<or> nat (i mod 4) = 3"
    by arith
  show ?thesis
    unfolding quad_elem_def Let_def d4 m4 jd jm quad_cell_def fo
    using pc by (auto simp: algebra_simps)
qed

lemma quad_face0_tab:
  assumes n: "1 \<le> n"
  shows "quad_face0 n [] = Some (tab (quad_elem n) (4 * qpf n))"
proof -
  let ?E = "quad_elem n"
  let ?inner = "\<lambda>r. (\<lambda>c quad.
     Some (quad @ [r * dp1 n + c, dp1 n + r * dp1 n + c, dp1 n + r * dp1 n + c + 1, r * dp1 n + c + 1]))"
  have inner: "for_up 0 n (?inner r) (tab ?E (4 * (r * n))) = Some (tab ?E (4 * ((r + 1) * n)))"
    if r: "0 \<le> r" "r < n" for r
  proof -
    have "\<exists>t. for_up 0 n (?inner r) (tab ?E (4 * (r * n))) = Some t \<and> t = tab ?E (4 * (r * n + n))"
    proof (rule for_up_rule [where I = "\<lambda>c quad. quad = tab ?E (4 * (r * n + c))"])
      show "tab ?E (4 * (r * n)) = tab ?E (4 * (r * n + 0))" by simp
      show "0 \<le> n" using n by simp
    next
      fix c t
      assume c: "0 \<le> c" "c < n" and t: "t = tab ?E (4 * (r * n + c))"
      have k: "0 \<le> 4 * (r * n + c)" using cell_lt [OF r c] by simp
      have e: "?E (4 * (r * n + c) + p) = quad_cell n Front r c ! nat p" if "0 \<le> p" "p < 4" for p
        using quad_elem_front [OF n r c that] .
      have e0: "?E (4 * (r * n + c)) = r * dp1 n + c" using e [of 0] by (simp add: quad_cell_def Let_def)
      have e1: "?E (4 * (r * n + c) + 1) = dp1 n + r * dp1 n + c"
        using e [of 1] by (simp add: quad_cell_def Let_def)
      have e2: "?E (4 * (r * n + c) + 2) = dp1 n + r * dp1 n + c + 1"
        using e [of 2] by (simp add: quad_cell_def Let_def)
      have e3: "?E (4 * (r * n + c) + 3) = r * dp1 n + c + 1"
        using e [of 3] by (simp add: quad_cell_def Let_def)
      have "t @ [r * dp1 n + c, dp1 n + r * dp1 n + c, dp1 n + r * dp1 n + c + 1, r * dp1 n + c + 1]
            = tab ?E (4 * (r * n + c) + 4)"
        unfolding t using tab_snoc4 [OF k, of ?E] by (simp only: e0 e1 e2 e3)
      also have "4 * (r * n + c) + 4 = 4 * (r * n + (c + 1))" by simp
      finally show "\<exists>t'. ?inner r c t = Some t' \<and> t' = tab ?E (4 * (r * n + (c + 1)))"
        by simp
    qed
    then show ?thesis by (simp add: algebra_simps)
  qed
  have "\<exists>t. for_up 0 n (\<lambda>r quad. for_up 0 n (?inner r) quad) [] = Some t \<and> t = tab ?E (4 * (n * n))"
  proof (rule for_up_rule [where I = "\<lambda>r quad. quad = tab ?E (4 * (r * n))"])
    show "[] = tab ?E (4 * (0 * n))" by (simp add: tab_def)
    show "0 \<le> n" using n by simp
  next
    fix r t
    assume "0 \<le> r" "r < n" "t = tab ?E (4 * (r * n))"
    then show "\<exists>t'. for_up 0 n (?inner r) t = Some t' \<and> t' = tab ?E (4 * ((r + 1) * n))"
      using inner [of r] by simp
  qed
  then show ?thesis by (simp add: quad_face0_def Let_def qpf_def)
qed

lemma quad_copy_tab:
  assumes n: "1 \<le> n"
  shows "quad_copy n (tab (quad_elem n) (4 * qpf n)) = Some (tab (quad_elem n) (24 * qpf n))"
proof -
  let ?E = "quad_elem n"
  let ?q = "qpf n"
  let ?body = "\<lambda>(qq, quad). do { v \<leftarrow> rd quad qq; Some (qq + 1, quad @ [v + ppf n]) }"
  have q: "0 < ?q" using n by (simp add: qpf_def)
  have "\<exists>t. repeat (20 * ?q) ?body (0, tab ?E (4 * ?q)) = Some t \<and> t = (20 * ?q, tab ?E (4 * ?q + 20 * ?q))"
  proof (rule repeat_rule [where I = "\<lambda>k s. s = (k, tab ?E (4 * ?q + k))"])
    show "(0, tab ?E (4 * ?q)) = (0, tab ?E (4 * ?q + 0))" by simp
    show "0 \<le> 20 * ?q" using q by simp
  next
    fix k t
    assume k: "0 \<le> k" "k < 20 * ?q" and t: "t = (k, tab ?E (4 * ?q + k))"
    have r: "rd (tab ?E (4 * ?q + k)) k = Some (?E k)"
      using k q by (intro rd_tab) auto
    have "tab ?E (4 * ?q + k) @ [?E k + ppf n] = tab ?E (4 * ?q + k + 1)"
      using tab_snoc [of "4 * ?q + k" ?E] quad_elem_shift [OF n k] k q by simp
    also have "4 * ?q + k + 1 = 4 * ?q + (k + 1)" by simp
    finally have app: "tab ?E (4 * ?q + k) @ [?E k + ppf n] = tab ?E (4 * ?q + (k + 1))" .
    show "\<exists>t'. ?body t = Some t' \<and> t' = (k + 1, tab ?E (4 * ?q + (k + 1)))"
      unfolding t by (simp only: split_conv r bind.bind_lunit app) simp
  qed
  then show ?thesis by (auto simp: quad_copy_def)
qed

lemma quad_indices_tab: "1 \<le> n \<Longrightarrow> quad_indices n = Some (quad_table n)"
  by (simp add: quad_indices_def quad_face0_tab quad_copy_tab quad_table_def)

lemma line_quad_nths:
  "line_quad f a b c d =
     [line_quad f a b c d ! 0, line_quad f a b c d ! 1, line_quad f a b c d ! 2,
      line_quad f a b c d ! 3]"
  by (cases f) simp_all

lemma line_elem_chunk:
  assumes n: "1 \<le> n" and k: "0 \<le> k" "k < qpf n" and p: "0 \<le> p" "p < 4"
  shows "line_elem n (4 * (face_no f * qpf n + k) + p) =
         line_quad f (quad_elem n (4 * (face_no f * qpf n + k)))
           (quad_elem n (4 * (face_no f * qpf n + k) + 1))
           (quad_elem n (4 * (face_no f * qpf n + k) + 2))
           (quad_elem n (4 * (face_no f * qpf n + k) + 3)) ! nat p"
proof -
  let ?j = "face_no f * qpf n + k"
  have i4: "(4 * ?j + p) div 4 = ?j" "(4 * ?j + p) mod 4 = p"
    using divmod4 [OF p, of ?j] by blast+
  have q0: "qpf n \<noteq> 0" using k by auto
  have jd: "?j div qpf n = face_no f"
    unfolding div_mult_self3 [OF q0] using k by simp
  show ?thesis
    unfolding line_elem_def Let_def i4 jd face_of_no ..
qed

lemma chunk_bounds:
  "0 \<le> (x::int) \<Longrightarrow> x \<le> 5 * q \<Longrightarrow> 0 \<le> k \<Longrightarrow> k < q
   \<Longrightarrow> 0 \<le> 4 * (x + k) \<and> 4 * (x + k) + 3 < 24 * q"
  by simp

lemma line_face_tab:
  assumes n: "1 \<le> n"
  shows "line_face n (quad_table n) f
           (4 * (face_no f * qpf n), tab (line_elem n) (4 * (face_no f * qpf n)))
         = Some (4 * ((face_no f + 1) * qpf n), tab (line_elem n) (4 * ((face_no f + 1) * qpf n)))"
proof -
  let ?E = "quad_elem n" and ?L = "line_elem n"
  let ?q = "qpf n" and ?fn = "face_no f"
  let ?quad = "quad_table n"
  let ?body = "\<lambda>(qq, line). do {
          q0 \<leftarrow> rd ?quad qq;
          q1 \<leftarrow> rd ?quad (qq + 1);
          q2 \<leftarrow> rd ?quad (qq + 2);
          q3 \<leftarrow> rd ?quad (qq + 3);
          Some (qq + 4, line @ line_quad f q0 q1 q2 q3) }"
  have q: "0 < ?q" using n by (simp add: qpf_def)
  have fr: "0 \<le> ?fn" "?fn \<le> 5" using face_no_range [of f] by auto
  have fq: "0 \<le> ?fn * ?q" using fr q by simp
  have fq5: "?fn * ?q \<le> 5 * ?q" using fr q by (intro mult_right_mono) auto
  have "\<exists>t. repeat ?q ?body (4 * (?fn * ?q), tab ?L (4 * (?fn * ?q))) = Some t
        \<and> t = (4 * (?fn * ?q + ?q), tab ?L (4 * (?fn * ?q + ?q)))"
  proof (rule repeat_rule [where I = "\<lambda>k s. s = (4 * (?fn * ?q + k), tab ?L (4 * (?fn * ?q + k)))"])
    show "(4 * (?fn * ?q), tab ?L (4 * (?fn * ?q)))
          = (4 * (?fn * ?q + 0), tab ?L (4 * (?fn * ?q + 0)))" by simp
    show "0 \<le> ?q" using q by simp
  next
    fix k t
    assume k: "0 \<le> k" "k < ?q"
      and t: "t = (4 * (?fn * ?q + k), tab ?L (4 * (?fn * ?q + k)))"
    let ?b = "4 * (?fn * ?q + k)"
    have b0: "0 \<le> ?b" and b3: "?b + 3 < 24 * ?q"
      using chunk_bounds [OF fq fq5 k] by blast+
    have r0: "rd ?quad ?b = Some (?E ?b)"
      unfolding quad_table_def using b0 b3 by (intro rd_tab) auto
    have r1: "rd ?quad (?b + 1) = Some (?E (?b + 1))"
      unfolding quad_table_def using b0 b3 by (intro rd_tab) auto
    have r2: "rd ?quad (?b + 2) = Some (?E (?b + 2))"
      unfolding quad_table_def using b0 b3 by (intro rd_tab) auto
    have r3: "rd ?quad (?b + 3) = Some (?E (?b + 3))"
      unfolding quad_table_def using b0 b3 by (intro rd_tab) auto
    let ?lq = "line_quad f (?E ?b) (?E (?b + 1)) (?E (?b + 2)) (?E (?b + 3))"
    have l: "?L (?b + p) = ?lq ! nat p" if "0 \<le> p" "p < 4" for p
      using line_elem_chunk [OF n k that, of f] .
    have "?lq = [?L ?b, ?L (?b + 1), ?L (?b + 2), ?L (?b + 3)]"
      using l [of 0] l [of 1] l [of 2] l [of 3] line_quad_nths [of f "?E ?b" "?E (?b + 1)" "?E (?b + 2)" "?E (?b + 3)"]
      by simp
    then have "tab ?L ?b @ ?lq = tab ?L (?b + 4)"
      using tab_snoc4 [OF b0, of ?L] by simp
    also have "?b + 4 = 4 * (?fn * ?q + (k + 1))" by simp
    finally have app: "tab ?L ?b @ ?lq = tab ?L (4 * (?fn * ?q + (k + 1)))" .
    have nx: "?b + 4 = 4 * (?fn * ?q + (k + 1))" by simp
    show "\<exists>t'. ?body t = Some t'
          \<and> t' = (4 * (?fn * ?q + (k + 1)), tab ?L (4 * (?fn * ?q + (k + 1))))"
      unfolding t by (simp only: split_conv r0 r1 r2 r3 bind.bind_lunit app nx) simp
  qed
  moreover have "?fn * ?q + ?q = (?fn + 1) * ?q" by (simp add: algebra_simps)
  ultimately show ?thesis by (simp add: line_face_def)
qed

lemma line_indices_tab:
  assumes n: "1 \<le> n"
  shows "line_indices n (quad_table n) = Some (line_table n)"
proof -
  have e: "(0, []) = (4 * (face_no Front * qpf n), tab (line_elem n) (4 * (face_no Front * qpf n)))"
    by (simp add: tab_def)
  show ?thesis
    unfolding line_indices_def e
    using line_face_tab [OF n, of Front] line_face_tab [OF n, of Top]
      line_face_tab [OF n, of Left] line_face_tab [OF n, of Back]
      line_face_tab [OF n, of Bottom] line_face_tab [OF n, of Right]
    by (simp add: line_table_def)
qed

lemma index_builder_tab:
  "1 \<le> n \<Longrightarrow> index_builder n = Some (line_table n @ quad_table n)"
  by (simp add: index_builder_def quad_indices_tab line_indices_tab)

subsection \<open>The seam repair keeps the indices in range\<close>

lemma u32_id: "0 \<le> x \<Longrightarrow> x < 2 ^ 32 \<Longrightarrow> u32 x = x"
  by (simp add: u32_def)

lemma wr_inv:
  assumes "seam_inv L V li m" and "L \<le> a" and "a < 2 * L" and "0 \<le> v" and "v < V" and "0 \<le> L"
  shows "\<exists>m'. wr m a v = Some m' \<and> seam_inv L V li m'"
proof -
  have len: "int (length m) = 2 * L" and all: "list_all (\<lambda>x. 0 \<le> x \<and> x < V) m"
    and tk: "take (nat L) m = li"
    using assms(1) by (simp_all add: seam_inv_def)
  have a: "0 \<le> a" "a < int (length m)" using assms len by auto
  have "set (m[nat a := v]) \<subseteq> insert v (set m)" by (rule set_update_subset_insert)
  then have "list_all (\<lambda>x. 0 \<le> x \<and> x < V) (m[nat a := v])"
    using all assms(4,5) by (auto simp: list_all_iff)
  moreover have "take (nat L) (m[nat a := v]) = li"
    using tk assms(2,6) by simp
  ultimately show ?thesis using a len by (simp add: wr_def seam_inv_def)
qed

text \<open>Facts on an even resolution \<open>n = 2 * m\<close>.\<close>

lemma even_facts:
  assumes "n = 2 * m" and "1 \<le> m"
  shows "d2 n = m" and "ntb n = m" and "dp1 n = 2 * m + 1" and "m < qpf n" and "n \<le> qpf n"
    and "n * m \<le> qpf n" and "0 \<le> ppf n" and "0 < qpf n"
proof -
  show "d2 n = m" using assms by (simp add: d2_pos)
  then show "ntb n = m" by (simp add: ntb_def)
  show "dp1 n = 2 * m + 1" using assms by (simp add: dp1_def)
  have mm: "m \<le> m * m" using assms(2) by (simp add: mult_le_cancel_left1)
  have q: "qpf n = 4 * (m * m)" using assms by (simp add: qpf_def)
  show "m < qpf n" using mm assms(2) unfolding q by linarith
  show "n \<le> qpf n" using mm assms unfolding q by linarith
  show "n * m \<le> qpf n" using mm assms unfolding q by (simp add: algebra_simps)
  show "0 \<le> ppf n" by (simp add: ppf_def)
  show "0 < qpf n" using mm assms unfolding q by linarith
qed

lemma nr_le:
  assumes "n = 2 * m" and "1 \<le> m" and "0 \<le> r" and "r \<le> n"
  shows "0 \<le> n * r" and "n * r \<le> qpf n"
proof -
  have n: "0 \<le> n" using assms by simp
  show "0 \<le> n * r" using n assms(3) by simp
  show "n * r \<le> qpf n" unfolding qpf_def using n assms(4) by (intro mult_left_mono) auto
qed

lemma seam_top_ok:
  assumes e: "n = 2 * m" "1 \<le> m"
    and inv: "seam_inv (24 * qpf n) (6 * ppf n + dups n) li m0"
  shows "\<exists>m'. seam_top n m0 = Some m' \<and> seam_inv (24 * qpf n) (6 * ppf n + dups n) li m'"
proof -
  let ?q = "qpf n" and ?P = "ppf n" and ?L = "24 * qpf n" and ?V = "6 * ppf n + dups n"
  note f = even_facts [OF e]
  have V: "?V = 6 * ?P + 4 * m + 5" by (simp add: dups_def f)
  have L0: "0 \<le> ?L" using f by simp
  let ?body = "\<lambda>(r::int) (pq, idt, m). do {
               m \<leftarrow> wr m pq idt;
               m \<leftarrow> wr m (pq + 1) (idt + 1);
               Some (pq + 4 * n, idt + 1, m) }"
  let ?I = "\<lambda>r (pq, idt, mm). pq = ?L + 4 * (?q + m) + 4 * (n * r) \<and> idt = 6 * ?P + r
              \<and> seam_inv ?L ?V li mm"
  have "\<exists>t. for_up 0 (m - 1) ?body (?L + 4 * (?q + m), 6 * ?P, m0) = Some t \<and> ?I (m - 1) t"
  proof (rule for_up_rule [where I = ?I])
    show "?I 0 (?L + 4 * (?q + m), 6 * ?P, m0)" using inv by simp
    show "0 \<le> m - 1" using e by simp
  next
    fix j t
    assume j: "0 \<le> j" "j < m - 1" and I: "?I j t"
    obtain pq idt mm where t: "t = (pq, idt, mm)" by (cases t) auto
    define nr where "nr = n * j"
    have nr: "0 \<le> nr" "nr \<le> ?q" using nr_le [OF e, of j] j e by (auto simp: nr_def)
    from I have pq: "pq = ?L + 4 * (?q + m) + 4 * nr" and idt: "idt = 6 * ?P + j"
      and inv': "seam_inv ?L ?V li mm" by (auto simp: t nr_def)
    have a1: "?L \<le> pq" "pq < 2 * ?L" "?L \<le> pq + 1" "pq + 1 < 2 * ?L"
      using nr f e unfolding pq by auto
    have v1: "0 \<le> idt" "idt < ?V" "0 \<le> idt + 1" "idt + 1 < ?V"
      using j f unfolding idt V by auto
    obtain m1 where m1: "wr mm pq idt = Some m1" "seam_inv ?L ?V li m1"
      using wr_inv [OF inv' a1(1,2) v1(1,2) L0] by blast
    obtain m2 where m2: "wr m1 (pq + 1) (idt + 1) = Some m2" "seam_inv ?L ?V li m2"
      using wr_inv [OF m1(2) a1(3,4) v1(3,4) L0] by blast
    have "pq + 4 * n = ?L + 4 * (?q + m) + 4 * (n * (j + 1))"
      unfolding pq nr_def by (simp add: algebra_simps)
    then show "\<exists>t'. ?body j t = Some t' \<and> ?I (j + 1) t'"
      unfolding t using m1 m2 idt by simp
  qed
  then obtain pq idt mm where loop:
    "for_up 0 (m - 1) ?body (?L + 4 * (?q + m), 6 * ?P, m0) = Some (pq, idt, mm)"
    and pq: "pq = ?L + 4 * (?q + m) + 4 * (n * (m - 1))" and idt: "idt = 6 * ?P + (m - 1)"
    and inv': "seam_inv ?L ?V li mm"
    by auto
  define nr where "nr = n * (m - 1)"
  have nr: "0 \<le> nr" "nr \<le> ?q" using nr_le [OF e, of "m - 1"] e by (auto simp: nr_def)
  have a1: "?L \<le> pq" "pq < 2 * ?L" using nr f e unfolding pq nr_def [symmetric] by auto
  have v1: "0 \<le> idt" "idt < ?V" using e f unfolding idt V by auto
  obtain m1 where m1: "wr mm pq idt = Some m1" "seam_inv ?L ?V li m1"
    using wr_inv [OF inv' a1 v1 L0] by blast
  show ?thesis
    unfolding seam_top_def Let_def f(1,2) using loop m1 by simp
qed

lemma seam_back_ok:
  assumes e: "n = 2 * m" "1 \<le> m"
    and inv: "seam_inv (24 * qpf n) (6 * ppf n + dups n) li m0"
  shows "\<exists>m'. seam_back n m0 = Some m' \<and> seam_inv (24 * qpf n) (6 * ppf n + dups n) li m'"
proof -
  let ?q = "qpf n" and ?P = "ppf n" and ?L = "24 * qpf n" and ?V = "6 * ppf n + dups n"
  note f = even_facts [OF e]
  have V: "?V = 6 * ?P + 4 * m + 5" by (simp add: dups_def f)
  have L0: "0 \<le> ?L" using f by simp
  let ?body = "\<lambda>(r::int) (pq, idk, m). do {
               m \<leftarrow> wr m (pq + 1) idk;
               m \<leftarrow> wr m (pq + 4 * n) idk;
               Some (pq + 4 * n, idk + 1, m) }"
  let ?I = "\<lambda>r (pq, idk, mm). pq = ?L + 4 * (3 * ?q + m) + 4 * (n * r) \<and> idk = 6 * ?P + m + 1 + r
              \<and> seam_inv ?L ?V li mm"
  have a0: "?L \<le> ?L + 4 * (3 * ?q + m)" "?L + 4 * (3 * ?q + m) < 2 * ?L"
    using f e by auto
  have v0: "0 \<le> 6 * ?P + m" "6 * ?P + m < ?V" using f e unfolding V by auto
  obtain ma where ma: "wr m0 (?L + 4 * (3 * ?q + m)) (6 * ?P + m) = Some ma"
    "seam_inv ?L ?V li ma"
    using wr_inv [OF inv a0 v0 L0] by blast
  have "\<exists>t. for_up 0 (n - 1) ?body (?L + 4 * (3 * ?q + m), 6 * ?P + m + 1, ma) = Some t
        \<and> ?I (n - 1) t"
  proof (rule for_up_rule [where I = ?I])
    show "?I 0 (?L + 4 * (3 * ?q + m), 6 * ?P + m + 1, ma)" using ma by simp
    show "0 \<le> n - 1" using e by simp
  next
    fix j t
    assume j: "0 \<le> j" "j < n - 1" and I: "?I j t"
    obtain pq idk mm where t: "t = (pq, idk, mm)" by (cases t) auto
    define nr where "nr = n * j"
    have nr: "0 \<le> nr" "nr + n \<le> ?q"
      using nr_le [OF e, of j] nr_le [OF e, of "j + 1"] j e by (auto simp: nr_def algebra_simps)
    from I have pq: "pq = ?L + 4 * (3 * ?q + m) + 4 * nr" and idk: "idk = 6 * ?P + m + 1 + j"
      and inv': "seam_inv ?L ?V li mm" by (auto simp: t nr_def)
    have a1: "?L \<le> pq + 1" "pq + 1 < 2 * ?L" "?L \<le> pq + 4 * n" "pq + 4 * n < 2 * ?L"
      using nr f e unfolding pq by auto
    have v1: "0 \<le> idk" "idk < ?V"
      using j f e unfolding idk V by auto
    obtain m1 where m1: "wr mm (pq + 1) idk = Some m1" "seam_inv ?L ?V li m1"
      using wr_inv [OF inv' a1(1,2) v1 L0] by blast
    obtain m2 where m2: "wr m1 (pq + 4 * n) idk = Some m2" "seam_inv ?L ?V li m2"
      using wr_inv [OF m1(2) a1(3,4) v1 L0] by blast
    have "pq + 4 * n = ?L + 4 * (3 * ?q + m) + 4 * (n * (j + 1))"
      unfolding pq nr_def by (simp add: algebra_simps)
    then show "\<exists>t'. ?body j t = Some t' \<and> ?I (j + 1) t'"
      unfolding t using m1 m2 idk by simp
  qed
  then obtain pq idk mm where loop:
    "for_up 0 (n - 1) ?body (?L + 4 * (3 * ?q + m), 6 * ?P + m + 1, ma) = Some (pq, idk, mm)"
    and pq: "pq = ?L + 4 * (3 * ?q + m) + 4 * (n * (n - 1))" and idk: "idk = 6 * ?P + m + 1 + (n - 1)"
    and inv': "seam_inv ?L ?V li mm"
    by auto
  define nr where "nr = n * (n - 1)"
  have nr: "0 \<le> nr" "nr \<le> ?q" using nr_le [OF e, of "n - 1"] e by (auto simp: nr_def)
  have a1: "?L \<le> pq + 1" "pq + 1 < 2 * ?L" using nr f e unfolding pq nr_def [symmetric] by auto
  have v1: "0 \<le> idk" "idk < ?V" using e f unfolding idk V by auto
  obtain m1 where m1: "wr mm (pq + 1) idk = Some m1" "seam_inv ?L ?V li m1"
    using wr_inv [OF inv' a1 v1 L0] by blast
  show ?thesis
    unfolding seam_back_def Let_def f(1,2) using ma loop m1 by simp
qed

lemma seam_bottom_ok:
  assumes e: "n = 2 * m" "1 \<le> m"
    and inv: "seam_inv (24 * qpf n) (6 * ppf n + dups n) li m0"
  shows "\<exists>m'. seam_bottom n m0 = Some m' \<and> seam_inv (24 * qpf n) (6 * ppf n + dups n) li m'"
proof -
  let ?q = "qpf n" and ?P = "ppf n" and ?L = "24 * qpf n" and ?V = "6 * ppf n + dups n"
  note f = even_facts [OF e]
  have V: "?V = 6 * ?P + 4 * m + 5" by (simp add: dups_def f)
  have L0: "0 \<le> ?L" using f by simp
  define nm where "nm = n * m"
  have nm: "0 \<le> nm" "2 * nm = ?q" using f e by (auto simp: nm_def qpf_def)
  have iqb: "4 * ?q + (n - 1 - (m - 1)) * n + m = 4 * ?q + nm + m"
    using e by (simp add: nm_def algebra_simps)
  let ?body = "\<lambda>(r::int) (pq, idb, m). do {
               m \<leftarrow> wr m (pq + 4 * n) idb;
               m \<leftarrow> wr m (pq + 4 * n + 1) (idb + 1);
               Some (pq + 4 * n, idb + 1, m) }"
  let ?I = "\<lambda>r (pq, idb, mm). pq = ?L + 4 * (4 * ?q + nm + m) + 4 * (n * r)
              \<and> idb = 6 * ?P + m + (2 * m + 1) + r \<and> seam_inv ?L ?V li mm"
  have a0: "?L \<le> ?L + 4 * (4 * ?q + nm + m) + 1" "?L + 4 * (4 * ?q + nm + m) + 1 < 2 * ?L"
    using f e nm by auto
  have v0: "0 \<le> 6 * ?P + m + (2 * m + 1)" "6 * ?P + m + (2 * m + 1) < ?V"
    using f e unfolding V by auto
  obtain ma where ma: "wr m0 (?L + 4 * (4 * ?q + nm + m) + 1) (6 * ?P + m + (2 * m + 1)) = Some ma"
    "seam_inv ?L ?V li ma"
    using wr_inv [OF inv a0 v0 L0] by blast
  have "\<exists>t. for_up 0 (m - 1) ?body (?L + 4 * (4 * ?q + nm + m), 6 * ?P + m + (2 * m + 1), ma) = Some t
        \<and> ?I (m - 1) t"
  proof (rule for_up_rule [where I = ?I])
    show "?I 0 (?L + 4 * (4 * ?q + nm + m), 6 * ?P + m + (2 * m + 1), ma)" using ma by simp
    show "0 \<le> m - 1" using e by simp
  next
    fix j t
    assume j: "0 \<le> j" "j < m - 1" and I: "?I j t"
    obtain pq idb mm where t: "t = (pq, idb, mm)" by (cases t) auto
    define nr where "nr = n * j"
    have "n * (j + 1) \<le> n * m" using j e by (intro mult_left_mono) auto
    then have nr: "0 \<le> nr" "nr + n \<le> nm"
      using nr_le [OF e, of j] j e by (auto simp: nr_def nm_def algebra_simps)
    from I have pq: "pq = ?L + 4 * (4 * ?q + nm + m) + 4 * nr"
      and idb: "idb = 6 * ?P + m + (2 * m + 1) + j"
      and inv': "seam_inv ?L ?V li mm" by (auto simp: t nr_def)
    have a1: "?L \<le> pq + 4 * n" "pq + 4 * n < 2 * ?L" "?L \<le> pq + 4 * n + 1"
      "pq + 4 * n + 1 < 2 * ?L"
      using nr nm f e unfolding pq by auto
    have v1: "0 \<le> idb" "idb < ?V" "0 \<le> idb + 1" "idb + 1 < ?V"
      using j f e unfolding idb V by auto
    obtain m1 where m1: "wr mm (pq + 4 * n) idb = Some m1" "seam_inv ?L ?V li m1"
      using wr_inv [OF inv' a1(1,2) v1(1,2) L0] by blast
    obtain m2 where m2: "wr m1 (pq + 4 * n + 1) (idb + 1) = Some m2" "seam_inv ?L ?V li m2"
      using wr_inv [OF m1(2) a1(3,4) v1(3,4) L0] by blast
    have "pq + 4 * n = ?L + 4 * (4 * ?q + nm + m) + 4 * (n * (j + 1))"
      unfolding pq nr_def by (simp add: algebra_simps)
    then show "\<exists>t'. ?body j t = Some t' \<and> ?I (j + 1) t'"
      unfolding t using m1 m2 idb by simp
  qed
  then obtain pq idb mm where loop:
    "for_up 0 (m - 1) ?body (?L + 4 * (4 * ?q + nm + m), 6 * ?P + m + (2 * m + 1), ma)
       = Some (pq, idb, mm)"
    and inv': "seam_inv ?L ?V li mm"
    by auto
  have ad: "?L + 4 * (4 * ?q + (n - 1 - (m - 1)) * n + m) + 1 = ?L + 4 * (4 * ?q + nm + m) + 1"
    "?L + 4 * (4 * ?q + (n - 1 - (m - 1)) * n + m) = ?L + 4 * (4 * ?q + nm + m)"
    using iqb by simp_all
  have idb0: "6 * ?P + m + dp1 n = 6 * ?P + m + (2 * m + 1)" by (simp add: f)
  show ?thesis
    unfolding seam_bottom_def Let_def f(1,2) ad idb0 using ma loop inv' by simp
qed

lemma seam_centers_ok:
  assumes e: "n = 2 * m" "1 \<le> m" and small: "24 * qpf n < 2 ^ 31"
    and inv: "seam_inv (24 * qpf n) (6 * ppf n + dups n) li m0"
  shows "\<exists>m'. seam_centers n m0 = Some m' \<and> seam_inv (24 * qpf n) (6 * ppf n + dups n) li m'"
proof -
  let ?q = "qpf n" and ?P = "ppf n" and ?L = "24 * qpf n" and ?V = "6 * ppf n + dups n"
  note f = even_facts [OF e]
  have V: "?V = 6 * ?P + 4 * m + 5" by (simp add: dups_def f)
  have L0: "0 \<le> ?L" using f by simp
  have qs: "24 * ?q < 2 ^ 31" by (rule small)
  define x where "x = n * (m - 1) + m"
  define t1 where "t1 = n * (m - 1)"
  have t1: "0 \<le> t1" "t1 \<le> ?q" using nr_le [OF e, of "m - 1"] e by (auto simp: t1_def)
  have xt: "x = t1 + m" by (simp add: x_def t1_def)
  have x: "1 \<le> x" "x \<le> 2 * ?q"
    using t1 e(2) f(4) unfolding xt by linarith+
  define y where "y = (n + 1) * m"
  have "y = n * m + m" by (simp add: y_def algebra_simps)
  then have y: "0 \<le> y" "y < 2 * ?q" using f e by auto
  have jq: "u32 x = x" using x qs by (intro u32_id) auto
  have s1: "u32 (?q + x) = ?q + x" using x qs f by (intro u32_id) auto
  have s2: "u32 (4 * (?q + x)) = 4 * (?q + x)" using x qs f by (intro u32_id) auto
  let ?pq = "?L + 4 * (?q + x)" and ?pq' = "?L + 4 * (4 * ?q + y)"
  let ?idc = "6 * ?P + m + (2 * m + 1) + m"
  have a: "?L \<le> ?pq - 2" "?pq - 2 < 2 * ?L" "?L \<le> ?pq + 1" "?pq + 1 < 2 * ?L"
    "?L \<le> ?pq' - 1" "?pq' - 1 < 2 * ?L" "?L \<le> ?pq'" "?pq' < 2 * ?L"
    using x y f by auto
  have v: "0 \<le> ?idc" "?idc < ?V" "0 \<le> ?idc + 1" "?idc + 1 < ?V"
    "0 \<le> ?idc + 2" "?idc + 2 < ?V" "0 \<le> ?idc + 3" "?idc + 3 < ?V"
    using f e unfolding V by auto
  obtain m1 where m1: "wr m0 (?pq - 2) ?idc = Some m1" "seam_inv ?L ?V li m1"
    using wr_inv [OF inv a(1,2) v(1,2) L0] by blast
  obtain m2 where m2: "wr m1 (?pq + 1) (?idc + 1) = Some m2" "seam_inv ?L ?V li m2"
    using wr_inv [OF m1(2) a(3,4) v(3,4) L0] by blast
  obtain m3 where m3: "wr m2 (?pq' - 1) (?idc + 2) = Some m3" "seam_inv ?L ?V li m3"
    using wr_inv [OF m2(2) a(5,6) v(5,6) L0] by blast
  obtain m4 where m4: "wr m3 ?pq' (?idc + 3) = Some m4" "seam_inv ?L ?V li m4"
    using wr_inv [OF m3(2) a(7,8) v(7,8) L0] by blast
  show ?thesis
    unfolding seam_centers_def Let_def f(1,2,3) x_def [symmetric] y_def [symmetric] jq s1 s2
    using m1 m2 m3 m4 by simp
qed

lemma seam_repair_even:
  assumes e: "n = 2 * m" "1 \<le> m" and small: "24 * qpf n < 2 ^ 31"
    and inv: "seam_inv (24 * qpf n) (6 * ppf n + dups n) li m0"
  shows "\<exists>m'. seam_repair n m0 = Some m' \<and> seam_inv (24 * qpf n) (6 * ppf n + dups n) li m'"
proof -
  obtain m1 where m1: "seam_top n m0 = Some m1" "seam_inv (24 * qpf n) (6 * ppf n + dups n) li m1"
    using seam_top_ok [OF e inv] by blast
  obtain m2 where m2: "seam_back n m1 = Some m2" "seam_inv (24 * qpf n) (6 * ppf n + dups n) li m2"
    using seam_back_ok [OF e m1(2)] by blast
  obtain m3 where m3: "seam_bottom n m2 = Some m3" "seam_inv (24 * qpf n) (6 * ppf n + dups n) li m3"
    using seam_bottom_ok [OF e m2(2)] by blast
  obtain m4 where m4: "seam_centers n m3 = Some m4" "seam_inv (24 * qpf n) (6 * ppf n + dups n) li m4"
    using seam_centers_ok [OF e small m3(2)] by blast
  show ?thesis using m1 m2 m3 m4 by (simp add: seam_repair_def)
qed

text \<open>The resolution 1, by evaluation.\<close>

lemma index_builder_1: "index_builder 1 = Some
  [0, 2, 0, 1, 4, 6, 4, 5, 8, 10, 11, 10, 12, 14, 15, 14, 16, 17, 19, 17,
   20, 22, 20, 21, 0, 2, 3, 1, 4, 6, 7, 5, 8, 10, 11, 9, 12, 14, 15, 13, 16,
   18, 19, 17, 20, 22, 23, 21]"
  by code_simp

lemma seam_repair_1: "seam_repair 1
  [0, 2, 0, 1, 4, 6, 4, 5, 8, 10, 11, 10, 12, 14, 15, 14, 16, 17, 19, 17,
   20, 22, 20, 21, 0, 2, 3, 1, 4, 6, 7, 5, 8, 10, 11, 9, 12, 14, 15, 13, 16,
   18, 19, 17, 20, 22, 23, 21] = Some
  [0, 2, 0, 1, 4, 6, 4, 5, 8, 10, 11, 10, 12, 14, 15, 14, 16, 17, 19, 17,
   20, 22, 26, 21, 0, 27, 3, 1, 24, 6, 7, 5, 8, 10, 11, 9, 24, 25, 15, 28,
   29, 18, 19, 17, 20, 26, 23, 21]"
  by code_simp

subsection \<open>Bounds of the indices\<close>

lemma face_no_of: "0 \<le> k \<Longrightarrow> k \<le> 5 \<Longrightarrow> face_no (face_of k) = k"
  by (auto simp: face_of_def)

lemma ppf_split: "ppf n = (n - 1) * dp1 n + 2 * n + 2"
  by (simp add: ppf_def dp1_def algebra_simps)

lemma quad_cell_bounds:
  assumes n: "1 \<le> n" and r: "0 \<le> r" "r < n" and c: "0 \<le> c" "c < n"
  shows "list_all (\<lambda>x. face_no f * ppf n \<le> x \<and> x < (face_no f + 1) * ppf n) (quad_cell n f r c)"
proof -
  define k where "k = r * dp1 n"
  define t where "t = (n - 1) * dp1 n"
  define off where "off = face_no f * ppf n"
  have d: "0 \<le> dp1 n" using n by (simp add: dp1_def)
  have k: "0 \<le> k" "k \<le> t"
    using r d by (auto simp: k_def t_def intro: mult_right_mono)
  have p: "ppf n = t + 2 * n + 2" by (simp add: t_def ppf_split)
  have o: "(face_no f + 1) * ppf n = off + ppf n" by (simp add: off_def algebra_simps)
  have qc: "quad_cell n f r c =
      [off + (k + c), off + (n + 1 + k + c), off + (n + 1 + k + c + 1), off + (k + c + 1)]"
    by (simp add: quad_cell_def Let_def k_def off_def dp1_def)
  have main: "list_all (\<lambda>x. off \<le> x \<and> x < off + P)
      [off + (k + c), off + (n + 1 + k + c), off + (n + 1 + k + c + 1), off + (k + c + 1)]"
    if "P = t + 2 * n + 2" for P
    using that k c n by simp
  show ?thesis
    unfolding qc o off_def [symmetric] by (rule main [OF p])
qed

lemma quad_elem_bounds:
  assumes n: "1 \<le> n" and i: "0 \<le> i" "i < 24 * qpf n"
  shows "0 \<le> quad_elem n i \<and> quad_elem n i < 6 * ppf n"
proof -
  let ?q = "qpf n"
  let ?j = "i div 4"
  let ?fno = "?j div ?q" and ?cell = "?j mod ?q"
  have q: "0 < ?q" using n by (simp add: qpf_def)
  have j: "0 \<le> ?j" "?j < 6 * ?q" using i by auto
  have fno: "0 \<le> ?fno" "?fno \<le> 5"
    using j q div_lt_int [of ?q ?j 6] by (simp_all add: pos_imp_zdiv_nonneg_iff)
  have cell: "0 \<le> ?cell" "?cell < n * n" using q by (simp_all add: qpf_def)
  have r: "0 \<le> ?cell div n" "?cell div n < n"
    using cell n div_lt_int [of n ?cell n] by (simp_all add: pos_imp_zdiv_nonneg_iff)
  have c: "0 \<le> ?cell mod n" "?cell mod n < n" using n by simp_all
  have p: "nat (i mod 4) < length (quad_cell n (face_of ?fno) (?cell div n) (?cell mod n))"
    by (simp add: quad_cell_def Let_def nat_less_iff)
  have b: "face_no (face_of ?fno) * ppf n \<le> quad_elem n i
           \<and> quad_elem n i < (face_no (face_of ?fno) + 1) * ppf n"
    using quad_cell_bounds [OF n r c, of "face_of ?fno"] p
    unfolding quad_elem_def Let_def list_all_length by blast
  have P: "0 \<le> ppf n" by (simp add: ppf_def)
  have lo: "0 \<le> ?fno * ppf n" using fno P by simp
  have hi: "(?fno + 1) * ppf n \<le> 6 * ppf n" using fno P by (intro mult_right_mono) auto
  show ?thesis using b lo hi unfolding face_no_of [OF fno] by linarith
qed

lemma line_quad_nth_in:
  "p < 4 \<Longrightarrow> line_quad f a b c d ! p \<in> {a, b, c, d}"
proof -
  assume "p < 4"
  then have "p = 0 \<or> p = 1 \<or> p = 2 \<or> p = 3" by arith
  then show ?thesis by (cases f) auto
qed

lemma line_elem_bounds:
  assumes n: "1 \<le> n" and i: "0 \<le> i" "i < 24 * qpf n"
  shows "0 \<le> line_elem n i \<and> line_elem n i < 6 * ppf n"
proof -
  let ?b = "4 * (i div 4)"
  have "i div 4 < 6 * qpf n" using i by (intro div_lt_int) auto
  then have b: "0 \<le> ?b" "?b + 3 < 24 * qpf n" using i by auto
  have e: "0 \<le> quad_elem n (?b + k) \<and> quad_elem n (?b + k) < 6 * ppf n"
    if "0 \<le> k" "k \<le> 3" for k
    using quad_elem_bounds [OF n, of "?b + k"] b that by simp
  have "nat (i mod 4) < 4" by (simp add: nat_less_iff)
  from line_quad_nth_in [OF this]
  have "line_elem n i \<in> {quad_elem n ?b, quad_elem n (?b + 1), quad_elem n (?b + 2),
      quad_elem n (?b + 3)}"
    unfolding line_elem_def Let_def .
  then show ?thesis using e [of 0] e [of 1] e [of 2] e [of 3] by auto
qed

lemma tab_all:
  assumes "\<And>i. 0 \<le> i \<Longrightarrow> i < k \<Longrightarrow> P (E i)"
  shows "list_all P (tab E k)"
  unfolding tab_def list_all_iff using assms by auto

lemma tables_bounds:
  assumes n: "1 \<le> n"
  shows "list_all (\<lambda>x. 0 \<le> x \<and> x < 6 * ppf n) (line_table n @ quad_table n)"
  unfolding list_all_append line_table_def quad_table_def
  using line_elem_bounds [OF n] quad_elem_bounds [OF n] by (auto intro!: tab_all)

lemma tables_length:
  "0 \<le> qpf n \<Longrightarrow> int (length (line_table n @ quad_table n)) = 2 * (24 * qpf n)"
  by (simp add: line_table_def quad_table_def length_tab)

lemma vertpnts_sizes: "vertpnts (quadsphere_sizes d) = 6 * ppf (round_divs d) + dups (round_divs d)"
  by (simp add: quadsphere_sizes_def Let_def)

lemma words_sizes:
  "linewrds (quadsphere_sizes d) + quadwrds (quadsphere_sizes d) = 2 * (24 * qpf (round_divs d))"
  by (simp add: quadsphere_sizes_def Let_def)

lemma seam_inv_tables:
  assumes n: "1 \<le> n"
  shows "seam_inv (24 * qpf n) (6 * ppf n + dups n) (line_table n) (line_table n @ quad_table n)"
proof -
  have q: "0 \<le> qpf n" by (simp add: qpf_def)
  have du: "0 \<le> dups n" using n by (simp add: dups_def dp1_def ntb_def d2_pos)
  have "list_all (\<lambda>x. 0 \<le> x \<and> x < 6 * ppf n + dups n) (line_table n @ quad_table n)"
    using tables_bounds [OF n] du unfolding list_all_iff by fastforce
  moreover have "take (nat (24 * qpf n)) (line_table n @ quad_table n) = line_table n"
    by (simp add: line_table_def length_tab)
  ultimately show ?thesis
    using tables_length [OF q] by (simp add: seam_inv_def)
qed

text \<open>
  C7. For every argument for which the \<open>int\<close> values of the constructor fit (the
  largest of them is \<open>linewrds = 24 * qpf\<close>, see \<open>int_values_fit\<close>), the index builder
  and the seam repair run without a read or a write outside the index arrays; every
  index that the index builder emits is in \<open>[0, 6 (divs + 1)\<^sup>2)\<close>, the vertex count
  before the duplicates are added; and every index of the line and quad arrays after
  the seam repair is in \<open>[0, vertpnts)\<close>.
\<close>

theorem indices_in_range:
  assumes fits: "linewrds (quadsphere_sizes d) < 2 ^ 31"
  shows "\<exists>pre post.
           index_builder (round_divs d) = Some pre
         \<and> seam_repair (round_divs d) pre = Some post
         \<and> quadsphere_indices d = Some post
         \<and> int (length post) = linewrds (quadsphere_sizes d) + quadwrds (quadsphere_sizes d)
         \<and> (\<forall>x\<in>set pre. 0 \<le> x \<and> x < 6 * (round_divs d + 1)\<^sup>2)
         \<and> (\<forall>x\<in>set post. 0 \<le> x \<and> x < vertpnts (quadsphere_sizes d))"
proof -
  let ?n = "round_divs d"
  have small: "24 * qpf ?n < 2 ^ 31"
    using fits by (simp add: quadsphere_sizes_def Let_def)
  have sq: "6 * (?n + 1)\<^sup>2 = 6 * ppf ?n" by (simp add: ppf_def dp1_def power2_eq_square)
  consider (one) "?n = 1" | (even) "even ?n" "2 \<le> ?n"
    using round_divs_shape [of d] by blast
  then show ?thesis
  proof cases
    case one
    let ?pre = "[0, 2, 0, 1, 4, 6, 4, 5, 8, 10, 11, 10, 12, 14, 15, 14, 16, 17, 19, 17,
      20, 22, 20, 21, 0, 2, 3, 1, 4, 6, 7, 5, 8, 10, 11, 9, 12, 14, 15, 13, 16,
      18, 19, 17, 20, 22, 23, 21 :: int]"
    let ?post = "[0, 2, 0, 1, 4, 6, 4, 5, 8, 10, 11, 10, 12, 14, 15, 14, 16, 17, 19, 17,
      20, 22, 26, 21, 0, 27, 3, 1, 24, 6, 7, 5, 8, 10, 11, 9, 24, 25, 15, 28,
      29, 18, 19, 17, 20, 26, 23, 21 :: int]"
    have v: "vertpnts (quadsphere_sizes d) = 30"
      by (simp add: vertpnts_sizes one ppf_def dp1_def dups_def ntb_def d2_pos)
    have w: "linewrds (quadsphere_sizes d) + quadwrds (quadsphere_sizes d) = 48"
      by (simp add: words_sizes one qpf_def)
    have a: "index_builder ?n = Some ?pre" unfolding one by (rule index_builder_1)
    have b: "seam_repair ?n ?pre = Some ?post" unfolding one by (rule seam_repair_1)
    have c: "quadsphere_indices d = Some ?post"
      using a b by (simp add: quadsphere_indices_def Let_def)
    have l: "int (length ?post) = 48" by simp
    have p1: "\<forall>x\<in>set ?pre. 0 \<le> x \<and> x < 6 * (?n + 1)\<^sup>2" unfolding one by simp
    have p2: "\<forall>x\<in>set ?post. 0 \<le> x \<and> x < vertpnts (quadsphere_sizes d)" unfolding v by simp
    show ?thesis using a b c l p1 p2 unfolding w by blast
  next
    case even
    then obtain m where m: "?n = 2 * m" "1 \<le> m" by (auto elim!: evenE)
    have n1: "1 \<le> ?n" by (rule round_divs_ge1)
    let ?pre = "line_table ?n @ quad_table ?n"
    have a: "index_builder ?n = Some ?pre" by (rule index_builder_tab [OF n1])
    obtain post where b: "seam_repair ?n ?pre = Some post"
      and inv: "seam_inv (24 * qpf ?n) (6 * ppf ?n + dups ?n) (line_table ?n) post"
      using seam_repair_even [OF m small seam_inv_tables [OF n1]] by blast
    have c: "quadsphere_indices d = Some post"
      using a b by (simp add: quadsphere_indices_def Let_def)
    have l: "int (length post) = linewrds (quadsphere_sizes d) + quadwrds (quadsphere_sizes d)"
      using inv by (simp add: seam_inv_def words_sizes)
    have p1: "\<forall>x\<in>set ?pre. 0 \<le> x \<and> x < 6 * (?n + 1)\<^sup>2"
      using tables_bounds [OF n1] unfolding sq list_all_iff .
    have p2: "\<forall>x\<in>set post. 0 \<le> x \<and> x < vertpnts (quadsphere_sizes d)"
      using inv unfolding seam_inv_def vertpnts_sizes list_all_iff by blast
    show ?thesis using a b c l p1 p2 by blast
  qed
qed

theorem indices_in_range_witness:
  "linewrds (quadsphere_sizes 2) < 2 ^ 31
   \<and> (\<exists>post. quadsphere_indices 2 = Some post \<and> length post = 192
        \<and> list_all (\<lambda>x. 0 \<le> x \<and> x < 63) post)"
proof -
  have r2: "round_divs 2 = 2" by (simp add: round_divs_cases)
  have h: "linewrds (quadsphere_sizes 2) < 2 ^ 31"
    by (simp add: quadsphere_sizes_def Let_def r2 qpf_def)
  have v: "vertpnts (quadsphere_sizes 2) = 63"
    by (simp add: vertpnts_sizes r2 ppf_def dp1_def dups_def ntb_def d2_pos)
  have w: "linewrds (quadsphere_sizes 2) + quadwrds (quadsphere_sizes 2) = 192"
    by (simp add: words_sizes r2 qpf_def)
  from indices_in_range [OF h] obtain post where
    "quadsphere_indices 2 = Some post" "int (length post) = 192"
    "\<forall>x\<in>set post. 0 \<le> x \<and> x < 63"
    unfolding v w by blast
  then show ?thesis using h by (auto simp: list_all_iff)
qed

lemma tab_nth_nat: "i < nat k \<Longrightarrow> tab E k ! i = E (int i)"
  by (simp add: tab_def)

lemma upt4: "[0..<4] = [0, 1, 2, 3]"
  by (simp add: upt_rec)

lemma quad_cell_shape:
  "quad_cell n f r c =
     (let A = face_no f * ppf n + (r * dp1 n + c) in [A, A + (n + 1), A + (n + 2), A + 1])"
  by (simp add: quad_cell_def Let_def dp1_def)

lemma line_quad_table:
  "line_quad f a b c d = [a, b, c, d][line_dst f := [a, b, c, d] ! line_src f]"
  by (cases f) simp_all

lemma line_quad_one_overwritten:
  assumes "1 \<le> n"
  shows "overwritten (line_quad f A (A + (n + 1)) (A + (n + 2)) (A + 1))
           [A, A + (n + 1), A + (n + 2), A + 1] = 1"
  using assms by (cases f) (simp_all add: overwritten_def upt4)

lemma line_quad_two_edges:
  assumes "1 \<le> n"
  shows "set (segments (line_quad f A (A + (n + 1)) (A + (n + 2)) (A + 1)))
           \<subseteq> edges [A, A + (n + 1), A + (n + 2), A + 1]
         \<and> distinct (segments (line_quad f A (A + (n + 1)) (A + (n + 2)) (A + 1)))"
  using assms by (cases f) (auto simp: segments_def edges_def doubleton_eq_iff)

text \<open>
  C6 as stated: the line quadruple of a cell is its quad quadruple with 2 of the 4
  positions overwritten. In the cell in row 0 and column 0 of the front face at
  resolution 2 the quad quadruple is \<open>[0, 3, 4, 1]\<close> and the line quadruple is
  \<open>[0, 3, 0, 1]\<close>: one position is overwritten, not two. After the seam repair the
  quad quadruple of the cell in row 0 and column 1 of the top face is
  \<open>[54, 60, 14, 11]\<close> and its line quadruple is \<open>[10, 13, 10, 11]\<close>: the line
  indices are made from the quad indices as they are before the seam repair.
\<close>

theorem line_quadruple_counterexample:
  "map_option (\<lambda>quad. quadruple quad (cell_at 2 Front 0 0)) (quad_indices 2) = Some [0, 3, 4, 1]
   \<and> map_option (\<lambda>line. quadruple line (cell_at 2 Front 0 0))
        (quad_indices 2 \<bind> line_indices 2) = Some [0, 3, 0, 1]
   \<and> overwritten [0, 3, 0, 1] [0, 3, 4, 1] = 1
   \<and> overwritten [0, 3, 0, 1] [0, 3, 4, 1] \<noteq> 2
   \<and> map_option (\<lambda>m. quadruple (quadidx_of 2 m) (cell_at 2 Top 0 1)) (quadsphere_indices 2)
        = Some [54, 60, 14, 11]
   \<and> map_option (\<lambda>m. quadruple (lineidx_of 2 m) (cell_at 2 Top 0 1)) (quadsphere_indices 2)
        = Some [10, 13, 10, 11]"
  by code_simp

text \<open>
  C6 as amended: at every resolution \<open>n\<close>, for every face \<open>f\<close> and every cell (row
  \<open>r\<close>, column \<open>c\<close>) the index builder emits the quad quadruple \<open>quad_cell n f r c\<close>
  and, at the same address of the line array, that quadruple with exactly one position
  overwritten by a copy of another corner, by the table of the faces (front, top and
  right: corner 0 replaces corner 2; back and left: corner 1 replaces corner 3; bottom:
  corner 3 replaces corner 1). The two segments of a line draw are two different edges
  of the quad. The quadruple is the one emitted before the seam repair; at an even
  resolution whose \<open>int\<close> values fit, the seam repair leaves the line indices as they
  were built.
\<close>

theorem line_quadruple_of_cell:
  assumes n: "1 \<le> n" and r: "0 \<le> r" "r < n" and c: "0 \<le> c" "c < n"
  shows "\<exists>quad line.
           quad_indices n = Some quad
         \<and> line_indices n quad = Some line
         \<and> index_builder n = Some (line @ quad)
         \<and> quadruple quad (cell_at n f r c) = quad_cell n f r c
         \<and> quadruple line (cell_at n f r c)
             = (quad_cell n f r c)[line_dst f := quad_cell n f r c ! line_src f]
         \<and> overwritten (quadruple line (cell_at n f r c)) (quadruple quad (cell_at n f r c)) = 1
         \<and> set (segments (quadruple line (cell_at n f r c)))
             \<subseteq> edges (quadruple quad (cell_at n f r c))
         \<and> distinct (segments (quadruple line (cell_at n f r c)))
         \<and> (even n \<and> 24 * qpf n < 2 ^ 31 \<longrightarrow>
              (\<exists>m. seam_repair n (line @ quad) = Some m \<and> lineidx_of n m = line))"
proof -
  let ?E = "quad_elem n" and ?L = "line_elem n" and ?q = "qpf n"
  let ?k = "r * n + c"
  let ?j = "face_no f * ?q + ?k"
  let ?b = "cell_at n f r c"
  let ?qc = "quad_cell n f r c"
  have k: "0 \<le> ?k" "?k < ?q" using cell_lt [OF r c] by (simp_all add: qpf_def)
  have fr: "0 \<le> face_no f" "face_no f \<le> 5" using face_no_range [of f] by auto
  have q: "0 < ?q" using n by (simp add: qpf_def)
  have fq: "0 \<le> face_no f * ?q" using fr q by simp
  have fq5: "face_no f * ?q \<le> 5 * ?q" using fr q by (intro mult_right_mono) auto
  have jb: "0 \<le> 4 * ?j" "4 * ?j + 3 < 24 * ?q"
    using chunk_bounds [OF fq fq5 k] by blast+
  have b: "?b = nat (4 * ?j)" by (simp add: cell_at_def add.assoc)
  have ib: "int (?b + p) = 4 * ?j + int p" for p using jb b by simp
  have inr: "?b + p < nat (24 * ?q)" if "p \<le> 3" for p
    using jb that unfolding b by (simp add: nat_less_iff)
  have qn: "quad_table n ! (?b + p) = ?qc ! p" if "p \<le> 3" for p
  proof -
    have "quad_table n ! (?b + p) = ?E (4 * ?j + int p)"
      unfolding quad_table_def tab_nth_nat [OF inr [OF that]] ib ..
    also have "\<dots> = ?qc ! nat (int p)"
      using quad_elem_cell [OF n r c, of "int p" f] that by (simp add: add.assoc)
    finally show ?thesis by simp
  qed
  have len: "length ?qc = 4" by (simp add: quad_cell_def Let_def)
  have qc4: "?qc = [?qc ! 0, ?qc ! 1, ?qc ! 2, ?qc ! 3]"
    by (simp add: quad_cell_def Let_def)
  have Q: "quadruple (quad_table n) ?b = ?qc"
    unfolding quadruple_def using qn [of 0] qn [of 1] qn [of 2] qn [of 3] qc4 by simp
  have en: "?E (4 * ?j + int p) = ?qc ! p" if "p \<le> 3" for p
    using quad_elem_cell [OF n r c, of "int p" f] that by (simp add: add.assoc)
  let ?lq = "line_quad f (?qc ! 0) (?qc ! 1) (?qc ! 2) (?qc ! 3)"
  have ln: "line_table n ! (?b + p) = ?lq ! p" if "p \<le> 3" for p
  proof -
    have "line_table n ! (?b + p) = ?L (4 * ?j + int p)"
      unfolding line_table_def tab_nth_nat [OF inr [OF that]] ib ..
    also have "\<dots> = line_quad f (?E (4 * ?j)) (?E (4 * ?j + 1)) (?E (4 * ?j + 2))
        (?E (4 * ?j + 3)) ! nat (int p)"
      using line_elem_chunk [OF n k, of "int p" f] that by simp
    also have "\<dots> = ?lq ! p"
      using en [of 0] en [of 1] en [of 2] en [of 3] by simp
    finally show ?thesis .
  qed
  have Lq: "quadruple (line_table n) ?b = ?lq"
    unfolding quadruple_def
    using ln [of 0] ln [of 1] ln [of 2] ln [of 3]
      line_quad_nths [of f "?qc ! 0" "?qc ! 1" "?qc ! 2" "?qc ! 3"]
    by simp
  define A where "A = face_no f * ppf n + (r * dp1 n + c)"
  have sh: "?qc = [A, A + (n + 1), A + (n + 2), A + 1]"
    by (simp add: quad_cell_shape Let_def A_def)
  have lqA: "?lq = line_quad f A (A + (n + 1)) (A + (n + 2)) (A + 1)"
    unfolding sh by simp
  have T: "?lq = ?qc[line_dst f := ?qc ! line_src f]"
    unfolding lqA unfolding sh by (rule line_quad_table)
  have O: "overwritten ?lq ?qc = 1"
    unfolding lqA unfolding sh by (rule line_quad_one_overwritten [OF n])
  have S: "set (segments ?lq) \<subseteq> edges ?qc \<and> distinct (segments ?lq)"
    unfolding lqA unfolding sh by (rule line_quad_two_edges [OF n])
  have R: "\<exists>m. seam_repair n (line_table n @ quad_table n) = Some m \<and> lineidx_of n m = line_table n"
    if "even n" "24 * qpf n < 2 ^ 31"
  proof -
    from that n obtain m where m: "n = 2 * m" "1 \<le> m" by (auto elim!: evenE)
    from seam_repair_even [OF m that(2) seam_inv_tables [OF n]]
    show ?thesis by (auto simp: seam_inv_def lineidx_of_def)
  qed
  show ?thesis
    using quad_indices_tab [OF n] line_indices_tab [OF n] index_builder_tab [OF n]
      Q Lq T O S R
    by (intro exI [of _ "quad_table n"] exI [of _ "line_table n"]) simp
qed

theorem line_quadruple_of_cell_witness:
  "\<exists>quad line.
     quad_indices 2 = Some quad \<and> line_indices 2 quad = Some line
     \<and> quadruple quad (cell_at 2 Bottom 1 0) = [39, 42, 43, 40]
     \<and> quadruple line (cell_at 2 Bottom 1 0) = [39, 40, 43, 40]
     \<and> overwritten (quadruple line (cell_at 2 Bottom 1 0)) (quadruple quad (cell_at 2 Bottom 1 0)) = 1"
proof -
  have h: "(1::int) \<le> 2" "(0::int) \<le> 1" "(1::int) < 2" "(0::int) \<le> 0" "(0::int) < 2"
    by simp_all
  have qc: "quad_cell 2 Bottom 1 0 = [39, 42, 43, 40]"
    by (simp add: quad_cell_def Let_def ppf_def dp1_def)
  from line_quadruple_of_cell [OF h, of Bottom] show ?thesis
    unfolding qc by auto
qed


section \<open>Properties of the vertex generator and of the projection mapper\<close>

subsection \<open>slerp keeps the unit length\<close>

lemma slerp_identity:
  fixes a b :: real
  shows "(sin a)\<^sup>2 + (sin b)\<^sup>2 + 2 * sin a * sin b * cos (a + b) = (sin (a + b))\<^sup>2"
proof -
  have ca: "(cos a)\<^sup>2 = 1 - (sin a)\<^sup>2" and cb: "(cos b)\<^sup>2 = 1 - (sin b)\<^sup>2"
    by (rule cos_squared_eq)+
  have "(sin (a + b))\<^sup>2 = (sin a)\<^sup>2 * (cos b)\<^sup>2 + (cos a)\<^sup>2 * (sin b)\<^sup>2
      + 2 * sin a * sin b * (cos a * cos b)"
    by (simp add: sin_add power2_eq_square algebra_simps)
  also have "\<dots> = (sin a)\<^sup>2 + (sin b)\<^sup>2 + 2 * sin a * sin b * (cos a * cos b - sin a * sin b)"
    unfolding ca cb by (simp add: power2_eq_square algebra_simps)
  finally show ?thesis by (simp add: cos_add)
qed

lemma slerp_point_unit:
  fixes u0 u1 u2 v0 v1 v2 t om :: real
  assumes u: "u0 * u0 + u1 * u1 + u2 * u2 = 1" and v: "v0 * v0 + v1 * v1 + v2 * v2 = 1"
    and d: "u0 * v0 + u1 * v1 + u2 * v2 = cos om" and s: "sin om \<noteq> 0"
  defines "a \<equiv> sin (om * (1 - t)) / sin om" and "b \<equiv> sin (om * t) / sin om"
  shows "(u0 * a + v0 * b) * (u0 * a + v0 * b) + (u1 * a + v1 * b) * (u1 * a + v1 * b)
         + (u2 * a + v2 * b) * (u2 * a + v2 * b) = 1"
proof -
  have "(u0 * a + v0 * b) * (u0 * a + v0 * b) + (u1 * a + v1 * b) * (u1 * a + v1 * b)
         + (u2 * a + v2 * b) * (u2 * a + v2 * b)
        = a * a * (u0 * u0 + u1 * u1 + u2 * u2) + b * b * (v0 * v0 + v1 * v1 + v2 * v2)
          + 2 * a * b * (u0 * v0 + u1 * v1 + u2 * v2)"
    by (simp add: algebra_simps)
  also have "\<dots> = a * a + b * b + 2 * a * b * cos om"
    unfolding u v d by simp
  also have "\<dots> = ((sin (om * (1 - t)))\<^sup>2 + (sin (om * t))\<^sup>2
      + 2 * sin (om * (1 - t)) * sin (om * t) * cos om) / (sin om)\<^sup>2"
    unfolding a_def b_def by (simp add: power2_eq_square add_divide_distrib)
  also have "om = om * (1 - t) + om * t" by (simp add: algebra_simps)
  then have "(sin (om * (1 - t)))\<^sup>2 + (sin (om * t))\<^sup>2
      + 2 * sin (om * (1 - t)) * sin (om * t) * cos om = (sin om)\<^sup>2"
    using slerp_identity [of "om * (1 - t)" "om * t"] by simp
  finally show ?thesis using s by simp
qed

lemma slerp_angle:
  fixes d :: real
  assumes "0 \<le> d" and "d < 1"
  defines "som \<equiv> sqrt (1 - d * d)"
  shows "sin (arcsin som) = som" and "cos (arcsin som) = d" and "0 < som"
    and "0 < arcsin som" and "arcsin som \<le> pi / 2"
proof -
  have "d * d \<le> d * 1" using assms(1,2) by (intro mult_left_mono) auto
  then have dd: "d * d < 1" using assms(2) by simp
  have dd0: "0 \<le> d * d" by simp
  show s0: "0 < som" unfolding som_def using dd by simp
  have s1: "som \<le> 1" unfolding som_def using dd0 by simp
  show "sin (arcsin som) = som" using s0 s1 by simp
  have "arcsin som = arccos d"
    using arccos_arcsin_sqrt_pos [of d] assms(1,2) by (simp add: som_def power2_eq_square)
  then show "cos (arcsin som) = d" using assms(1,2) by simp
  show "0 < arcsin som" using s0 s1 arcsin_less_arcsin [of 0 som] by simp
  show "arcsin som \<le> pi / 2" using s0 s1 arcsin_ubound [of som] by simp
qed

lemma param_range:
  assumes "1 \<le> n" and "0 \<le> i" and "i < n + 1"
  shows "0 \<le> real_of_int i * (1 / real_of_int n)" and "real_of_int i * (1 / real_of_int n) \<le> 1"
  using assms by (simp_all add: divide_le_eq)

lemma slerp_ok:
  fixes u0 u1 u2 w0 w1 w2 :: real
  assumes n: "1 \<le> n"
    and u: "u0 * u0 + u1 * u1 + u2 * u2 = 1" and w: "w0 * w0 + w1 * w1 + w2 * w2 = 1"
    and d0: "0 \<le> u0 * w0 + u1 * w1 + u2 * w2" and d1: "u0 * w0 + u1 * w1 + u2 * w2 < 1"
  shows "\<exists>rest. slerp n (u0, u1, u2) (w0, w1, w2) pf = Some (pf @ rest)
           \<and> int (length rest) = n + 1 \<and> (\<forall>v\<in>set rest. dotp v v = 1) \<and> (u0, u1, u2) \<in> set rest"
proof -
  define d where "d = u0 * w0 + u1 * w1 + u2 * w2"
  define som where "som = sqrt (1 - d * d)"
  define om where "om = arcsin som"
  have ang: "sin om = som" "cos om = d" "0 < som"
    using slerp_angle [of d] d0 d1 by (simp_all add: d_def som_def om_def)
  have s0: "sin om \<noteq> 0" using ang by simp
  let ?pt = "\<lambda>i. let t = real_of_int i * (1 / real_of_int n);
                    a = sin (om * (1 - t)) / som;
                    b = sin (om * t) / som
                in (u0 * a + w0 * b, u1 * a + w1 * b, u2 * a + w2 * b)"
  let ?body = "\<lambda>i pf. Some (pf @ [?pt i])"
  let ?I = "\<lambda>i out. \<exists>rest. out = pf @ rest \<and> int (length rest) = i
              \<and> (\<forall>v\<in>set rest. dotp v v = 1) \<and> (1 \<le> i \<longrightarrow> (u0, u1, u2) \<in> set rest)"
  have unit: "dotp (?pt i) (?pt i) = 1" for i
    unfolding Let_def dotp_def ang(1) [symmetric]
    using slerp_point_unit [OF u w _ s0, of "real_of_int i * (1 / real_of_int n)"] ang(2)
    by (simp add: d_def)
  have first: "?pt 0 = (u0, u1, u2)"
    using ang by (simp add: Let_def)
  have "\<exists>t. for_up 0 (n + 1) ?body pf = Some t \<and> ?I (n + 1) t"
  proof (rule for_up_rule [where I = ?I])
    show "?I 0 pf" by simp
    show "0 \<le> n + 1" using n by simp
  next
    fix j t
    assume j: "0 \<le> j" "j < n + 1" and I: "?I j t"
    then obtain rest where r: "t = pf @ rest" "int (length rest) = j"
      "\<forall>v\<in>set rest. dotp v v = 1" "1 \<le> j \<longrightarrow> (u0, u1, u2) \<in> set rest"
      by blast
    have m: "(u0, u1, u2) \<in> set (rest @ [?pt j])"
    proof (cases "j = 0")
      case True
      then show ?thesis using first by simp
    next
      case False
      then show ?thesis using r(4) j by simp
    qed
    have "?I (j + 1) (t @ [?pt j])"
      using r unit [of j] m by (intro exI [of _ "rest @ [?pt j]"]) simp
    then show "\<exists>t'. ?body j t = Some t' \<and> ?I (j + 1) t'" by blast
  qed
  then obtain rest where "for_up 0 (n + 1) ?body pf = Some (pf @ rest)"
    "int (length rest) = n + 1" "\<forall>v\<in>set rest. dotp v v = 1" "(u0, u1, u2) \<in> set rest"
    using n by auto
  then show ?thesis
    using n unfolding slerp_def Let_def dotp_def d_def [symmetric] som_def [symmetric]
      om_def [symmetric]
    by (simp add: d_def [symmetric] som_def [symmetric] om_def [symmetric])
qed

lemma ccc_sq: "ccc * ccc = 1 / 3"
  by (simp add: ccc_def)

lemma ccc_pos: "0 < ccc"
  by (simp add: ccc_def)

lemma front_face_ok:
  assumes n: "1 \<le> n"
  shows "\<exists>vs. front_face n = Some vs \<and> int (length vs) = ppf n
           \<and> (\<forall>v\<in>set vs. dotp v v = 1) \<and> vul \<in> set vs"
proof -
  define d :: real where "d = 1 / 3"
  define som where "som = sqrt (1 - d * d)"
  define om where "om = arcsin som"
  have ang: "sin om = som" "cos om = d" "0 < som" "0 < om" "om \<le> pi / 2"
    using slerp_angle [of d] by (simp_all add: d_def som_def om_def)
  have s0: "sin om \<noteq> 0" using ang by simp
  have dul: "dotp vul vll = d" "dotp vur vlr = d"
    by (simp_all add: dotp_def vul_def vll_def vur_def vlr_def ccc_sq d_def)
  define A where "A = (\<lambda>i. sin (om * (1 - real_of_int i * (1 / real_of_int n))) / som)"
  define B where "B = (\<lambda>i. sin (om * (real_of_int i * (1 / real_of_int n))) / som)"
  let ?row = "\<lambda>i pd. slerp n
        (ccc * A i + ccc * B i, ccc * A i + - ccc * B i, ccc * A i + ccc * B i)
        (- ccc * A i + - ccc * B i, ccc * A i + - ccc * B i, ccc * A i + ccc * B i) pd"
  have body: "front_face n = for_up 0 (n + 1) ?row []"
    unfolding front_face_def Let_def dul
    unfolding som_def [symmetric]
    unfolding om_def [symmetric]
    unfolding vul_def vll_def vur_def vlr_def prod.case A_def B_def
    by (rule refl)
  have AB: "0 \<le> A i \<and> 0 \<le> B i \<and> 0 < A i + B i" if i: "0 \<le> i" "i < n + 1" for i
  proof -
    define t where "t = real_of_int i * (1 / real_of_int n)"
    have t: "0 \<le> t" "t \<le> 1" using param_range [OF n i] by (simp_all add: t_def)
    have x1: "0 \<le> om * (1 - t)" "om * (1 - t) \<le> om" using t ang(4)
      by (simp_all add: mult_le_cancel_left1)
    have x2: "0 \<le> om * t" "om * t \<le> om" using t ang(4)
      by (simp_all add: mult_le_cancel_left1)
    have a0: "0 \<le> sin (om * (1 - t))" using x1 ang(5) pi_gt_zero by (intro sin_ge_zero) linarith+
    have b0: "0 \<le> sin (om * t)" using x2 ang(5) pi_gt_zero by (intro sin_ge_zero) linarith+
    have pos: "0 < sin (om * (1 - t)) + sin (om * t)"
    proof (cases "t < 1")
      case True
      then have "0 < om * (1 - t)" using ang(4) by simp
      then have "0 < sin (om * (1 - t))" using x1 ang(5) pi_gt_zero by (intro sin_gt_zero) linarith+
      then show ?thesis using b0 by linarith
    next
      case False
      then have "t = 1" using t by simp
      then show ?thesis using ang by simp
    qed
    show ?thesis
      unfolding A_def B_def t_def [symmetric] using a0 b0 pos ang(3)
      by (simp add: add_divide_distrib [symmetric])
  qed
  have unit: "(ccc * A i + ccc * B i) * (ccc * A i + ccc * B i)
        + (ccc * A i + - ccc * B i) * (ccc * A i + - ccc * B i)
        + (ccc * A i + ccc * B i) * (ccc * A i + ccc * B i) = 1" for i
    unfolding A_def B_def ang(1) [symmetric]
    using slerp_point_unit [of ccc ccc ccc ccc "- ccc" ccc om "real_of_int i * (1 / real_of_int n)"]
      s0 ang(2)
    by (simp add: ccc_sq d_def)
  have A0: "A 0 = 1" "B 0 = 0" using ang by (simp_all add: A_def B_def)
  let ?I = "\<lambda>i vs. int (length vs) = i * (n + 1) \<and> (\<forall>v\<in>set vs. dotp v v = 1)
               \<and> (1 \<le> i \<longrightarrow> vul \<in> set vs)"
  have "\<exists>t. for_up 0 (n + 1) ?row [] = Some t \<and> ?I (n + 1) t"
  proof (rule for_up_rule [where I = ?I])
    show "?I 0 []" by simp
    show "0 \<le> n + 1" using n by simp
  next
    fix j t
    assume j: "0 \<le> j" "j < n + 1" and I: "?I j t"
    define X where "X = ccc * A j + ccc * B j"
    define Y where "Y = ccc * A j + - ccc * B j"
    have X: "0 < X" using AB [OF j] ccc_pos
      by (simp add: X_def distrib_left [symmetric])
    have XY: "X * X + Y * Y + X * X = 1" using unit [of j] by (simp add: X_def Y_def)
    have u1: "- X * - X + Y * Y + X * X = 1" using XY by simp
    have dd: "X * - X + Y * Y + X * X = Y * Y" by simp
    have XX: "0 < X * X" using X by simp
    have d0: "0 \<le> X * - X + Y * Y + X * X" unfolding dd by simp
    have d1: "X * - X + Y * Y + X * X < 1" unfolding dd using XY XX by linarith
    obtain rest where r: "slerp n (X, Y, X) (- X, Y, X) t = Some (t @ rest)"
      "int (length rest) = n + 1" "\<forall>v\<in>set rest. dotp v v = 1" "(X, Y, X) \<in> set rest"
      using slerp_ok [OF n XY u1 d0 d1, of t] by blast
    have v: "vul \<in> set (t @ rest)"
    proof (cases "j = 0")
      case True
      then have "(X, Y, X) = vul" by (simp add: X_def Y_def A0 vul_def)
      then show ?thesis using r(4) by simp
    next
      case False
      then show ?thesis using I j by simp
    qed
    have "?I (j + 1) (t @ rest)" using I r v by (auto simp: algebra_simps)
    moreover have "?row j t = Some (t @ rest)"
      using r(1) by (simp add: X_def Y_def)
    ultimately show "\<exists>t'. ?row j t = Some t' \<and> ?I (j + 1) t'" by blast
  qed
  then show ?thesis
    unfolding body using n by (auto simp: ppf_def dp1_def)
qed

lemma face_image_unit: "dotp (face_image f v) (face_image f v) = dotp v v"
  by (cases f; cases v) (simp_all add: dotp_def)

lemma face_vertices_ok:
  assumes n: "1 \<le> n"
  shows "\<exists>vs. face_vertices n = Some vs \<and> int (length vs) = 6 * ppf n
           \<and> (\<forall>v\<in>set vs. dotp v v = 1) \<and> vul \<in> set vs"
proof -
  obtain front where f: "front_face n = Some front" "int (length front) = ppf n"
    "\<forall>v\<in>set front. dotp v v = 1" "vul \<in> set front"
    using front_face_ok [OF n] by blast
  let ?vs = "concat (map (\<lambda>f. map (face_image f) front) [Front, Top, Left, Back, Bottom, Right])"
  have "face_vertices n = Some ?vs" by (simp add: face_vertices_def f(1))
  moreover have "int (length ?vs) = 6 * ppf n" using f(2) by simp
  moreover have "\<forall>v\<in>set ?vs. dotp v v = 1"
  proof
    fix v
    assume "v \<in> set ?vs"
    then obtain g w where "w \<in> set front" "v = face_image g w"
      by (auto simp del: face_image.simps)
    then show "dotp v v = 1" using f(3) by (simp add: face_image_unit del: face_image.simps)
  qed
  moreover have "face_image Front vul = vul" by (simp add: vul_def)
  then have "vul \<in> set ?vs" using f(4) by (auto simp: image_iff intro!: bexI [of _ vul])
  ultimately show ?thesis by blast
qed

lemma unit_z: 
  assumes "dotp (x, y, z) (x, y, z) = 1"
  shows "- 1 \<le> z \<and> z \<le> 1 \<and> - 1 \<le> y \<and> y \<le> 1 \<and> - 1 \<le> x \<and> x \<le> 1"
proof -
  have s: "x * x + y * y + z * z = 1" using assms by (simp add: dotp_def)
  have "z * z \<le> 1" "y * y \<le> 1" "x * x \<le> 1"
    using s by (smt (verit) zero_le_square)+
  then have "z\<^sup>2 \<le> 1" "y\<^sup>2 \<le> 1" "x\<^sup>2 \<le> 1" by (simp_all add: power2_eq_square)
  then have "\<bar>z\<bar> \<le> 1" "\<bar>y\<bar> \<le> 1" "\<bar>x\<bar> \<le> 1" by (simp_all add: abs_square_le_1)
  then show ?thesis by auto
qed

subsection \<open>The duplicated vertices\<close>

lemma magnitude_unit: "dotp v v = 1 \<Longrightarrow> magnitude v = 1"
  by (simp add: magnitude_def)

lemma rdv_ok: "0 \<le> a \<Longrightarrow> a < int (length vs) \<Longrightarrow> rdv vs a = Some (vs ! nat a) \<and> vs ! nat a \<in> set vs"
  by (simp add: rdv_def)

lemma copy_run_ok:
  assumes cnt: "0 \<le> cnt" and ip: "0 \<le> ip" and D: "0 \<le> dp1 n"
    and last: "ip + cnt * dp1 n \<le> int (length vs) + dp1 n - 1"
  shows "\<exists>rest. copy_run vs n cnt ip pd0 = Some (pd0 @ rest) \<and> int (length rest) = cnt
           \<and> set rest \<subseteq> set vs"
proof -
  let ?body = "\<lambda>(r::int) (ps, pd). do { v \<leftarrow> rdv vs ps; Some (ps + dp1 n, pd @ [v]) }"
  let ?I = "\<lambda>r (ps, pd). ps = ip + r * dp1 n
              \<and> (\<exists>rest. pd = pd0 @ rest \<and> int (length rest) = r \<and> set rest \<subseteq> set vs)"
  have "\<exists>t. for_up 0 cnt ?body (ip, pd0) = Some t \<and> ?I cnt t"
  proof (rule for_up_rule [where I = ?I])
    show "?I 0 (ip, pd0)" by simp
    show "0 \<le> cnt" by (rule cnt)
  next
    fix j t
    assume j: "0 \<le> j" "j < cnt" and I: "?I j t"
    obtain ps pd where t: "t = (ps, pd)" by (cases t) auto
    from I obtain rest where ps: "ps = ip + j * dp1 n" and r: "pd = pd0 @ rest"
      "int (length rest) = j" "set rest \<subseteq> set vs"
      by (auto simp: t)
    define jd where "jd = j * dp1 n"
    define cd where "cd = cnt * dp1 n"
    have "(j + 1) * dp1 n \<le> cnt * dp1 n" using j D by (intro mult_right_mono) auto
    then have b: "jd + dp1 n \<le> cd" by (simp add: jd_def cd_def algebra_simps)
    have jd0: "0 \<le> jd" using j D by (simp add: jd_def)
    have a: "0 \<le> ps" "ps < int (length vs)"
      using b jd0 ip last unfolding ps jd_def [symmetric] cd_def [symmetric] by linarith+
    have rd: "rdv vs ps = Some (vs ! nat ps)" "vs ! nat ps \<in> set vs"
      using rdv_ok [OF a] by blast+
    have "?I (j + 1) (ps + dp1 n, pd @ [vs ! nat ps])"
      using r rd(2) by (simp add: ps algebra_simps)
    then show "\<exists>t'. ?body j t = Some t' \<and> ?I (j + 1) t'"
      unfolding t by (simp add: rd(1))
  qed
  then show ?thesis unfolding copy_run_def by auto
qed

lemma seam_vertices_ok:
  assumes n: "1 \<le> n" and len: "int (length vs) = 6 * ppf n"
  shows "\<exists>pd. seam_vertices n vs = Some pd \<and> int (length pd) = dups n \<and> set pd \<subseteq> set vs"
proof -
  define D where "D = dp1 n"
  define m where "m = d2 n"
  define P where "P = ppf n"
  have D: "D = n + 1" by (simp add: D_def dp1_def)
  have m: "0 \<le> m" "2 * m \<le> n" using n by (simp_all add: m_def d2_pos)
  define nD where "nD = n * D"
  define mD where "mD = m * D"
  have P: "P = nD + D" by (simp add: P_def ppf_def nD_def D_def dp1_def algebra_simps)
  have nD: "0 \<le> nD" using n by (simp add: nD_def D)
  have mD: "0 \<le> mD" "mD \<le> nD"
    using m n unfolding mD_def nD_def by (auto simp: D intro: mult_right_mono)
  have e1: "(D - m) * D = P - mD" "D * D = P" "(D + 1) * m = mD + m"
    by (simp_all add: P_def ppf_def D_def mD_def algebra_simps)
  have L: "int (length vs) = 6 * P" using len by (simp add: P_def)
  have D0: "0 \<le> dp1 n" using n by (simp add: dp1_def)
  have f: "m * D = mD" "D * D = P" by (simp_all add: mD_def D_def P_def ppf_def)
  have p1: "P + m + m * dp1 n \<le> int (length vs) + dp1 n - 1"
    unfolding L D_def [symmetric] unfolding f using P D m mD nD by linarith
  have i1: "0 \<le> P + m" using P D m nD n by linarith
  obtain r1 where r1: "copy_run vs n m (P + m) [] = Some ([] @ r1)" "int (length r1) = m"
    "set r1 \<subseteq> set vs"
    using copy_run_ok [OF m(1) i1 D0 p1, of "[]"] by blast
  have p2: "3 * P + m + D * dp1 n \<le> int (length vs) + dp1 n - 1"
    unfolding L D_def [symmetric] unfolding f using P D m mD nD n by linarith
  have i2: "0 \<le> 3 * P + m" "0 \<le> D" using P D m nD n by - linarith+
  obtain r2 where r2: "copy_run vs n D (3 * P + m) r1 = Some (r1 @ r2)" "int (length r2) = D"
    "set r2 \<subseteq> set vs"
    using copy_run_ok [OF i2(2) i2(1) D0 p2, of r1] by blast
  have p3: "4 * P + (P - mD) + m + m * dp1 n \<le> int (length vs) + dp1 n - 1"
    unfolding L D_def [symmetric] unfolding f using P D m mD nD n by linarith
  have i3: "0 \<le> 4 * P + (P - mD) + m" using P D m mD nD n by linarith
  obtain r3 where r3: "copy_run vs n m (4 * P + (P - mD) + m) (r1 @ r2) = Some ((r1 @ r2) @ r3)"
    "int (length r3) = m" "set r3 \<subseteq> set vs"
    using copy_run_ok [OF m(1) i3 D0 p3, of "r1 @ r2"] by blast
  have c: "0 \<le> P + (mD + m)" "P + (mD + m) < int (length vs)"
    "0 \<le> 4 * P + (mD + m)" "4 * P + (mD + m) < int (length vs)"
    using m mD nD n unfolding L P D by auto
  obtain vc vd where v: "rdv vs (P + (mD + m)) = Some vc" "vc \<in> set vs"
    "rdv vs (4 * P + (mD + m)) = Some vd" "vd \<in> set vs"
    using rdv_ok [OF c(1,2)] rdv_ok [OF c(3,4)] by blast
  have "seam_vertices n vs = Some (r1 @ r2 @ r3 @ [vc, vc, vd, vd])"
    unfolding seam_vertices_def Let_def ntb_def m_def [symmetric] D_def [symmetric]
      P_def [symmetric] e1
    using r1(1) r2(1) r3(1) v(1,3) by simp
  moreover have "int (length (r1 @ r2 @ r3 @ [vc, vc, vd, vd])) = dups n"
    using r1(2) r2(2) r3(2) by (simp add: dups_def ntb_def m_def D_def)
  moreover have "set (r1 @ r2 @ r3 @ [vc, vc, vd, vd]) \<subseteq> set vs"
    using r1(3) r2(3) r3(3) v(2,4) by simp
  ultimately show ?thesis by blast
qed

text \<open>
  In exact arithmetic the vertex array of the constructed object, the six faces and
  the duplicates of the seam and of the poles, has \<open>vertpnts\<close> entries, every copy of
  the seam repair reads inside the six faces, and every vertex has magnitude 1.
\<close>

lemma quadsphere_vertices_unit:
  "\<exists>vs. quadsphere_vertices d = Some vs
      \<and> int (length vs) = vertpnts (quadsphere_sizes d)
      \<and> list_all (\<lambda>v. magnitude v = 1) vs"
proof -
  let ?n = "round_divs d"
  have n: "1 \<le> ?n" by (rule round_divs_ge1)
  obtain fs where fs: "face_vertices ?n = Some fs" "int (length fs) = 6 * ppf ?n"
    "\<forall>v\<in>set fs. dotp v v = 1"
    using face_vertices_ok [OF n] by blast
  obtain pd where pd: "seam_vertices ?n fs = Some pd" "int (length pd) = dups ?n"
    "set pd \<subseteq> set fs"
    using seam_vertices_ok [OF n fs(2)] by blast
  have "quadsphere_vertices d = Some (fs @ pd)"
    using fs(1) pd(1) by (simp add: quadsphere_vertices_def Let_def)
  moreover have "int (length (fs @ pd)) = vertpnts (quadsphere_sizes d)"
    using fs(2) pd(2) by (simp add: vertpnts_sizes)
  moreover have "list_all (\<lambda>v. magnitude v = 1) (fs @ pd)"
    using fs(3) pd(3) by (auto simp: list_all_iff magnitude_unit)
  ultimately show ?thesis by blast
qed

text \<open>
  C8. Let \<open>d\<close> be an argument of the constructor for which the \<open>int\<close> values of the
  size computation fit. The constructor builds the vertex array, it has \<open>vertpnts\<close>
  entries, the six faces and then the duplicates of the seam and of the two centers, and
  the magnitude of every entry differs from 1 by at most \<open>10\<^sup>-\<^sup>5\<close>. The vertices are
  those of the exact arithmetic of this model, in which the magnitude is 1.
\<close>

theorem vertices_unit_length:
  assumes int_d: "- (2 ^ 31) \<le> d" and fits: "linewrds (quadsphere_sizes d) < 2 ^ 31"
  shows "\<exists>vs. quadsphere_vertices d = Some vs
      \<and> int (length vs) = vertpnts (quadsphere_sizes d)
      \<and> (\<forall>v\<in>set vs. \<bar>magnitude v - 1\<bar> \<le> 0.00001)"
proof -
  obtain vs where vs: "quadsphere_vertices d = Some vs"
    "int (length vs) = vertpnts (quadsphere_sizes d)" "list_all (\<lambda>v. magnitude v = 1) vs"
    using quadsphere_vertices_unit [of d] by blast
  have "\<forall>v\<in>set vs. \<bar>magnitude v - 1\<bar> \<le> 0.00001"
    using vs(3) by (simp add: list_all_iff)
  then show ?thesis using vs(1,2) by blast
qed

theorem vertices_unit_length_witness:
  "- (2 ^ 31) \<le> (2::int) \<and> linewrds (quadsphere_sizes 2) < 2 ^ 31
   \<and> (\<exists>vs. quadsphere_vertices 2 = Some vs \<and> length vs = 63
         \<and> \<bar>magnitude (vs ! 0) - 1\<bar> \<le> 0.00001 \<and> \<bar>magnitude (vs ! 62) - 1\<bar> \<le> 0.00001)"
proof -
  have r: "round_divs 2 = 2" by (simp add: round_divs_cases)
  have a: "- (2 ^ 31) \<le> (2::int)" by simp
  have b: "linewrds (quadsphere_sizes 2) < 2 ^ 31"
    by (simp add: quadsphere_sizes_def Let_def r qpf_def)
  have v: "vertpnts (quadsphere_sizes 2) = 63"
    by (simp add: quadsphere_sizes_def Let_def r ppf_def dp1_def dups_def ntb_def d2_pos)
  from vertices_unit_length [OF a b] obtain vs where
    vs: "quadsphere_vertices 2 = Some vs" "int (length vs) = vertpnts (quadsphere_sizes 2)"
    "\<forall>v\<in>set vs. \<bar>magnitude v - 1\<bar> \<le> 0.00001"
    by blast
  have l: "length vs = 63" using vs(2) v by simp
  then have "vs ! 0 \<in> set vs" "vs ! 62 \<in> set vs" by simp_all
  then have "\<bar>magnitude (vs ! 0) - 1\<bar> \<le> 0.00001" "\<bar>magnitude (vs ! 62) - 1\<bar> \<le> 0.00001"
    using vs(3) by blast+
  then show ?thesis using a b vs(1) l by blast
qed


section \<open>The vertices in closed form\<close>

lemma slerp_tab:
  assumes n: "1 \<le> n"
  shows "slerp n v0 v1 pf = Some (pf @ map (\<lambda>i. slerp_pt n v0 v1 (int i)) [0..<nat (n + 1)])"
proof -
  let ?body = "\<lambda>i pf.
                let t = real_of_int i * (1 / real_of_int n);
                    a = sin (arcsin (sqrt (1 - dotp v0 v1 * dotp v0 v1)) * (1 - t))
                          / sqrt (1 - dotp v0 v1 * dotp v0 v1);
                    b = sin (arcsin (sqrt (1 - dotp v0 v1 * dotp v0 v1)) * t)
                          / sqrt (1 - dotp v0 v1 * dotp v0 v1)
                in case (v0, v1) of ((v00, v01, v02), (v10, v11, v12)) \<Rightarrow>
                     Some (pf @ [(v00 * a + v10 * b, v01 * a + v11 * b, v02 * a + v12 * b)])"
  let ?I = "\<lambda>i out. out = pf @ map (\<lambda>i. slerp_pt n v0 v1 (int i)) [0..<nat i]"
  have "\<exists>t. for_up 0 (n + 1) ?body pf = Some t \<and> ?I (n + 1) t"
  proof (rule for_up_rule [where I = ?I])
    show "?I 0 pf" by simp
    show "0 \<le> n + 1" using n by simp
  next
    fix j t
    assume j: "0 \<le> j" "j < n + 1" and I: "?I j t"
    have nj: "nat (j + 1) = Suc (nat j)" "int (nat j) = j" using j by simp_all
    have "?body j t = Some (t @ [slerp_pt n v0 v1 j])"
      by (simp add: slerp_pt_def Let_def split: prod.splits)
    moreover have "?I (j + 1) (t @ [slerp_pt n v0 v1 j])"
      using I j by (simp add: nj)
    ultimately show "\<exists>t'. ?body j t = Some t' \<and> ?I (j + 1) t'" by blast
  qed
  then show ?thesis using n by (simp add: slerp_def Let_def)
qed


lemma ppf_nat: "1 \<le> n \<Longrightarrow> nat (ppf n) = nat (n + 1) * nat (n + 1)"
  by (simp add: ppf_def dp1_def nat_mult_distrib)

lemma front_face_tab:
  assumes n: "1 \<le> n"
  shows "front_face n
    = Some (map (\<lambda>k. front_pt n (int k div (n + 1)) (int k mod (n + 1))) [0..<nat (ppf n)])"
proof -
  let ?D = "n + 1"
  let ?g = "\<lambda>k. front_pt n (int k div ?D) (int k mod ?D)"
  have dul: "dotp vur vlr = dotp vul vll"
    by (simp add: dotp_def vul_def vll_def vur_def vlr_def)
  let ?row = "\<lambda>i pd. slerp n (slerp_pt n vul vll i) (slerp_pt n vur vlr i) pd"
  have body: "front_face n = for_up 0 (n + 1) ?row []"
    by (simp add: front_face_def slerp_pt_def Let_def vul_def vll_def vur_def vlr_def dotp_def)
  let ?I = "\<lambda>i vs. vs = map ?g [0..<nat (i * ?D)]"
  have "\<exists>t. for_up 0 (n + 1) ?row [] = Some t \<and> ?I (n + 1) t"
  proof (rule for_up_rule [where I = ?I])
    show "?I 0 []" by simp
    show "0 \<le> n + 1" using n by simp
  next
    fix i t
    assume i: "0 \<le> i" "i < n + 1" and I: "?I i t"
    have r: "?row i t = Some (t @ map (\<lambda>j. front_pt n i (int j)) [0..<nat ?D])"
      unfolding front_pt_def by (rule slerp_tab [OF n])
    have e: "nat ((i + 1) * ?D) = nat (i * ?D) + nat ?D"
      using i n by (simp add: nat_add_distrib algebra_simps)
    have "map ?g [nat (i * ?D)..<nat (i * ?D) + nat ?D]
        = map (\<lambda>j. front_pt n i (int j)) [0..<nat ?D]"
    proof (rule nth_equalityI)
      show "length (map ?g [nat (i * ?D)..<nat (i * ?D) + nat ?D])
          = length (map (\<lambda>j. front_pt n i (int j)) [0..<nat ?D])"
        by simp
    next
      fix j
      assume "j < length (map ?g [nat (i * ?D)..<nat (i * ?D) + nat ?D])"
      then have j: "j < nat ?D" by simp
      then have jj: "0 \<le> int j" "int j < ?D" by auto
      have iD: "0 \<le> i * ?D" using i n by simp
      have k: "int (nat (i * ?D) + j) = i * ?D + int j" using iD by simp
      have "(i * ?D + int j) div ?D = i" "(i * ?D + int j) mod ?D = int j"
        using jj n by simp_all
      then show "map ?g [nat (i * ?D)..<nat (i * ?D) + nat ?D] ! j
          = map (\<lambda>j. front_pt n i (int j)) [0..<nat ?D] ! j"
        using j iD by (simp add: k)
    qed
    then have "t @ map (\<lambda>j. front_pt n i (int j)) [0..<nat ?D] = map ?g [0..<nat ((i + 1) * ?D)]"
      unfolding e I by (simp add: upt_add_eq_append [of 0, simplified])
    then show "\<exists>t'. ?row i t = Some t' \<and> ?I (i + 1) t'" using r by simp
  qed
  moreover have "nat ((n + 1) * ?D) = nat (ppf n)" by (simp add: ppf_def dp1_def)
  ultimately show ?thesis unfolding body by simp
qed


lemma six_blocks_nth:
  assumes l: "length front = P" and k: "k < 6 * P"
  shows "concat (map (\<lambda>f. map (face_image f) front) [Front, Top, Left, Back, Bottom, Right]) ! k
    = face_image (face_of (int (k div P))) (front ! (k mod P))"
proof -
  have P: "0 < P" using k by (cases P) auto
  define q where "q = k div P"
  define r where "r = k mod P"
  have kq: "k = q * P + r" by (simp add: q_def r_def)
  have r: "r < P" using P by (simp add: r_def)
  have "q < 6" using k P unfolding q_def by (simp add: less_mult_imp_div_less mult.commute)
  then consider "q = 0" | "q = 1" | "q = 2" | "q = 3" | "q = 4" | "q = 5" by linarith
  then show ?thesis
    unfolding q_def [symmetric] r_def [symmetric] kq
    using r l by cases (simp_all add: nth_append face_of_def)
qed

lemma face_vertices_tab:
  assumes n: "1 \<le> n"
  shows "face_vertices n = Some (map (\<lambda>k. mesh_vertex n (int k)) [0..<nat (6 * ppf n)])"
proof -
  let ?P = "nat (ppf n)"
  let ?g = "\<lambda>k. front_pt n (int k div (n + 1)) (int k mod (n + 1))"
  let ?front = "map ?g [0..<?P]"
  let ?vs = "concat (map (\<lambda>f. map (face_image f) ?front) [Front, Top, Left, Back, Bottom, Right])"
  have pp: "0 \<le> ppf n" by (simp add: ppf_def)
  have l6: "nat (6 * ppf n) = 6 * ?P" using pp by simp
  have fv: "face_vertices n = Some ?vs"
    by (simp add: face_vertices_def front_face_tab [OF n])
  have "?vs = map (\<lambda>k. mesh_vertex n (int k)) [0..<nat (6 * ppf n)]"
  proof (rule nth_equalityI)
    show "length ?vs = length (map (\<lambda>k. mesh_vertex n (int k)) [0..<nat (6 * ppf n)])"
      unfolding l6 by simp
  next
    fix k
    assume "k < length ?vs"
    then have k: "k < 6 * ?P" by simp
    then have P: "0 < ?P" by (cases ?P) auto
    have r: "k mod ?P < ?P" using P by simp
    have i1: "int (k div ?P) = int k div ppf n" "int (k mod ?P) = int k mod ppf n"
      using pp by (simp_all add: zdiv_int zmod_int)
    have "?vs ! k = face_image (face_of (int (k div ?P))) (?front ! (k mod ?P))"
      by (rule six_blocks_nth) (simp, rule k)
    also have "\<dots> = mesh_vertex n (int k)"
      using r by (simp add: mesh_vertex_def Let_def i1 dp1_def)
    finally show "?vs ! k = map (\<lambda>k. mesh_vertex n (int k)) [0..<nat (6 * ppf n)] ! k"
      using k unfolding l6 by simp
  qed
  then show ?thesis using fv by simp
qed

lemma face_vertices_nth:
  assumes n: "1 \<le> n" and fv: "face_vertices n = Some vs" and k: "0 \<le> k" "k < 6 * ppf n"
  shows "vs ! nat k = mesh_vertex n k"
proof -
  have "vs = map (\<lambda>k. mesh_vertex n (int k)) [0..<nat (6 * ppf n)]"
    using face_vertices_tab [OF n] fv by simp
  then show ?thesis using k by simp
qed

lemma stored_signs_nth:
  assumes n: "1 \<le> n" and k: "0 \<le> k" "k < 6 * ppf n"
  shows "stored_signs n ! nat k = face_neg (face_of (k div ppf n))"
proof -
  let ?P = "nat (ppf n)"
  have pp: "0 \<le> ppf n" by (simp add: ppf_def)
  have kk: "nat k < 6 * ?P" using k pp by simp
  then have P: "0 < ?P" by (cases ?P) auto
  define q where "q = nat k div ?P"
  define r where "r = nat k mod ?P"
  have kq: "nat k = q * ?P + r" by (simp add: q_def r_def)
  have r: "r < ?P" using P by (simp add: r_def)
  have i1: "k div ppf n = int q" using pp k by (simp add: q_def zdiv_int)
  have "q < 6" using kk P unfolding q_def by (simp add: less_mult_imp_div_less mult.commute)
  then consider "q = 0" | "q = 1" | "q = 2" | "q = 3" | "q = 4" | "q = 5" by linarith
  then show ?thesis
    unfolding i1 kq stored_signs_def
    using r by cases (simp_all add: nth_append face_of_def)
qed

lemma slerp_pt_eq:
  assumes "dotp (a0, a1, a2) (b0, b1, b2) = dd" and "sqrt (1 - dd * dd) = som"
    and "arcsin som = om" and "real_of_int i * (1 / real_of_int n) = t"
  shows "slerp_pt n (a0, a1, a2) (b0, b1, b2) i
    = (a0 * (sin (om * (1 - t)) / som) + b0 * (sin (om * t) / som),
       a1 * (sin (om * (1 - t)) / som) + b1 * (sin (om * t) / som),
       a2 * (sin (om * (1 - t)) / som) + b2 * (sin (om * t) / som))"
  unfolding slerp_pt_def Let_def assms prod.case by (rule refl)

lemma slerp_pt_ends:
  assumes n: "1 \<le> n" and d: "0 \<le> dotp v0 v1" "dotp v0 v1 < 1"
  shows "slerp_pt n v0 v1 0 = v0" and "slerp_pt n v0 v1 n = v1"
proof -
  obtain a0 a1 a2 where v0: "v0 = (a0, a1, a2)" by (cases v0)
  obtain b0 b1 b2 where v1: "v1 = (b0, b1, b2)" by (cases v1)
  define som where "som = sqrt (1 - dotp v0 v1 * dotp v0 v1)"
  define om where "om = arcsin som"
  have ang: "sin om = som" "0 < som"
    unfolding om_def som_def by (rule slerp_angle(1) [OF d], rule slerp_angle(3) [OF d])
  have t0: "real_of_int 0 * (1 / real_of_int n) = 0" by simp
  have t1: "real_of_int n * (1 / real_of_int n) = 1" using n by simp
  show "slerp_pt n v0 v1 0 = v0"
    unfolding v0 v1 slerp_pt_eq [OF refl som_def [unfolded v0 v1, symmetric] om_def [symmetric] t0]
    using ang by simp
  show "slerp_pt n v0 v1 n = v1"
    unfolding v0 v1 slerp_pt_eq [OF refl som_def [unfolded v0 v1, symmetric] om_def [symmetric] t1]
    using ang by simp
qed

lemma corner_dots:
  "dotp vul vll = 1 / 3" "dotp vur vlr = 1 / 3" "dotp vul vur = 1 / 3" "dotp vll vlr = 1 / 3"
  by (simp_all add: dotp_def vul_def vll_def vur_def vlr_def ccc_sq)

lemma front_pt_corners:
  assumes n: "1 \<le> n"
  shows "front_pt n 0 0 = vul" and "front_pt n 0 n = vur"
    and "front_pt n n 0 = vll" and "front_pt n n n = vlr"
proof -
  have a: "slerp_pt n vul vll 0 = vul" "slerp_pt n vul vll n = vll"
    "slerp_pt n vur vlr 0 = vur" "slerp_pt n vur vlr n = vlr"
    using slerp_pt_ends [OF n, of vul vll] slerp_pt_ends [OF n, of vur vlr]
    by (simp_all add: corner_dots)
  show "front_pt n 0 0 = vul" "front_pt n 0 n = vur" "front_pt n n 0 = vll" "front_pt n n n = vlr"
    unfolding front_pt_def a
    using slerp_pt_ends [OF n, of vul vur] slerp_pt_ends [OF n, of vll vlr]
    by (simp_all add: corner_dots)
qed

lemma front_pt_center:
  assumes n: "n = 2 * m" "1 \<le> m"
  shows "front_pt n m m = (0, 0, 1)"
proof -
  define d :: real where "d = 1 / 3"
  define som where "som = sqrt (1 - d * d)"
  define om where "om = arcsin som"
  have ang: "sin om = som" "cos om = d" "0 < som" "0 < om" "om \<le> pi / 2"
    using slerp_angle [of d] by (simp_all add: d_def som_def om_def)
  have t: "real_of_int m * (1 / real_of_int n) = 1 / 2" using n by simp
  define A where "A = sin (om * (1 / 2)) / som"
  have "0 < om * (1 / 2)" "om * (1 / 2) < pi" using ang pi_gt_zero by auto
  then have "0 < sin (om * (1 / 2))" by (rule sin_gt_zero)
  then have A: "0 < A" using ang(3) by (simp add: A_def)
  define X where "X = 2 * (ccc * A)"
  have X: "0 < X" using A ccc_pos by (simp add: X_def)
  have e: "om * (1 - 1 / 2) = om * (1 / 2)" by simp
  have r0: "slerp_pt n vul vll m = (X, 0, X)"
    unfolding vul_def vll_def
      slerp_pt_eq [OF corner_dots(1) [unfolded vul_def vll_def, folded d_def]
        som_def [symmetric] om_def [symmetric] t]
    unfolding e A_def [symmetric] by (simp add: X_def)
  have r1: "slerp_pt n vur vlr m = (- X, 0, X)"
    unfolding vur_def vlr_def
      slerp_pt_eq [OF corner_dots(2) [unfolded vur_def vlr_def, folded d_def]
        som_def [symmetric] om_def [symmetric] t]
    unfolding e A_def [symmetric] by (simp add: X_def)
  have c: "ccc * ccc + ccc * ccc + ccc * ccc = 1" "ccc * ccc + - ccc * - ccc + ccc * ccc = 1"
    "ccc * ccc + ccc * - ccc + ccc * ccc = cos om" 
    by (simp_all add: ccc_sq ang d_def)
  have s0: "sin om \<noteq> 0" using ang by simp
  have "(ccc * A + ccc * A) * (ccc * A + ccc * A) + (ccc * A + - ccc * A) * (ccc * A + - ccc * A)
      + (ccc * A + ccc * A) * (ccc * A + ccc * A) = 1"
    using slerp_point_unit [OF c s0, of "1 / 2"] unfolding e ang(1) A_def [symmetric] .
  then have "X * X + X * X = 1" by (simp add: X_def)
  then have "(sqrt 2 * X)\<^sup>2 = 1" by (simp add: power2_eq_square algebra_simps)
  moreover have "0 \<le> sqrt 2 * X" using X by simp
  ultimately have sx: "sqrt 2 * X = 1" by (simp add: power2_eq_1_iff)
  have s45: "sin (pi / 2 * (1 / 2)) = sqrt 2 / 2"
    using sin_45 by (simp add: field_simps)
  have dz: "dotp (X, 0, X) (- X, 0, X) = 0" by (simp add: dotp_def)
  have e2: "pi / 2 * (1 - 1 / 2) = pi / 2 * (1 / 2)" by simp
  have sq1: "sqrt (1 - 0 * 0) = (1::real)" by simp
  have as1: "arcsin 1 = pi / 2" by simp
  have "front_pt n m m = (0, 0, X * (sqrt 2 / 2) + X * (sqrt 2 / 2))"
    unfolding front_pt_def r0 r1 slerp_pt_eq [OF dz sq1 as1 t] e2 s45 by simp
  also have "X * (sqrt 2 / 2) + X * (sqrt 2 / 2) = sqrt 2 * X" by simp
  finally show ?thesis unfolding sx .
qed

subsection \<open>Fisheye and equiangular coordinates\<close>

lemma CLIP_id: "0 \<le> x \<Longrightarrow> x \<le> 1 \<Longrightarrow> CLIP x = x"
  by (simp add: CLIP_def ninv_def pinv_def)

lemma amax_pi: "amaxfish = pi" "amaxsph = pi"
  by (simp_all add: amaxfish_def amaxsph_def DEG2RAD_def Pi_def)

lemma abs_le_sqrt_sum: "\<bar>x\<bar> \<le> sqrt (x * x + y * y)"
proof -
  have "\<bar>x\<bar>\<^sup>2 \<le> x * x + y * y" by (simp add: power2_eq_square)
  then show ?thesis by (rule real_le_rsqrt)
qed

lemma sx_sy_range: "\<bar>sx v\<bar> \<le> 1 \<and> \<bar>sy v\<bar> \<le> 1"
proof -
  obtain x y z where v: "v = (x, y, z)" by (cases v)
  have a: "\<bar>x\<bar> \<le> sqrt (x * x + y * y)" by (rule abs_le_sqrt_sum)
  have b: "\<bar>y\<bar> \<le> sqrt (x * x + y * y)"
    using abs_le_sqrt_sum [of y x] by (simp add: add.commute)
  define r where "r = sqrt (x * x + y * y)"
  show ?thesis
  proof (cases "r \<ge> 0.0001")
    case True
    then have r: "0 < r" by simp
    have "\<bar>- x / r\<bar> \<le> 1" "\<bar>- y / r\<bar> \<le> 1"
      using a b r unfolding r_def [symmetric] by (simp_all add: divide_le_eq)
    then show ?thesis
      using True by (simp add: sx_def sy_def sxa_def sya_def sza_def v r_def)
  next
    case False
    then show ?thesis by (simp add: sx_def sy_def sza_def v r_def)
  qed
qed

lemma half_plus_range:
  fixes s d :: real
  assumes "0 \<le> s" and "s \<le> 1 / 2" and "\<bar>d\<bar> \<le> 1"
  shows "0 \<le> 1 / 2 + s * d \<and> 1 / 2 + s * d \<le> 1"
proof -
  have "\<bar>s * d\<bar> \<le> (1 / 2) * 1"
    unfolding abs_mult using assms by (intro mult_mono) auto
  then show ?thesis by (auto simp: abs_le_iff)
qed

lemma za_range:
  assumes "dotp v v = 1"
  shows "0 \<le> za v \<and> za v \<le> pi"
proof -
  obtain x y z where v: "v = (x, y, z)" by (cases v)
  have "- 1 \<le> z \<and> z \<le> 1" using unit_z [of x y z] assms by (simp add: v)
  then show ?thesis by (simp add: za_def v arccos_lbound arccos_ubound)
qed

lemma tc_fish_valid:
  assumes u: "dotp v v = 1"
  shows "fst (tc_fish ng v s) =
           (0.5 + 0.5 * sqrt (0.5 * (1 - cza v)) * sx v, 0.5 + 0.5 * sqrt (0.5 * (1 - cza v)) * sy v)
         \<and> 0 \<le> fst (fst (tc_fish ng v s)) \<and> fst (fst (tc_fish ng v s)) \<le> 1
         \<and> 0 \<le> snd (fst (tc_fish ng v s)) \<and> snd (fst (tc_fish ng v s)) \<le> 1"
proof -
  obtain x y z where v: "v = (x, y, z)" by (cases v)
  have z: "- 1 \<le> z" "z \<le> 1" using unit_z [of x y z] u by (simp_all add: v)
  define k where "k = 0.5 * sqrt (0.5 * (1 - cza v))"
  have "sqrt (0.5 * (1 - z)) \<le> sqrt 1" using z by (intro real_sqrt_le_mono) simp
  then have k: "0 \<le> k" "k \<le> 1 / 2" using z by (simp_all add: k_def cza_def v)
  have rx: "0 \<le> 1 / 2 + k * sx v \<and> 1 / 2 + k * sx v \<le> 1"
    using half_plus_range [OF k] sx_sy_range [of v] by blast
  have ry: "0 \<le> 1 / 2 + k * sy v \<and> 1 / 2 + k * sy v \<le> 1"
    using half_plus_range [OF k] sx_sy_range [of v] by blast
  have nb: "\<not> za v > amaxfish" using za_range [OF u] by (simp add: amax_pi)
  have "fst (tc_fish ng v s) = (CLIP (1 / 2 + k * sx v), CLIP (1 / 2 + k * sy v))"
    using nb by (simp add: tc_fish_def Let_def k_def)
  also have "\<dots> = (1 / 2 + k * sx v, 1 / 2 + k * sy v)"
    using rx ry by (simp add: CLIP_id)
  finally show ?thesis using rx ry by (simp add: k_def)
qed

lemma tc_angl_valid:
  assumes u: "dotp v v = 1"
  shows "fst (tc_angl ng v s) =
           (0.5 + 0.5 * za v / Pi * sx v, 0.5 + 0.5 * za v / Pi * sy v)
         \<and> 0 \<le> fst (fst (tc_angl ng v s)) \<and> fst (fst (tc_angl ng v s)) \<le> 1
         \<and> 0 \<le> snd (fst (tc_angl ng v s)) \<and> snd (fst (tc_angl ng v s)) \<le> 1"
proof -
  define k where "k = 0.5 * za v / Pi"
  have zr: "0 \<le> za v" "za v \<le> pi" using za_range [OF u] by auto
  have k: "0 \<le> k" "k \<le> 1 / 2" using zr by (simp_all add: k_def Pi_def)
  have rx: "0 \<le> 1 / 2 + k * sx v \<and> 1 / 2 + k * sx v \<le> 1"
    using half_plus_range [OF k] sx_sy_range [of v] by blast
  have ry: "0 \<le> 1 / 2 + k * sy v \<and> 1 / 2 + k * sy v \<le> 1"
    using half_plus_range [OF k] sx_sy_range [of v] by blast
  have nb: "\<not> za v > amaxsph" using zr by (simp add: amax_pi)
  have "fst (tc_angl ng v s) = (CLIP (1 / 2 + k * sx v), CLIP (1 / 2 + k * sy v))"
    using nb by (simp add: tc_angl_def Let_def k_def)
  also have "\<dots> = (1 / 2 + k * sx v, 1 / 2 + k * sy v)"
    using rx ry by (simp add: CLIP_id)
  finally show ?thesis using rx ry by (simp add: k_def)
qed

lemma vertex_TCs_fields:
  "rects (fst (vertex_TCs w ng v s0)) = fst (tc_rect w v s0)"
  "fishs (fst (vertex_TCs w ng v s0)) = fst (tc_fish ng v (snd (tc_rect w v s0)))"
  "equis (fst (vertex_TCs w ng v s0)) = tc_equi ng v"
  "cylis (fst (vertex_TCs w ng v s0)) = fst (tc_cyli w ng v (tc_equi ng v))"
  "angls (fst (vertex_TCs w ng v s0))
     = fst (tc_angl ng v (snd (tc_cyli w ng v (tc_equi ng v))))"
  "mercs (fst (vertex_TCs w ng v s0))
     = fst (tc_merc v (tc_equi ng v) (snd (tc_angl ng v (snd (tc_cyli w ng v (tc_equi ng v))))))"
  "sters (fst (vertex_TCs w ng v s0))
     = fst (tc_ster v (snd (tc_merc v (tc_equi ng v)
              (snd (tc_angl ng v (snd (tc_cyli w ng v (tc_equi ng v))))))))"
  by (simp_all add: vertex_TCs_def Let_def split: prod.splits)

lemma length_stored_signs: "length (stored_signs n) = 6 * nat (ppf n)"
  by (simp add: stored_signs_def)

lemma face_TCs_ok:
  assumes len: "int (length vs) = 6 * ppf n"
  shows "\<exists>tcs s. face_TCs w n vs = Some ([], tcs, s) \<and> length tcs = length vs
           \<and> (\<forall>i<length vs. \<exists>s'. tcs ! i = fst (vertex_TCs w (stored_signs n ! i) (vs ! i) s'))"
proof -
  let ?sg = "stored_signs n"
  let ?zs = "zip vs ?sg"
  have lz: "length ?zs = length vs" using len by (simp add: length_stored_signs)
  let ?body = "\<lambda>(ps, tcs, s).
          (case ps of
             [] \<Rightarrow> None
           | (v, ng) # ps' \<Rightarrow>
               (case vertex_TCs w ng v s of (tc, s') \<Rightarrow> Some (ps', tcs @ [tc], s')))"
  let ?I = "\<lambda>k (ps, tcs, s::real). ps = drop (nat k) ?zs \<and> length tcs = nat k
              \<and> (\<forall>i<nat k. \<exists>s'. tcs ! i = fst (vertex_TCs w (?sg ! i) (vs ! i) s'))"
  have "\<exists>t. repeat (6 * ppf n) ?body (?zs, [], 1 / real_of_int n) = Some t \<and> ?I (6 * ppf n) t"
  proof (rule repeat_rule [where I = ?I])
    show "?I 0 (?zs, [], 1 / real_of_int n)" by simp
    show "0 \<le> 6 * ppf n" by (simp add: ppf_def)
  next
    fix k t
    assume k: "0 \<le> k" "k < 6 * ppf n" and I: "?I k t"
    obtain ps tcs s where t: "t = (ps, tcs, s)" by (cases t) auto
    have kl: "nat k < length vs" using k len by simp
    then have kz: "nat k < length ?zs" using lz by simp
    have zk: "?zs ! nat k = (vs ! nat k, ?sg ! nat k)" using kz by simp
    from I have ps: "ps = (vs ! nat k, ?sg ! nat k) # drop (Suc (nat k)) ?zs"
      and lt: "length tcs = nat k"
      and all: "\<forall>i<nat k. \<exists>s'. tcs ! i = fst (vertex_TCs w (?sg ! i) (vs ! i) s')"
      using kz zk by (simp_all add: t Cons_nth_drop_Suc [symmetric])
    obtain tc s' where vt: "vertex_TCs w (?sg ! nat k) (vs ! nat k) s = (tc, s')"
      by (cases "vertex_TCs w (?sg ! nat k) (vs ! nat k) s") auto
    have nk: "nat (k + 1) = Suc (nat k)" using k by simp
    have "\<forall>i<Suc (nat k). \<exists>s'. (tcs @ [tc]) ! i = fst (vertex_TCs w (?sg ! i) (vs ! i) s')"
    proof (intro allI impI)
      fix i
      assume "i < Suc (nat k)"
      then consider "i < nat k" | "i = nat k" by linarith
      then show "\<exists>s'. (tcs @ [tc]) ! i = fst (vertex_TCs w (?sg ! i) (vs ! i) s')"
      proof cases
        case 1
        then show ?thesis using all lt by (simp add: nth_append)
      next
        case 2
        then show ?thesis using lt vt by (auto simp: nth_append intro!: exI [of _ s])
      qed
    qed
    then have "?I (k + 1) (drop (Suc (nat k)) ?zs, tcs @ [tc], s')"
      using lt by (simp add: nk)
    moreover have "?body t = Some (drop (Suc (nat k)) ?zs, tcs @ [tc], s')"
      unfolding t ps by (simp add: vt)
    ultimately show "\<exists>t'. ?body t = Some t' \<and> ?I (k + 1) t'" by blast
  qed
  then obtain ps tcs s where
    r: "repeat (6 * ppf n) ?body (?zs, [], 1 / real_of_int n) = Some (ps, tcs, s)"
    and I: "?I (6 * ppf n) (ps, tcs, s)"
    by auto
  have nl: "nat (6 * ppf n) = length vs" using len by simp
  from I have "ps = []" "length tcs = length vs"
    "\<forall>i<length vs. \<exists>s'. tcs ! i = fst (vertex_TCs w (?sg ! i) (vs ! i) s')"
    unfolding nl using lz by simp_all
  then show ?thesis using r unfolding face_TCs_def by blast
qed

lemma ppf_pos: "1 \<le> n \<Longrightarrow> 0 < ppf n"
  by (simp add: ppf_def dp1_def)

text \<open>
  C10. At every argument of the constructor, every vertex \<open>vs ! i\<close> of the six faces
  has its angle \<open>za\<close> in \<open>[0, \<pi>]\<close>; the limits \<open>amaxfish\<close> and \<open>amaxsph\<close> are \<open>\<pi>\<close>;
  so the test \<open>za > amaxfish\<close> and the test \<open>za > amaxsph\<close> fail, and the fisheye and
  equiangular coordinates stored for the vertex are those of the other branch, without
  clipping, and lie in \<open>[0, 1]\<close>.
\<close>

theorem fisheye_equiangular_valid:
  "\<exists>vs tcs.
      face_vertices (round_divs d) = Some vs
    \<and> quadsphere_TCs fovw d = Some tcs
    \<and> int (length vs) = 6 * ppf (round_divs d)
    \<and> length tcs = length vs
    \<and> amaxfish = pi \<and> amaxsph = pi
    \<and> (\<forall>i<length vs.
          0 \<le> za (vs ! i) \<and> za (vs ! i) \<le> pi
        \<and> \<not> za (vs ! i) > amaxfish \<and> \<not> za (vs ! i) > amaxsph
        \<and> fishs (tcs ! i) =
            (0.5 + 0.5 * sqrt (0.5 * (1 - cza (vs ! i))) * sx (vs ! i),
             0.5 + 0.5 * sqrt (0.5 * (1 - cza (vs ! i))) * sy (vs ! i))
        \<and> angls (tcs ! i) =
            (0.5 + 0.5 * za (vs ! i) / Pi * sx (vs ! i),
             0.5 + 0.5 * za (vs ! i) / Pi * sy (vs ! i))
        \<and> 0 \<le> fst (fishs (tcs ! i)) \<and> fst (fishs (tcs ! i)) \<le> 1
        \<and> 0 \<le> snd (fishs (tcs ! i)) \<and> snd (fishs (tcs ! i)) \<le> 1
        \<and> 0 \<le> fst (angls (tcs ! i)) \<and> fst (angls (tcs ! i)) \<le> 1
        \<and> 0 \<le> snd (angls (tcs ! i)) \<and> snd (angls (tcs ! i)) \<le> 1)"
proof -
  let ?n = "round_divs d"
  have n: "1 \<le> ?n" by (rule round_divs_ge1)
  obtain vs where vs: "face_vertices ?n = Some vs" "int (length vs) = 6 * ppf ?n"
    "\<forall>v\<in>set vs. dotp v v = 1"
    using face_vertices_ok [OF n] by blast
  obtain tcs s where tcs: "face_TCs fovw ?n vs = Some ([], tcs, s)" "length tcs = length vs"
    "\<forall>i<length vs. \<exists>s'. tcs ! i
        = fst (vertex_TCs fovw (stored_signs (round_divs d) ! i) (vs ! i) s')"
    using face_TCs_ok [OF vs(2)] by blast
  have q: "quadsphere_TCs fovw d = Some tcs"
    using vs(1) tcs(1) by (simp add: quadsphere_TCs_def Let_def)
  have each: "0 \<le> za (vs ! i) \<and> za (vs ! i) \<le> pi
        \<and> \<not> za (vs ! i) > amaxfish \<and> \<not> za (vs ! i) > amaxsph
        \<and> fishs (tcs ! i) =
            (0.5 + 0.5 * sqrt (0.5 * (1 - cza (vs ! i))) * sx (vs ! i),
             0.5 + 0.5 * sqrt (0.5 * (1 - cza (vs ! i))) * sy (vs ! i))
        \<and> angls (tcs ! i) =
            (0.5 + 0.5 * za (vs ! i) / Pi * sx (vs ! i),
             0.5 + 0.5 * za (vs ! i) / Pi * sy (vs ! i))
        \<and> 0 \<le> fst (fishs (tcs ! i)) \<and> fst (fishs (tcs ! i)) \<le> 1
        \<and> 0 \<le> snd (fishs (tcs ! i)) \<and> snd (fishs (tcs ! i)) \<le> 1
        \<and> 0 \<le> fst (angls (tcs ! i)) \<and> fst (angls (tcs ! i)) \<le> 1
        \<and> 0 \<le> snd (angls (tcs ! i)) \<and> snd (angls (tcs ! i)) \<le> 1"
    if i: "i < length vs" for i
  proof -
    have u: "dotp (vs ! i) (vs ! i) = 1" using vs(3) i by simp
    define ng where "ng = stored_signs (round_divs d) ! i"
    obtain s' where s': "tcs ! i = fst (vertex_TCs fovw ng (vs ! i) s')"
      using tcs(3) i unfolding ng_def by blast
    have zr: "0 \<le> za (vs ! i) \<and> za (vs ! i) \<le> pi" by (rule za_range [OF u])
    have f: "fishs (tcs ! i) = fst (tc_fish ng (vs ! i) (snd (tc_rect fovw (vs ! i) s')))"
      unfolding s' by (rule vertex_TCs_fields)
    have a: "angls (tcs ! i)
        = fst (tc_angl ng (vs ! i) (snd (tc_cyli fovw ng (vs ! i) (tc_equi ng (vs ! i)))))"
      unfolding s' by (rule vertex_TCs_fields)
    have nb: "\<not> za (vs ! i) > amaxfish" "\<not> za (vs ! i) > amaxsph"
      using zr by (simp_all add: amax_pi)
    show ?thesis
      unfolding f a
      using zr nb tc_fish_valid [OF u, of ng "snd (tc_rect fovw (vs ! i) s')"]
        tc_angl_valid [OF u, of ng "snd (tc_cyli fovw ng (vs ! i) (tc_equi ng (vs ! i)))"]
      by blast
  qed
  show ?thesis
    using vs(1,2) q tcs(2) each amax_pi by blast
qed

theorem fisheye_equiangular_valid_witness:
  "\<exists>vs tcs.
      face_vertices 2 = Some vs \<and> quadsphere_TCs 90 2 = Some tcs \<and> length vs = 54
    \<and> \<not> za (vs ! 0) > amaxfish \<and> \<not> za (vs ! 0) > amaxsph
    \<and> 0 \<le> fst (fishs (tcs ! 0)) \<and> fst (fishs (tcs ! 0)) \<le> 1
    \<and> 0 \<le> snd (angls (tcs ! 0)) \<and> snd (angls (tcs ! 0)) \<le> 1"
proof -
  have r2: "round_divs 2 = 2" by (simp add: round_divs_cases)
  have p2: "6 * ppf 2 = 54" by (simp add: ppf_def dp1_def)
  from fisheye_equiangular_valid [of 2 90] obtain vs tcs where
    a: "face_vertices 2 = Some vs" "quadsphere_TCs 90 2 = Some tcs" "int (length vs) = 54"
    and b: "\<forall>i<length vs.
          0 \<le> za (vs ! i) \<and> za (vs ! i) \<le> pi
        \<and> \<not> za (vs ! i) > amaxfish \<and> \<not> za (vs ! i) > amaxsph
        \<and> fishs (tcs ! i) =
            (0.5 + 0.5 * sqrt (0.5 * (1 - cza (vs ! i))) * sx (vs ! i),
             0.5 + 0.5 * sqrt (0.5 * (1 - cza (vs ! i))) * sy (vs ! i))
        \<and> angls (tcs ! i) =
            (0.5 + 0.5 * za (vs ! i) / Pi * sx (vs ! i),
             0.5 + 0.5 * za (vs ! i) / Pi * sy (vs ! i))
        \<and> 0 \<le> fst (fishs (tcs ! i)) \<and> fst (fishs (tcs ! i)) \<le> 1
        \<and> 0 \<le> snd (fishs (tcs ! i)) \<and> snd (fishs (tcs ! i)) \<le> 1
        \<and> 0 \<le> fst (angls (tcs ! i)) \<and> fst (angls (tcs ! i)) \<le> 1
        \<and> 0 \<le> snd (angls (tcs ! i)) \<and> snd (angls (tcs ! i)) \<le> 1"
    unfolding r2 p2 by blast
  have l: "length vs = 54" using a(3) by simp
  then have "0 < length vs" by simp
  with b have "\<not> za (vs ! 0) > amaxfish \<and> \<not> za (vs ! 0) > amaxsph
    \<and> 0 \<le> fst (fishs (tcs ! 0)) \<and> fst (fishs (tcs ! 0)) \<le> 1
    \<and> 0 \<le> snd (angls (tcs ! 0)) \<and> snd (angls (tcs ! 0)) \<le> 1"
    by blast
  then show ?thesis using a(1,2) l by blast
qed


subsection \<open>The rectilinear coordinates\<close>

lemma sza_cza:
  assumes u: "dotp v v = 1"
  shows "sza v = sin (za v)" and "cza v = cos (za v)" and "sza v / cza v = tan (za v)"
proof -
  obtain x y z where v: "v = (x, y, z)" by (cases v)
  have z: "- 1 \<le> z" "z \<le> 1" using unit_z [of x y z] u by (simp_all add: v)
  have "x * x + y * y = 1 - z\<^sup>2" using u by (simp add: dotp_def v power2_eq_square)
  then show s: "sza v = sin (za v)" using z by (simp add: sza_def za_def v sin_arccos)
  show c: "cza v = cos (za v)" using z by (simp add: cza_def za_def v)
  show "sza v / cza v = tan (za v)" unfolding s c tan_def ..
qed

lemma amaxrect_range:
  assumes "0 < fovw" and "fovw < 180"
  shows "0 < amaxrect fovw" and "amaxrect fovw < pi / 2" and "0 < tmaxrect fovw"
proof -
  show a: "0 < amaxrect fovw" using assms by (simp add: amaxrect_def DEG2RAD_def Pi_def)
  have "fovw * pi < 180 * pi" using assms by simp
  then show b: "amaxrect fovw < pi / 2" by (simp add: amaxrect_def DEG2RAD_def Pi_def)
  show "0 < tmaxrect fovw" unfolding tmaxrect_def using a b by (rule tan_gt_zero)
qed

lemma ccc_bounds: "1 / 2 \<le> ccc" "ccc < 1 / sqrt 2" "ccc \<le> 1" "0 < ccc"
proof -
  have "(1 / 2 :: real)\<^sup>2 \<le> 1 / 3" by (simp add: power2_eq_square)
  then show "1 / 2 \<le> ccc" unfolding ccc_def by (rule real_le_rsqrt)
  have "sqrt (1 / 3) < sqrt (1 / 2)" by (simp del: real_sqrt_divide add: real_sqrt_less_iff)
  then show "ccc < 1 / sqrt 2" by (simp add: ccc_def real_sqrt_divide)
  have "sqrt (1 / 3) \<le> sqrt 1" by (simp del: real_sqrt_divide real_sqrt_one)
  then show "ccc \<le> 1" by (simp add: ccc_def)
  show "0 < ccc" by (simp add: ccc_def)
qed

lemma za_vul: "za vul > pi / 4" "za vul \<le> pi / 3"
proof -
  have "arccos (1 / sqrt 2) < arccos ccc"
    using ccc_bounds by (intro arccos_less_arccos) auto
  then show "za vul > pi / 4" by (simp add: za_def vul_def arccos_one_over_sqrt_2)
  have "arccos ccc \<le> arccos (1 / 2)"
    using ccc_bounds by (intro arccos_le_arccos) auto
  then show "za vul \<le> pi / 3" by (simp add: za_def vul_def)
qed

lemma sza_vul: "sza vul = sqrt (2 / 3)"
  by (simp add: sza_def vul_def ccc_sq del: real_sqrt_divide)

lemma sqrt_facts:
  "sqrt (2 / 3) / sqrt (1 / 3) = sqrt 2" "sqrt (1 / 3) / sqrt (2 / 3) = sqrt (1 / 2)"
  "sqrt 2 * sqrt (1 / 2) = 1" "(0.0001 :: real) \<le> sqrt (2 / 3)"
proof -
  show "sqrt (2 / 3) / sqrt (1 / 3) = sqrt 2"
    unfolding real_sqrt_divide [symmetric] by simp
  show "sqrt (1 / 3) / sqrt (2 / 3) = sqrt (1 / 2)"
    unfolding real_sqrt_divide [symmetric] by simp
  show "sqrt 2 * sqrt (1 / 2) = 1"
    unfolding real_sqrt_mult [symmetric] by simp
  have "(0.0001 :: real)\<^sup>2 \<le> 2 / 3" by (simp add: power2_eq_square)
  then show "(0.0001 :: real) \<le> sqrt (2 / 3)" by (rule real_le_rsqrt)
qed

lemma sx_vul: "sx vul = - sqrt (1 / 2)" "sy vul = - sqrt (1 / 2)"
proof -
  have a: "sxa vul = - sqrt (1 / 3)" "sya vul = sqrt (1 / 3)"
    by (simp_all add: sxa_def sya_def vul_def ccc_def)
  have "sx vul = - sqrt (1 / 3) / sqrt (2 / 3)" "sy vul = - sqrt (1 / 3) / sqrt (2 / 3)"
    unfolding sx_def sy_def sza_vul a using sqrt_facts(4) by simp_all
  then show "sx vul = - sqrt (1 / 2)" "sy vul = - sqrt (1 / 2)"
    using sqrt_facts(2) by (simp_all del: real_sqrt_divide)
qed

lemma amaxrect_90: "amaxrect 90 = pi / 4" "tmaxrect 90 = 1"
  by (simp_all add: amaxrect_def tmaxrect_def DEG2RAD_def Pi_def tan_45)


section \<open>Properties of the seam repair of the coordinate sets\<close>

subsection \<open>One call and one run\<close>

lemma rdf_ok: "0 \<le> a \<Longrightarrow> a < int (length B) \<Longrightarrow> rdf B a = Some (B ! nat a)"
  by (simp add: rdf_def)

lemma wrf_ok: "0 \<le> a \<Longrightarrow> a < int (length B) \<Longrightarrow> wrf B a v = Some (B[nat a := v])"
  by (simp add: wrf_def)

lemma setEdgeTCs_ok:
  assumes "2 \<le> ic" and "ic + 2 < idd" and "idd + 1 < int (length B)"
  shows "setEdgeTCs B ic idd =
    Some (B[nat ic := map_option EVAL (B ! nat (ic - 2)),
            nat idd := map_option EVAL (B ! nat (ic + 2)),
            nat (idd + 1) := B ! nat (ic + 1)])"
  using assms by (simp add: setEdgeTCs_def rdf_ok wrf_ok)

lemma copyTCs_ok:
  assumes "0 \<le> ic" and "ic + 1 < idd" and "idd + 1 < int (length B)"
  shows "copyTCs B ic idd = Some (B[nat idd := B ! nat ic, nat (idd + 1) := B ! nat (ic + 1)])"
  using assms by (simp add: copyTCs_def rdf_ok wrf_ok)

lemma edge_step:
  assumes inv: "edge_inv A F2 W B"
    and b: "2 \<le> ic" "ic + 2 < F2" "F2 \<le> idd" "idd + 1 < int (length A)"
    and nw: "ic - 2 \<notin> W"
  shows "\<exists>B'. setEdgeTCs B ic idd = Some B' \<and> edge_inv A F2 (insert ic W) B'"
proof -
  have len: "length B = length A"
    and cells: "\<And>j. 0 \<le> j \<Longrightarrow> j < F2 \<Longrightarrow>
       B ! nat j = (if j \<in> W then map_option EVAL (A ! nat (j - 2)) else A ! nat j)"
    using inv by (simp_all add: edge_inv_def)
  let ?B' = "B[nat ic := map_option EVAL (B ! nat (ic - 2)),
            nat idd := map_option EVAL (B ! nat (ic + 2)),
            nat (idd + 1) := B ! nat (ic + 1)]"
  have s: "setEdgeTCs B ic idd = Some ?B'"
    using b len by (intro setEdgeTCs_ok) auto
  have old: "B ! nat (ic - 2) = A ! nat (ic - 2)"
    using cells [of "ic - 2"] b nw by simp
  have "?B' ! nat j = (if j \<in> insert ic W then map_option EVAL (A ! nat (j - 2)) else A ! nat j)"
    if j: "0 \<le> j" "j < F2" for j
  proof (cases "j = ic")
    case True
    then show ?thesis using b len old by simp
  next
    case False
    then have "nat j \<noteq> nat ic" "nat j \<noteq> nat idd" "nat j \<noteq> nat (idd + 1)"
      using j b by auto
    then show ?thesis using cells [OF j] False by simp
  qed
  then have "edge_inv A F2 (insert ic W) ?B'" using len by (simp add: edge_inv_def)
  then show ?thesis using s by blast
qed

lemma copy_step:
  assumes inv: "copy_inv A F2 B"
    and b: "0 \<le> ic" "ic + 1 < F2" "F2 \<le> idd" "idd + 1 < int (length A)"
  shows "\<exists>B'. copyTCs B ic idd = Some B' \<and> copy_inv A F2 B'"
proof -
  have len: "length B = length A"
    and cells: "\<And>j. 0 \<le> j \<Longrightarrow> j < F2 \<Longrightarrow> B ! nat j = A ! nat j"
    using inv by (simp_all add: copy_inv_def)
  let ?B' = "B[nat idd := B ! nat ic, nat (idd + 1) := B ! nat (ic + 1)]"
  have s: "copyTCs B ic idd = Some ?B'"
    using b len by (intro copyTCs_ok) auto
  have "?B' ! nat j = A ! nat j" if j: "0 \<le> j" "j < F2" for j
  proof -
    have "nat j \<noteq> nat idd" "nat j \<noteq> nat (idd + 1)" using j b by auto
    then show ?thesis using cells [OF j] by simp
  qed
  then have "copy_inv A F2 ?B'" using len by (simp add: copy_inv_def)
  then show ?thesis using s by blast
qed

lemma col_shift:
  fixes D :: int
  assumes "2 \<le> D" and "p mod D = q mod D"
  shows "p - 1 \<noteq> q"
proof
  assume "p - 1 = q"
  then have "p = q + 1" by simp
  then have "(q + 1) mod D = q mod D" using assms(2) by simp
  then have "D dvd (q + 1 - q)" by (simp only: mod_eq_dvd_iff)
  then have "D dvd 1" by simp
  then show False using assms(1) by simp
qed

lemma TC_run:
  fixes D :: int
  assumes inv: "TC_inv st0 F2 W st"
    and lens: "int (length (set_angls st0)) = N" "int (length (set_rects st0)) = N"
      "int (length (set_fishs st0)) = N" "int (length (set_cylis st0)) = N"
      "int (length (set_equis st0)) = N"
    and D: "dp1 n = D" "2 \<le> D"
    and cnt: "0 \<le> cnt"
    and rng: "\<And>r. 0 \<le> r \<Longrightarrow> r < cnt \<Longrightarrow> 1 \<le> ip + r * D \<and> 2 * (ip + r * D) + 2 < F2"
    and idp: "F2 \<le> 2 * idp" "2 * (idp + cnt) \<le> N"
    and col: "\<And>j. j \<in> W \<Longrightarrow> \<exists>p. j = 2 * p \<and> p mod D = ip mod D"
  shows "\<exists>st'. seam_TC_run n cnt ip idp st = Some st'
           \<and> TC_inv st0 F2 (W \<union> (\<lambda>r. 2 * (ip + r * D)) ` {0..<cnt}) st'"
proof -
  let ?f = "\<lambda>r. 2 * (ip + r * D)"
  let ?body = "\<lambda>(r::int) (ic, idd, st). do {
             a \<leftarrow> copyTCs (set_angls st) ic idd;
             re \<leftarrow> setEdgeTCs (set_rects st) ic idd;
             f \<leftarrow> copyTCs (set_fishs st) ic idd;
             c \<leftarrow> setEdgeTCs (set_cylis st) ic idd;
             e \<leftarrow> setEdgeTCs (set_equis st) ic idd;
             Some (ic + 2 * D, idd + 2,
                   st\<lparr> set_angls := a, set_rects := re, set_fishs := f, set_cylis := c,
                       set_equis := e \<rparr>) }"
  let ?I = "\<lambda>r (ic, idd, s). ic = ?f r \<and> idd = 2 * (idp + r)
              \<and> TC_inv st0 F2 (W \<union> ?f ` {0..<r}) s"
  have "\<exists>t. for_up 0 cnt ?body (2 * ip, 2 * idp, st) = Some t \<and> ?I cnt t"
  proof (rule for_up_rule [where I = ?I])
    show "?I 0 (2 * ip, 2 * idp, st)" using inv by simp
    show "0 \<le> cnt" by (rule cnt)
  next
    fix r t
    assume r: "0 \<le> r" "r < cnt" and I: "?I r t"
    obtain ic idd s where t: "t = (ic, idd, s)" by (cases t) auto
    let ?W = "W \<union> ?f ` {0..<r}"
    from I have ic: "ic = ?f r" and idd: "idd = 2 * (idp + r)" and si: "TC_inv st0 F2 ?W s"
      by (simp_all add: t)
    have b: "2 \<le> ic" "ic + 2 < F2" "F2 \<le> idd" "0 \<le> ic" "ic + 1 < F2"
      using rng [OF r] idp r unfolding ic idd by auto
    have top: "idd + 1 < N" using idp r unfolding idd by auto
    have nw: "ic - 2 \<notin> ?W"
    proof
      assume "ic - 2 \<in> ?W"
      then consider "ic - 2 \<in> W" | x where "0 \<le> x" "x < r" "ic - 2 = 2 * (ip + x * D)"
        by auto
      then obtain p where p: "ic - 2 = 2 * p" "p mod D = ip mod D"
      proof cases
        case 1
        then show ?thesis using col that by blast
      next
        case 2
        have "(ip + x * D) mod D = ip mod D" by simp
        then show ?thesis using 2(3) that by blast
      qed
      have "(ip + r * D) mod D = p mod D" using p(2) by simp
      then have "ip + r * D - 1 \<noteq> p" by (rule col_shift [OF D(2)])
      then show False using p(1) unfolding ic by simp
    qed
    from si have i1: "copy_inv (set_angls st0) F2 (set_angls s)"
      and i2: "edge_inv (set_rects st0) F2 ?W (set_rects s)"
      and i3: "copy_inv (set_fishs st0) F2 (set_fishs s)"
      and i4: "edge_inv (set_cylis st0) F2 ?W (set_cylis s)"
      and i5: "edge_inv (set_equis st0) F2 ?W (set_equis s)"
      and i6: "set_sters s = set_sters st0" "set_mercs s = set_mercs st0"
      by (simp_all add: TC_inv_def)
    obtain a where a: "copyTCs (set_angls s) ic idd = Some a"
      "copy_inv (set_angls st0) F2 a"
      using copy_step [OF i1 b(4,5,3)] top lens(1) by auto
    obtain re where re: "setEdgeTCs (set_rects s) ic idd = Some re"
      "edge_inv (set_rects st0) F2 (insert ic ?W) re"
      using edge_step [OF i2 b(1,2,3) _ nw] top lens(2) by auto
    obtain f where f: "copyTCs (set_fishs s) ic idd = Some f"
      "copy_inv (set_fishs st0) F2 f"
      using copy_step [OF i3 b(4,5,3)] top lens(3) by auto
    obtain c where c: "setEdgeTCs (set_cylis s) ic idd = Some c"
      "edge_inv (set_cylis st0) F2 (insert ic ?W) c"
      using edge_step [OF i4 b(1,2,3) _ nw] top lens(4) by auto
    obtain e where e: "setEdgeTCs (set_equis s) ic idd = Some e"
      "edge_inv (set_equis st0) F2 (insert ic ?W) e"
      using edge_step [OF i5 b(1,2,3) _ nw] top lens(5) by auto
    have "{0..<r + 1} = insert r {0..<r}" using r by auto
    then have W': "W \<union> ?f ` {0..<r + 1} = insert ic ?W" unfolding ic by simp
    let ?s' = "s\<lparr> set_angls := a, set_rects := re, set_fishs := f, set_cylis := c,
                       set_equis := e \<rparr>"
    have "TC_inv st0 F2 (W \<union> ?f ` {0..<r + 1}) ?s'"
      unfolding W' using a(2) re(2) f(2) c(2) e(2) i6 by (simp add: TC_inv_def)
    moreover have "ic + 2 * D = ?f (r + 1)" unfolding ic by (simp add: algebra_simps)
    moreover have "idd + 2 = 2 * (idp + (r + 1))" unfolding idd by simp
    moreover have "?body r t = Some (ic + 2 * D, idd + 2, ?s')"
      unfolding t using a(1) re(1) f(1) c(1) e(1) by simp
    ultimately show "\<exists>t'. ?body r t = Some t' \<and> ?I (r + 1) t'" by simp
  qed
  then obtain ic idd s where "for_up 0 cnt ?body (2 * ip, 2 * idp, st) = Some (ic, idd, s)"
    "TC_inv st0 F2 (W \<union> ?f ` {0..<cnt}) s"
    by auto
  then show ?thesis unfolding seam_TC_run_def D(1) by simp
qed

subsection \<open>The three runs of the seam\<close>

lemma set_run:
  fixes a D c :: int
  shows "set (map (\<lambda>r. a + int r * D) [0..<nat c]) = (\<lambda>r. a + r * D) ` {0..<c}"
proof
  show "set (map (\<lambda>r. a + int r * D) [0..<nat c]) \<subseteq> (\<lambda>r. a + r * D) ` {0..<c}"
  proof
    fix x
    assume "x \<in> set (map (\<lambda>r. a + int r * D) [0..<nat c])"
    then obtain r where r: "r < nat c" "x = a + int r * D" by auto
    then have "int r \<in> {0..<c}" by auto
    then show "x \<in> (\<lambda>r. a + r * D) ` {0..<c}" using r(2) by blast
  qed
  show "(\<lambda>r. a + r * D) ` {0..<c} \<subseteq> set (map (\<lambda>r. a + int r * D) [0..<nat c])"
  proof
    fix x
    assume "x \<in> (\<lambda>r. a + r * D) ` {0..<c}"
    then obtain r where r: "0 \<le> r" "r < c" "x = a + r * D" by auto
    then have "nat r \<in> set [0..<nat c]" "x = a + int (nat r) * D" by auto
    then show "x \<in> set (map (\<lambda>r. a + int r * D) [0..<nat c])"
      unfolding set_map by (intro image_eqI [where x = "nat r"])
  qed
qed

lemma res_facts:
  assumes n: "1 \<le> n"
  shows "dp1 n = n + 1" and "0 \<le> d2 n" and "2 * d2 n \<le> n" and "ntb n = d2 n"
    and "ppf n = (n + 1) * (n + 1)" and "dups n = (n + 1) + 2 * d2 n + 4" and "4 \<le> ppf n"
proof -
  have n0: "0 \<le> n" using n by simp
  show "dp1 n = n + 1" by (simp add: dp1_def)
  show "0 \<le> d2 n" using n by (simp add: d2_pos [OF n0])
  show "2 * d2 n \<le> n" using n by (simp add: d2_pos [OF n0])
  show "ntb n = d2 n" by (simp add: ntb_def)
  show p: "ppf n = (n + 1) * (n + 1)" by (simp add: ppf_def dp1_def)
  show "dups n = (n + 1) + 2 * d2 n + 4" by (simp add: dups_def ntb_def dp1_def)
  have "2 * 2 \<le> (n + 1) * (n + 1)" using n by (intro mult_mono) auto
  then show "4 \<le> ppf n" unfolding p by simp
qed

lemma run_prod:
  fixes D r c :: int
  assumes "0 \<le> r" and "r < c" and "c \<le> D"
  shows "0 \<le> r * D" and "r * D \<le> D * D - D"
proof -
  have D: "0 \<le> D" using assms by simp
  show "0 \<le> r * D" using assms(1) D by simp
  have "r * D \<le> (D - 1) * D" using assms D by (intro mult_right_mono) auto
  then show "r * D \<le> D * D - D" by (simp add: algebra_simps)
qed

lemma seam_TCs_ok:
  assumes n: "1 \<le> n"
    and lens: "int (length (set_angls st0)) = 2 * (6 * ppf n + dups n)"
      "int (length (set_rects st0)) = 2 * (6 * ppf n + dups n)"
      "int (length (set_fishs st0)) = 2 * (6 * ppf n + dups n)"
      "int (length (set_cylis st0)) = 2 * (6 * ppf n + dups n)"
      "int (length (set_equis st0)) = 2 * (6 * ppf n + dups n)"
  shows "\<exists>st'. seam_TCs n st0 = Some st'
           \<and> TC_inv st0 (2 * (6 * ppf n)) ((\<lambda>p. 2 * p) ` set (seam_points n)) st'"
proof -
  define D where "D = n + 1"
  define m where "m = d2 n"
  define P where "P = D * D"
  note rf = res_facts [OF n]
  have D: "dp1 n = D" "2 \<le> D" using n rf by (simp_all add: D_def)
  have m: "0 \<le> m" "m < D" "m \<le> D" using rf by (simp_all add: m_def D_def)
  have P: "ppf n = P" "4 \<le> P" using rf by (simp_all add: P_def D_def)
  have V: "6 * ppf n + dups n = 6 * P + D + 2 * m + 4"
    using rf by (simp add: P_def D_def m_def)
  let ?N = "2 * (6 * P + D + 2 * m + 4)" and ?F2 = "2 * (6 * P)"
  note lens' = lens [unfolded V]
  let ?ip1 = "P + m" and ?ip2 = "3 * P + m" and ?ip3 = "4 * P + (D - m) * D + m"
  let ?f1 = "\<lambda>r. 2 * (?ip1 + r * D)" and ?f2 = "\<lambda>r. 2 * (?ip2 + r * D)"
    and ?f3 = "\<lambda>r. 2 * (?ip3 + r * D)"
  have cm: "?ip1 mod D = m mod D" "?ip2 mod D = m mod D" "?ip3 mod D = m mod D"
    "(?ip1 + r * D) mod D = m mod D" "(?ip2 + r * D) mod D = m mod D" for r
    by (simp_all add: P_def mod_eq_dvd_iff algebra_simps)
  have inv0: "TC_inv st0 ?F2 {} st0" by (simp add: TC_inv_def copy_inv_def edge_inv_def)

  have r1: "1 \<le> ?ip1 + r * D \<and> 2 * (?ip1 + r * D) + 2 < ?F2" if "0 \<le> r" "r < m" for r
    using run_prod [OF that m(3)] m P(2) D(2) unfolding P_def [symmetric] by auto
  obtain s1 where s1: "seam_TC_run n m ?ip1 (6 * P) st0 = Some s1"
    "TC_inv st0 ?F2 ({} \<union> ?f1 ` {0..<m}) s1"
    using TC_run [OF inv0 lens' D m(1) r1, where idp = "6 * P"] m D by auto

  have r2: "1 \<le> ?ip2 + r * D \<and> 2 * (?ip2 + r * D) + 2 < ?F2" if "0 \<le> r" "r < D" for r
    using run_prod [OF that order_refl] m P(2) D(2) unfolding P_def [symmetric] by auto
  have c2: "\<exists>p. j = 2 * p \<and> p mod D = ?ip2 mod D" if "j \<in> {} \<union> ?f1 ` {0..<m}" for j
  proof -
    from that obtain r where "j = 2 * (?ip1 + r * D)" by auto
    moreover have "(?ip1 + r * D) mod D = ?ip2 mod D" using cm(4) [of r] cm(2) by simp
    ultimately show ?thesis by blast
  qed
  have D0: "0 \<le> D" using D by simp
  obtain s2 where s2: "seam_TC_run n D ?ip2 (6 * P + m) s1 = Some s2"
    "TC_inv st0 ?F2 ({} \<union> ?f1 ` {0..<m} \<union> ?f2 ` {0..<D}) s2"
    using TC_run [OF s1(2) lens' D D0 r2 _ _ c2, where idp = "6 * P + m"] m D by auto

  have r3: "1 \<le> ?ip3 + r * D \<and> 2 * (?ip3 + r * D) + 2 < ?F2" if r: "0 \<le> r" "r < m" for r
  proof -
    define K where "K = D - m + r"
    have K: "0 \<le> K" "K < D" using r m by (simp_all add: K_def)
    have e: "?ip3 + r * D = 4 * P + K * D + m" by (simp add: K_def algebra_simps)
    show ?thesis
      unfolding e using run_prod [OF K order_refl] m P(2) D(2) unfolding P_def [symmetric]
      by auto
  qed
  have c3: "\<exists>p. j = 2 * p \<and> p mod D = ?ip3 mod D"
    if "j \<in> {} \<union> ?f1 ` {0..<m} \<union> ?f2 ` {0..<D}" for j
  proof -
    from that consider r where "j = 2 * (?ip1 + r * D)" | r where "j = 2 * (?ip2 + r * D)"
      by auto
    then show ?thesis
    proof cases
      case 1
      moreover have "(?ip1 + r * D) mod D = ?ip3 mod D" using cm(4) [of r] cm(3) by simp
      ultimately show ?thesis by blast
    next
      case 2
      moreover have "(?ip2 + r * D) mod D = ?ip3 mod D" using cm(5) [of r] cm(3) by simp
      ultimately show ?thesis by blast
    qed
  qed
  obtain s3 where s3: "seam_TC_run n m ?ip3 (6 * P + m + D) s2 = Some s3"
    "TC_inv st0 ?F2 ({} \<union> ?f1 ` {0..<m} \<union> ?f2 ` {0..<D} \<union> ?f3 ` {0..<m}) s3"
    using TC_run [OF s2(2) lens' D m(1) r3 _ _ c3, where idp = "6 * P + m + D"] m D by auto
  have W: "{} \<union> ?f1 ` {0..<m} \<union> ?f2 ` {0..<D} \<union> ?f3 ` {0..<m}
      = (\<lambda>p. 2 * p) ` set (seam_points n)"
    unfolding seam_points_def set_append set_run rf(4) D(1) P(1) m_def [symmetric]
    by (simp add: image_Un image_image Un_assoc)
  have "seam_TCs n st0 = Some s3"
    unfolding seam_TCs_def Let_def rf(4) D(1) P(1) m_def [symmetric]
    using s1(1) s2(1) s3(1) by simp
  then show ?thesis using s3(2) unfolding W P(1) by blast
qed

subsection \<open>The duplicates of the two centers\<close>

lemma copy_inv_frame:
  assumes "copy_inv A F2 B" and "length B' = length B"
    and "\<And>j. 0 \<le> j \<Longrightarrow> j < F2 \<Longrightarrow> B' ! nat j = B ! nat j"
  shows "copy_inv A F2 B'"
  using assms by (simp add: copy_inv_def)

lemma edge_inv_frame:
  assumes "edge_inv A F2 W B" and "length B' = length B"
    and "\<And>j. 0 \<le> j \<Longrightarrow> j < F2 \<Longrightarrow> B' ! nat j = B ! nat j"
  shows "edge_inv A F2 W B'"
  using assms by (simp add: edge_inv_def)

lemma rd_range:
  assumes "int (length m) = L2" and "list_all (\<lambda>x. 0 \<le> x \<and> x < V) m"
    and "0 \<le> a" and "a < L2"
  shows "\<exists>i. rd m a = Some i \<and> 0 \<le> i \<and> i < V"
proof -
  have "nat a < length m" using assms by auto
  then have "0 \<le> m ! nat a \<and> m ! nat a < V" using assms(2) by (simp add: list_all_length)
  then show ?thesis using assms by (simp add: rd_def)
qed

lemma wr_range:
  assumes "int (length m) = L2" and "list_all (\<lambda>x. 0 \<le> x \<and> x < V) m"
    and "0 \<le> a" and "a < L2" and "0 \<le> v" and "v < V"
  shows "\<exists>m'. wr m a v = Some m' \<and> int (length m') = L2 \<and> list_all (\<lambda>x. 0 \<le> x \<and> x < V) m'"
proof -
  have "set (m[nat a := v]) \<subseteq> insert v (set m)" by (rule set_update_subset_insert)
  then have "list_all (\<lambda>x. 0 \<le> x \<and> x < V) (m[nat a := v])"
    using assms(2,5,6) by (auto simp: list_all_iff)
  then show ?thesis using assms by (simp add: wr_def)
qed

lemma makeCTCtop_ok:
  assumes m: "int (length m) = L2" "list_all (\<lambda>x. 0 \<le> x \<and> x < V) m"
    and pq: "2 \<le> pq" "pq + 1 < L2"
    and B: "int (length B) = 2 * V"
    and pd: "0 \<le> F2" "F2 \<le> pd" "pd + 3 < 2 * V"
  shows "\<exists>B'. makeCTCtop m pq B pd = Some B' \<and> length B' = length B
           \<and> (\<forall>j. 0 \<le> j \<and> j < F2 \<longrightarrow> B' ! nat j = B ! nat j)"
proof -
  obtain i1 where i1: "rd m (pq - 1) = Some i1" "0 \<le> i1" "i1 < V"
    using rd_range [OF m, of "pq - 1"] pq by auto
  obtain i2 where i2: "rd m (pq - 2) = Some i2" "0 \<le> i2" "i2 < V"
    using rd_range [OF m, of "pq - 2"] pq by auto
  obtain i3 where i3: "rd m pq = Some i3" "0 \<le> i3" "i3 < V"
    using rd_range [OF m, of pq] pq by auto
  obtain i4 where i4: "rd m (pq + 1) = Some i4" "0 \<le> i4" "i4 < V"
    using rd_range [OF m, of "pq + 1"] pq by auto
  define B1 where "B1 = B[nat pd := B ! nat (2 * i1)]"
  define B2 where "B2 = B1[nat (pd + 1) := B1 ! nat (2 * i2 + 1)]"
  define B3 where "B3 = B2[nat (pd + 2) := B2 ! nat (2 * i3)]"
  define B4 where "B4 = B3[nat (pd + 3) := B3 ! nat (2 * i4 + 1)]"
  have l: "int (length B1) = 2 * V" "int (length B2) = 2 * V" "int (length B3) = 2 * V"
    "length B4 = length B"
    using B by (simp_all add: B1_def B2_def B3_def B4_def)
  have s1: "rdf B (2 * i1) = Some (B ! nat (2 * i1))" "wrf B pd (B ! nat (2 * i1)) = Some B1"
    using i1 B pd by (simp_all add: rdf_def wrf_def B1_def)
  have s2: "rdf B1 (2 * i2 + 1) = Some (B1 ! nat (2 * i2 + 1))"
    "wrf B1 (pd + 1) (B1 ! nat (2 * i2 + 1)) = Some B2"
    using i2 l pd by (simp_all add: rdf_def wrf_def B2_def)
  have s3: "rdf B2 (2 * i3) = Some (B2 ! nat (2 * i3))"
    "wrf B2 (pd + 2) (B2 ! nat (2 * i3)) = Some B3"
    using i3 l pd by (simp_all add: rdf_def wrf_def B3_def)
  have s4: "rdf B3 (2 * i4 + 1) = Some (B3 ! nat (2 * i4 + 1))"
    "wrf B3 (pd + 3) (B3 ! nat (2 * i4 + 1)) = Some B4"
    using i4 l pd by (simp_all add: rdf_def wrf_def B4_def)
  have r: "makeCTCtop m pq B pd = Some B4"
    unfolding makeCTCtop_def by (simp add: i1(1) i2(1) i3(1) i4(1) s1 s2 s3 s4)
  have "B4 ! nat j = B ! nat j" if j: "0 \<le> j" "j < F2" for j
  proof -
    have "nat j \<noteq> nat pd" "nat j \<noteq> nat (pd + 1)" "nat j \<noteq> nat (pd + 2)" "nat j \<noteq> nat (pd + 3)"
      using j pd by auto
    then show ?thesis by (simp add: B4_def B3_def B2_def B1_def)
  qed
  then show ?thesis using r l(4) by blast
qed

lemma makeCTCbot_ok:
  assumes m: "int (length m) = L2" "list_all (\<lambda>x. 0 \<le> x \<and> x < V) m"
    and pq: "2 \<le> pq" "pq + 1 < L2"
    and B: "int (length B) = 2 * V"
    and pd: "0 \<le> F2" "F2 \<le> pd" "pd + 3 < 2 * V"
  shows "\<exists>B'. makeCTCbot m pq B pd = Some B' \<and> length B' = length B
           \<and> (\<forall>j. 0 \<le> j \<and> j < F2 \<longrightarrow> B' ! nat j = B ! nat j)"
proof -
  obtain i1 where i1: "rd m (pq - 2) = Some i1" "0 \<le> i1" "i1 < V"
    using rd_range [OF m, of "pq - 2"] pq by auto
  obtain i2 where i2: "rd m (pq - 1) = Some i2" "0 \<le> i2" "i2 < V"
    using rd_range [OF m, of "pq - 1"] pq by auto
  obtain i3 where i3: "rd m (pq + 1) = Some i3" "0 \<le> i3" "i3 < V"
    using rd_range [OF m, of "pq + 1"] pq by auto
  obtain i4 where i4: "rd m pq = Some i4" "0 \<le> i4" "i4 < V"
    using rd_range [OF m, of pq] pq by auto
  define B1 where "B1 = B[nat pd := B ! nat (2 * i1)]"
  define B2 where "B2 = B1[nat (pd + 1) := B1 ! nat (2 * i2 + 1)]"
  define B3 where "B3 = B2[nat (pd + 2) := B2 ! nat (2 * i3)]"
  define B4 where "B4 = B3[nat (pd + 3) := B3 ! nat (2 * i4 + 1)]"
  have l: "int (length B1) = 2 * V" "int (length B2) = 2 * V" "int (length B3) = 2 * V"
    "length B4 = length B"
    using B by (simp_all add: B1_def B2_def B3_def B4_def)
  have s1: "rdf B (2 * i1) = Some (B ! nat (2 * i1))" "wrf B pd (B ! nat (2 * i1)) = Some B1"
    using i1 B pd by (simp_all add: rdf_def wrf_def B1_def)
  have s2: "rdf B1 (2 * i2 + 1) = Some (B1 ! nat (2 * i2 + 1))"
    "wrf B1 (pd + 1) (B1 ! nat (2 * i2 + 1)) = Some B2"
    using i2 l pd by (simp_all add: rdf_def wrf_def B2_def)
  have s3: "rdf B2 (2 * i3) = Some (B2 ! nat (2 * i3))"
    "wrf B2 (pd + 2) (B2 ! nat (2 * i3)) = Some B3"
    using i3 l pd by (simp_all add: rdf_def wrf_def B3_def)
  have s4: "rdf B3 (2 * i4 + 1) = Some (B3 ! nat (2 * i4 + 1))"
    "wrf B3 (pd + 3) (B3 ! nat (2 * i4 + 1)) = Some B4"
    using i4 l pd by (simp_all add: rdf_def wrf_def B4_def)
  have r: "makeCTCbot m pq B pd = Some B4"
    unfolding makeCTCbot_def by (simp add: i1(1) i2(1) i3(1) i4(1) s1 s2 s3 s4)
  have "B4 ! nat j = B ! nat j" if j: "0 \<le> j" "j < F2" for j
  proof -
    have "nat j \<noteq> nat pd" "nat j \<noteq> nat (pd + 1)" "nat j \<noteq> nat (pd + 2)" "nat j \<noteq> nat (pd + 3)"
      using j pd by auto
    then show ?thesis by (simp add: B4_def B3_def B2_def B1_def)
  qed
  then show ?thesis using r l(4) by blast
qed

text \<open>Both calls, one after the other, on one set.\<close>

lemma makeCTC_both:
  assumes m: "int (length m) = L2" "list_all (\<lambda>x. 0 \<le> x \<and> x < V) m"
    and m': "int (length m') = L2" "list_all (\<lambda>x. 0 \<le> x \<and> x < V) m'"
    and pq: "2 \<le> pq" "pq + 1 < L2" "2 \<le> pq'" "pq' + 1 < L2"
    and B: "int (length B) = 2 * V"
    and pd: "0 \<le> F2" "F2 \<le> 2 * idc" "idc + 4 \<le> V"
  shows "\<exists>B1 B2. makeCTCtop m pq B (2 * idc) = Some B1
           \<and> makeCTCbot m' pq' B1 (2 * idc + 4) = Some B2 \<and> length B2 = length B
           \<and> (\<forall>j. 0 \<le> j \<and> j < F2 \<longrightarrow> B2 ! nat j = B ! nat j)"
proof -
  obtain B1 where B1: "makeCTCtop m pq B (2 * idc) = Some B1" "length B1 = length B"
    "\<forall>j. 0 \<le> j \<and> j < F2 \<longrightarrow> B1 ! nat j = B ! nat j"
    using makeCTCtop_ok [OF m pq(1,2) B pd(1,2)] pd(3) by auto
  have lB1: "int (length B1) = 2 * V" using B1(2) B by simp
  obtain B2 where B2: "makeCTCbot m' pq' B1 (2 * idc + 4) = Some B2" "length B2 = length B1"
    "\<forall>j. 0 \<le> j \<and> j < F2 \<longrightarrow> B2 ! nat j = B1 ! nat j"
    using makeCTCbot_ok [OF m' pq(3,4) lB1 pd(1), of "2 * idc + 4"] pd(2,3) by auto
  show ?thesis using B1 B2 by auto
qed

lemma center_TCs_at_ok:
  assumes inv: "TC_inv st0 F2 W st"
    and lens: "int (length (set_angls st0)) = 2 * V" "int (length (set_rects st0)) = 2 * V"
      "int (length (set_fishs st0)) = 2 * V" "int (length (set_cylis st0)) = 2 * V"
      "int (length (set_equis st0)) = 2 * V"
    and m: "int (length m0) = L2" "list_all (\<lambda>x. 0 \<le> x \<and> x < V) m0"
    and pq: "2 \<le> pq" "pq + 1 < L2" "2 \<le> pq'" "pq' + 1 < L2"
    and pd: "0 \<le> F2" "F2 \<le> 2 * idc" "idc + 4 \<le> V"
  shows "\<exists>st'. center_TCs_at idc pq pq' m0 st = Some st' \<and> TC_inv st0 F2 W st'"
proof -
  from inv have i1: "copy_inv (set_angls st0) F2 (set_angls st)"
    and i2: "edge_inv (set_rects st0) F2 W (set_rects st)"
    and i3: "copy_inv (set_fishs st0) F2 (set_fishs st)"
    and i4: "edge_inv (set_cylis st0) F2 W (set_cylis st)"
    and i5: "edge_inv (set_equis st0) F2 W (set_equis st)"
    and i6: "set_sters st = set_sters st0" "set_mercs st = set_mercs st0"
    by (simp_all add: TC_inv_def)
  have l: "int (length (set_angls st)) = 2 * V" "int (length (set_rects st)) = 2 * V"
    "int (length (set_fishs st)) = 2 * V" "int (length (set_cylis st)) = 2 * V"
    "int (length (set_equis st)) = 2 * V"
    using i1 i2 i3 i4 i5 lens by (simp_all add: copy_inv_def edge_inv_def)
  have idc: "0 \<le> idc" "idc < V" "0 \<le> idc + 1" "idc + 1 < V" using pd by auto
  have a1: "0 \<le> pq - 2" "pq - 2 < L2" "0 \<le> pq + 1" using pq by auto
  obtain m1 where m1: "wr m0 (pq - 2) idc = Some m1" "int (length m1) = L2"
    "list_all (\<lambda>x. 0 \<le> x \<and> x < V) m1"
    using wr_range [OF m a1(1,2) idc(1,2)] by blast
  obtain m2 where m2: "wr m1 (pq + 1) (idc + 1) = Some m2" "int (length m2) = L2"
    "list_all (\<lambda>x. 0 \<le> x \<and> x < V) m2"
    using wr_range [OF m1(2,3) a1(3) pq(2) idc(3,4)] by blast
  note both = makeCTC_both [OF m m2(2,3) pq _ pd]
  obtain a a' where a: "makeCTCtop m0 pq (set_angls st) (2 * idc) = Some a"
    "makeCTCbot m2 pq' a (2 * idc + 4) = Some a'" "length a' = length (set_angls st)"
    "\<forall>j. 0 \<le> j \<and> j < F2 \<longrightarrow> a' ! nat j = set_angls st ! nat j"
    using both [OF l(1)] by blast
  obtain re re' where re: "makeCTCtop m0 pq (set_rects st) (2 * idc) = Some re"
    "makeCTCbot m2 pq' re (2 * idc + 4) = Some re'" "length re' = length (set_rects st)"
    "\<forall>j. 0 \<le> j \<and> j < F2 \<longrightarrow> re' ! nat j = set_rects st ! nat j"
    using both [OF l(2)] by blast
  obtain f f' where f: "makeCTCtop m0 pq (set_fishs st) (2 * idc) = Some f"
    "makeCTCbot m2 pq' f (2 * idc + 4) = Some f'" "length f' = length (set_fishs st)"
    "\<forall>j. 0 \<le> j \<and> j < F2 \<longrightarrow> f' ! nat j = set_fishs st ! nat j"
    using both [OF l(3)] by blast
  obtain c c' where c: "makeCTCtop m0 pq (set_cylis st) (2 * idc) = Some c"
    "makeCTCbot m2 pq' c (2 * idc + 4) = Some c'" "length c' = length (set_cylis st)"
    "\<forall>j. 0 \<le> j \<and> j < F2 \<longrightarrow> c' ! nat j = set_cylis st ! nat j"
    using both [OF l(4)] by blast
  obtain e e' where e: "makeCTCtop m0 pq (set_equis st) (2 * idc) = Some e"
    "makeCTCbot m2 pq' e (2 * idc + 4) = Some e'" "length e' = length (set_equis st)"
    "\<forall>j. 0 \<le> j \<and> j < F2 \<longrightarrow> e' ! nat j = set_equis st ! nat j"
    using both [OF l(5)] by blast
  let ?st' = "st\<lparr> set_angls := a', set_rects := re', set_fishs := f', set_cylis := c',
                  set_equis := e' \<rparr>"
  have r: "center_TCs_at idc pq pq' m0 st = Some ?st'"
    unfolding center_TCs_at_def Let_def
    by (simp add: a(1,2) re(1,2) f(1,2) c(1,2) e(1,2) m1(1) m2(1))
  have "TC_inv st0 F2 W ?st'"
    unfolding TC_inv_def
    using copy_inv_frame [OF i1 a(3)] a(4) edge_inv_frame [OF i2 re(3)] re(4)
      copy_inv_frame [OF i3 f(3)] f(4) edge_inv_frame [OF i4 c(3)] c(4)
      edge_inv_frame [OF i5 e(3)] e(4) i6
    by simp
  then show ?thesis using r by blast
qed

subsection \<open>The index memory that the centers read\<close>

lemma seam_quads_1:
  "seam_top 1 [0, 2, 0, 1, 4, 6, 4, 5, 8, 10, 11, 10, 12, 14, 15, 14, 16, 17, 19, 17,
     20, 22, 20, 21, 0, 2, 3, 1, 4, 6, 7, 5, 8, 10, 11, 9, 12, 14, 15, 13, 16,
     18, 19, 17, 20, 22, 23, 21] = Some
   [0, 2, 0, 1, 4, 6, 4, 5, 8, 10, 11, 10, 12, 14, 15, 14, 16, 17, 19, 17,
     20, 22, 20, 21, 0, 2, 3, 1, 24, 6, 7, 5, 8, 10, 11, 9, 12, 14, 15, 13,
     16, 18, 19, 17, 20, 22, 23, 21]"
  "seam_back 1 [0, 2, 0, 1, 4, 6, 4, 5, 8, 10, 11, 10, 12, 14, 15, 14, 16, 17, 19, 17,
     20, 22, 20, 21, 0, 2, 3, 1, 24, 6, 7, 5, 8, 10, 11, 9, 12, 14, 15, 13,
     16, 18, 19, 17, 20, 22, 23, 21] = Some
   [0, 2, 0, 1, 4, 6, 4, 5, 8, 10, 11, 10, 12, 14, 15, 14, 16, 17, 19, 17,
     20, 22, 20, 21, 0, 2, 3, 1, 24, 6, 7, 5, 8, 10, 11, 9, 24, 25, 15, 13,
     16, 18, 19, 17, 20, 22, 23, 21]"
  "seam_bottom 1 [0, 2, 0, 1, 4, 6, 4, 5, 8, 10, 11, 10, 12, 14, 15, 14, 16, 17, 19, 17,
     20, 22, 20, 21, 0, 2, 3, 1, 24, 6, 7, 5, 8, 10, 11, 9, 24, 25, 15, 13,
     16, 18, 19, 17, 20, 22, 23, 21] = Some
   [0, 2, 0, 1, 4, 6, 4, 5, 8, 10, 11, 10, 12, 14, 15, 14, 16, 17, 19, 17,
     20, 22, 20, 21, 0, 2, 3, 1, 24, 6, 7, 5, 8, 10, 11, 9, 24, 25, 15, 13,
     16, 18, 19, 17, 20, 26, 23, 21]"
  by code_simp+

lemma seam_quads_ok:
  assumes shape: "n = 1 \<or> (even n \<and> 2 \<le> n)"
  shows "\<exists>m0 m1 m2 m3. index_builder n = Some m0 \<and> seam_top n m0 = Some m1
           \<and> seam_back n m1 = Some m2 \<and> seam_bottom n m2 = Some m3
           \<and> int (length m3) = 2 * (24 * qpf n)
           \<and> list_all (\<lambda>x. 0 \<le> x \<and> x < 6 * ppf n + dups n) m3"
  using shape
proof
  assume one: "n = 1"
  have v: "6 * ppf 1 + dups 1 = 30" "2 * (24 * qpf 1) = 48"
    by (simp_all add: ppf_def dp1_def dups_def ntb_def d2_pos qpf_def)
  show ?thesis
    unfolding one v using index_builder_1 seam_quads_1 by (intro exI conjI) (assumption+, simp_all)
next
  assume "even n \<and> 2 \<le> n"
  then obtain m where m: "n = 2 * m" "1 \<le> m" by (auto elim!: evenE)
  have n1: "1 \<le> n" using m by simp
  let ?L = "24 * qpf n" and ?V = "6 * ppf n + dups n"
  have a: "index_builder n = Some (line_table n @ quad_table n)" by (rule index_builder_tab [OF n1])
  obtain m1 where m1: "seam_top n (line_table n @ quad_table n) = Some m1"
    "seam_inv ?L ?V (line_table n) m1"
    using seam_top_ok [OF m seam_inv_tables [OF n1]] by blast
  obtain m2 where m2: "seam_back n m1 = Some m2" "seam_inv ?L ?V (line_table n) m2"
    using seam_back_ok [OF m m1(2)] by blast
  obtain m3 where m3: "seam_bottom n m2 = Some m3" "seam_inv ?L ?V (line_table n) m3"
    using seam_bottom_ok [OF m m2(2)] by blast
  show ?thesis using a m1(1) m2(1) m3 by (auto simp: seam_inv_def)
qed

lemma center_TCs_ok:
  assumes shape: "n = 1 \<or> (even n \<and> 2 \<le> n)" and small: "24 * qpf n < 2 ^ 31"
    and inv: "TC_inv st0 (2 * (6 * ppf n)) W st"
    and lens: "int (length (set_angls st0)) = 2 * (6 * ppf n + dups n)"
      "int (length (set_rects st0)) = 2 * (6 * ppf n + dups n)"
      "int (length (set_fishs st0)) = 2 * (6 * ppf n + dups n)"
      "int (length (set_cylis st0)) = 2 * (6 * ppf n + dups n)"
      "int (length (set_equis st0)) = 2 * (6 * ppf n + dups n)"
    and m: "int (length m0) = 2 * (24 * qpf n)"
      "list_all (\<lambda>x. 0 \<le> x \<and> x < 6 * ppf n + dups n) m0"
  shows "\<exists>st'. center_TCs n m0 st = Some st' \<and> TC_inv st0 (2 * (6 * ppf n)) W st'"
  using shape
proof
  assume one: "n = 1"
  have c: "center_TCs 1 m0 st = center_TCs_at 26 24 40 m0 st"
    by (simp add: center_TCs_def Let_def ppf_def dp1_def ntb_def d2_pos qpf_def u32_def)
  have v: "6 * ppf 1 + dups 1 = 30" "2 * (24 * qpf 1) = 48" "2 * (6 * ppf 1) = 48"
    by (simp_all add: ppf_def dp1_def dups_def ntb_def d2_pos qpf_def)
  have "\<exists>st'. center_TCs_at 26 24 40 m0 st = Some st' \<and> TC_inv st0 48 W st'"
    using center_TCs_at_ok [OF inv [unfolded one v] lens [unfolded one v] m [unfolded one v],
        of 24 40 26]
    by simp
  then show ?thesis unfolding one c v .
next
  assume "even n \<and> 2 \<le> n"
  then obtain k where e: "n = 2 * k" "1 \<le> k" by (auto elim!: evenE)
  let ?q = "qpf n" and ?P = "ppf n" and ?L = "24 * qpf n" and ?V = "6 * ppf n + dups n"
  note f = even_facts [OF e]
  have V: "?V = 6 * ?P + 4 * k + 5" by (simp add: dups_def f)
  define x where "x = n * (k - 1) + k"
  define t1 where "t1 = n * (k - 1)"
  have t1: "0 \<le> t1" "t1 \<le> ?q" using nr_le [OF e, of "k - 1"] e by (auto simp: t1_def)
  have xt: "x = t1 + k" by (simp add: x_def t1_def)
  have x: "1 \<le> x" "x \<le> 2 * ?q"
    using t1 e(2) f(4) unfolding xt by linarith+
  define y where "y = (n + 1) * k"
  have "y = n * k + k" by (simp add: y_def algebra_simps)
  then have y: "0 \<le> y" "y < 2 * ?q" using f e by auto
  have jq: "u32 x = x" using x small by (intro u32_id) auto
  have s1: "u32 (?q + x) = ?q + x" using x small f by (intro u32_id) auto
  have s2: "u32 (4 * (?q + x)) = 4 * (?q + x)" using x small f by (intro u32_id) auto
  let ?pq = "?L + 4 * (?q + x)" and ?pq' = "?L + 4 * (4 * ?q + y)"
  let ?idc = "6 * ?P + k + (2 * k + 1) + k"
  have c: "center_TCs n m0 st = center_TCs_at ?idc ?pq ?pq' m0 st"
    unfolding center_TCs_def Let_def f(1,2,3) x_def [symmetric] y_def [symmetric] jq s1 s2
    by (rule refl)
  have a: "2 \<le> ?pq" "?pq + 1 < 2 * ?L" "2 \<le> ?pq'" "?pq' + 1 < 2 * ?L"
    using x y f by auto
  have pd: "0 \<le> 2 * (6 * ?P)" "2 * (6 * ?P) \<le> 2 * ?idc" "?idc + 4 \<le> ?V"
    using f e unfolding V by auto
  show ?thesis
    unfolding c by (rule center_TCs_at_ok [OF inv lens m a pd])
qed

subsection \<open>The coordinate sets of the constructed object\<close>

lemma concat_pairs_length: "length (concat (map (\<lambda>x. [f x, g x]) xs)) = 2 * length xs"
  by (induction xs) simp_all

lemma concat_pairs_nth:
  "i < length xs \<Longrightarrow> concat (map (\<lambda>x. [f x, g x]) xs) ! (2 * i) = f (xs ! i)
     \<and> concat (map (\<lambda>x. [f x, g x]) xs) ! (2 * i + 1) = g (xs ! i)"
proof (induction xs arbitrary: i)
  case Nil
  then show ?case by simp
next
  case (Cons x xs)
  show ?case
  proof (cases i)
    case 0
    then show ?thesis by simp
  next
    case (Suc k)
    then have "k < length xs" using Cons.prems by simp
    from Cons.IH [OF this] show ?thesis by (simp add: Suc)
  qed
qed

lemma store_set_length:
  "int (length tcs) = 6 * ppf n \<Longrightarrow> 1 \<le> n
     \<Longrightarrow> int (length (store_set sel n tcs)) = 2 * (6 * ppf n + dups n)"
  using res_facts(2,6) [of n] by (simp add: store_set_def concat_pairs_length)

lemma store_set_face:
  assumes "0 \<le> i" and "i < int (length tcs)"
  shows "store_set sel n tcs ! nat (2 * i) = Some (fst (sel (tcs ! nat i)))"
    and "store_set sel n tcs ! nat (2 * i + 1) = Some (snd (sel (tcs ! nat i)))"
proof -
  have k: "nat i < length tcs" using assms by simp
  have e: "nat (2 * i) = 2 * nat i" "nat (2 * i + 1) = 2 * nat i + 1" using assms by simp_all
  have l: "2 * nat i + 1 < length (concat (map (\<lambda>tc. [Some (fst (sel tc)), Some (snd (sel tc))]) tcs))"
    using k by (simp add: concat_pairs_length)
  note c = concat_pairs_nth [OF k, of "\<lambda>tc. Some (fst (sel tc))" "\<lambda>tc. Some (snd (sel tc))"]
  show "store_set sel n tcs ! nat (2 * i) = Some (fst (sel (tcs ! nat i)))"
    unfolding store_set_def e using l c by (simp add: nth_append)
  show "store_set sel n tcs ! nat (2 * i + 1) = Some (snd (sel (tcs ! nat i)))"
    unfolding store_set_def e using l c by (simp add: nth_append)
qed

lemma store_set_dups:
  assumes "int (length tcs) \<le> i" and "i < int (length tcs) + dups n"
  shows "store_set sel n tcs ! nat (2 * i) = None"
    and "store_set sel n tcs ! nat (2 * i + 1) = None"
proof -
  have a: "2 * length tcs \<le> nat (2 * i)" "2 * length tcs \<le> nat (2 * i + 1)"
    "nat (2 * i) - 2 * length tcs < nat (2 * dups n)"
    "nat (2 * i + 1) - 2 * length tcs < nat (2 * dups n)"
    using assms by auto
  show "store_set sel n tcs ! nat (2 * i) = None" "store_set sel n tcs ! nat (2 * i + 1) = None"
    unfolding store_set_def using a by (simp_all add: nth_append concat_pairs_length)
qed

lemma TC_sets_final:
  assumes fits: "linewrds (quadsphere_sizes d) < 2 ^ 31"
  shows "\<exists>vs tcs st.
      face_vertices (round_divs d) = Some vs
    \<and> int (length vs) = 6 * ppf (round_divs d)
    \<and> (\<forall>v\<in>set vs. dotp v v = 1)
    \<and> quadsphere_TCs fovw d = Some tcs
    \<and> length tcs = length vs
    \<and> (\<forall>i<length vs. \<exists>s'. tcs ! i
          = fst (vertex_TCs fovw (stored_signs (round_divs d) ! i) (vs ! i) s'))
    \<and> quadsphere_TC_sets fovw d = Some st
    \<and> TC_inv (stored_TCs (round_divs d) tcs) (2 * (6 * ppf (round_divs d)))
        ((\<lambda>p. 2 * p) ` set (seam_points (round_divs d))) st"
proof -
  let ?n = "round_divs d"
  have n: "1 \<le> ?n" by (rule round_divs_ge1)
  have shape: "?n = 1 \<or> (even ?n \<and> 2 \<le> ?n)" using round_divs_shape [of d] by blast
  have small: "24 * qpf ?n < 2 ^ 31"
    using fits by (simp add: quadsphere_sizes_def Let_def)
  obtain vs where vs: "face_vertices ?n = Some vs" "int (length vs) = 6 * ppf ?n"
    "\<forall>v\<in>set vs. dotp v v = 1"
    using face_vertices_ok [OF n] by blast
  obtain tcs s where tcs: "face_TCs fovw ?n vs = Some ([], tcs, s)" "length tcs = length vs"
    "\<forall>i<length vs. \<exists>s'. tcs ! i = fst (vertex_TCs fovw (stored_signs ?n ! i) (vs ! i) s')"
    using face_TCs_ok [OF vs(2)] by blast
  have q: "quadsphere_TCs fovw d = Some tcs"
    using vs(1) tcs(1) by (simp add: quadsphere_TCs_def Let_def)
  have lt: "int (length tcs) = 6 * ppf ?n" using tcs(2) vs(2) by simp
  let ?st0 = "stored_TCs ?n tcs"
  have lens: "int (length (set_angls ?st0)) = 2 * (6 * ppf ?n + dups ?n)"
    "int (length (set_rects ?st0)) = 2 * (6 * ppf ?n + dups ?n)"
    "int (length (set_fishs ?st0)) = 2 * (6 * ppf ?n + dups ?n)"
    "int (length (set_cylis ?st0)) = 2 * (6 * ppf ?n + dups ?n)"
    "int (length (set_equis ?st0)) = 2 * (6 * ppf ?n + dups ?n)"
    using store_set_length [OF lt n] by (simp_all add: stored_TCs_def)
  obtain s1 where s1: "seam_TCs ?n ?st0 = Some s1"
    "TC_inv ?st0 (2 * (6 * ppf ?n)) ((\<lambda>p. 2 * p) ` set (seam_points ?n)) s1"
    using seam_TCs_ok [OF n lens] by blast
  obtain m0 m1 m2 m3 where m: "index_builder ?n = Some m0" "seam_top ?n m0 = Some m1"
    "seam_back ?n m1 = Some m2" "seam_bottom ?n m2 = Some m3"
    "int (length m3) = 2 * (24 * qpf ?n)"
    "list_all (\<lambda>x. 0 \<le> x \<and> x < 6 * ppf ?n + dups ?n) m3"
    using seam_quads_ok [OF shape] by blast
  obtain st where st: "center_TCs ?n m3 s1 = Some st"
    "TC_inv ?st0 (2 * (6 * ppf ?n)) ((\<lambda>p. 2 * p) ` set (seam_points ?n)) st"
    using center_TCs_ok [OF shape small s1(2) lens m(5,6)] by blast
  have "quadsphere_TC_sets fovw d = Some st"
    using vs(1) tcs(1) s1(1) m(1-4) st(1) by (simp add: quadsphere_TC_sets_def Let_def)
  then show ?thesis using vs q tcs(2,3) st(2) by blast
qed

section \<open>The coordinates that the constructor leaves for the vertices of the faces\<close>

lemma tc_rect_fst: "fst (tc_rect fovw v s) = rect_pair fovw v"
  by (simp add: rect_pair_def tc_rect_def Let_def)

lemma tc_ster_fst: "fst (tc_ster v s) = ster_pair v"
  by (simp add: ster_pair_def tc_ster_def Let_def)

lemma tc_angl_s:
  assumes u: "dotp v v = 1"
  shows "snd (tc_angl ng v s) = 0.5 * za v / Pi"
proof -
  have "\<not> za v > amaxsph" using za_range [OF u] by (simp add: amax_pi)
  then show ?thesis by (simp add: tc_angl_def Let_def)
qed

lemma vertex_pairs:
  assumes u: "dotp v v = 1"
  shows "rects (fst (vertex_TCs w ng v s0)) = rect_pair w v"
    and "cylis (fst (vertex_TCs w ng v s0)) = cyli_pair w ng v"
    and "equis (fst (vertex_TCs w ng v s0)) = tc_equi ng v"
    and "mercs (fst (vertex_TCs w ng v s0)) = merc_pair ng v"
    and "sters (fst (vertex_TCs w ng v s0)) = ster_pair v"
  unfolding vertex_TCs_fields tc_rect_fst tc_ster_fst tc_angl_s [OF u]
  by (simp_all add: cyli_pair_def merc_pair_def)

lemma seam_points_range:
  assumes n: "1 \<le> n" and p: "p \<in> set (seam_points n)"
  shows "1 \<le> p" and "p < 6 * ppf n"
proof -
  define D where "D = n + 1"
  define m where "m = d2 n"
  define P where "P = D * D"
  note rf = res_facts [OF n]
  have D: "dp1 n = D" "2 \<le> D" using n rf by (simp_all add: D_def)
  have m: "0 \<le> m" "m < D" "m \<le> D" using rf by (simp_all add: m_def D_def)
  have P: "ppf n = P" "4 \<le> P" using rf by (simp_all add: P_def D_def)
  have "p \<in> (\<lambda>r. P + m + r * D) ` {0..<m} \<union> (\<lambda>r. 3 * P + m + r * D) ` {0..<D}
      \<union> (\<lambda>r. 4 * P + (D - m) * D + m + r * D) ` {0..<m}"
    using p unfolding seam_points_def set_append set_run rf(4) D(1) P(1) m_def [symmetric]
    by (simp add: Un_assoc)
  then consider r where "0 \<le> r" "r < m" "p = P + m + r * D"
    | r where "0 \<le> r" "r < D" "p = 3 * P + m + r * D"
    | r where "0 \<le> r" "r < m" "p = 4 * P + (D - m) * D + m + r * D"
    by auto
  then have "1 \<le> p \<and> p < 6 * P"
  proof cases
    case 1
    define q where "q = r * D"
    have "0 \<le> q" "q \<le> P - D"
      using run_prod [OF 1(1,2) m(3)] by (simp_all add: q_def P_def)
    then show ?thesis
      using m P(2) D(2) unfolding 1(3) q_def [symmetric] by linarith
  next
    case 2
    define q where "q = r * D"
    have "0 \<le> q" "q \<le> P - D"
      using run_prod [OF 2(1,2) order_refl] by (simp_all add: q_def P_def)
    then show ?thesis
      using m P(2) D(2) unfolding 2(3) q_def [symmetric] by linarith
  next
    case 3
    define K where "K = D - m + r"
    have K: "0 \<le> K" "K < D" using 3 m by (simp_all add: K_def)
    define q where "q = K * D"
    have e: "p = 4 * P + q + m" unfolding 3(3) by (simp add: K_def q_def algebra_simps)
    have "0 \<le> q" "q \<le> P - D"
      using run_prod [OF K order_refl] by (simp_all add: q_def P_def)
    then show ?thesis
      using m P(2) D(2) unfolding e by linarith
  qed
  then show "1 \<le> p" "p < 6 * ppf n" unfolding P(1) by simp_all
qed

lemma coords_ok:
  assumes "0 \<le> i" and "2 * i + 1 < int (length B)"
  shows "coords B i = Some (B ! nat (2 * i), B ! nat (2 * i + 1))"
  using assms by (simp add: coords_def rdf_def)

lemma edge_coords:
  assumes inv: "edge_inv (store_set sel n tcs) (2 * int (length tcs)) ((\<lambda>p. 2 * p) ` S) B"
    and S: "\<forall>p\<in>S. 1 \<le> p"
    and i: "0 \<le> i" "i < int (length tcs)"
  shows "coords B i =
    Some (Some (if i \<in> S then EVAL (fst (sel (tcs ! nat (i - 1)))) else fst (sel (tcs ! nat i))),
          Some (snd (sel (tcs ! nat i))))"
proof -
  let ?A = "store_set sel n tcs"
  have len: "length B = length ?A"
    and cells: "\<And>j. 0 \<le> j \<Longrightarrow> j < 2 * int (length tcs) \<Longrightarrow>
       B ! nat j = (if j \<in> (\<lambda>p. 2 * p) ` S then map_option EVAL (?A ! nat (j - 2)) else ?A ! nat j)"
    using inv by (simp_all add: edge_inv_def)
  have lA: "2 * int (length tcs) \<le> int (length ?A)"
    by (simp add: store_set_def concat_pairs_length)
  have c: "coords B i = Some (B ! nat (2 * i), B ! nat (2 * i + 1))"
    using i lA len by (intro coords_ok) auto
  have odd: "2 * i + 1 \<notin> (\<lambda>p. 2 * p) ` S"
  proof
    assume "2 * i + 1 \<in> (\<lambda>p. 2 * p) ` S"
    then obtain p where "2 * i + 1 = 2 * p" by auto
    then show False by presburger
  qed
  have ev: "2 * i \<in> (\<lambda>p. 2 * p) ` S \<longleftrightarrow> i \<in> S" by auto
  have t: "B ! nat (2 * i + 1) = Some (snd (sel (tcs ! nat i)))"
    using cells [of "2 * i + 1"] i odd store_set_face(2) [OF i] by simp
  have s: "B ! nat (2 * i) =
      Some (if i \<in> S then EVAL (fst (sel (tcs ! nat (i - 1)))) else fst (sel (tcs ! nat i)))"
  proof (cases "i \<in> S")
    case True
    then have "1 \<le> i" using S by blast
    then have i1: "0 \<le> i - 1" "i - 1 < int (length tcs)" using i by auto
    have "2 * i - 2 = 2 * (i - 1)" by simp
    then have "?A ! nat (2 * i - 2) = Some (fst (sel (tcs ! nat (i - 1))))"
      using store_set_face(1) [OF i1] by simp
    then show ?thesis using cells [of "2 * i"] i True ev by simp
  next
    case False
    then show ?thesis using cells [of "2 * i"] i ev store_set_face(1) [OF i] by simp
  qed
  show ?thesis unfolding c s t ..
qed

lemma plain_coords:
  assumes i: "0 \<le> i" "i < int (length tcs)"
  shows "coords (store_set sel n tcs) i
    = Some (Some (fst (sel (tcs ! nat i))), Some (snd (sel (tcs ! nat i))))"
proof -
  have lA: "2 * int (length tcs) \<le> int (length (store_set sel n tcs))"
    by (simp add: store_set_def concat_pairs_length)
  have "coords (store_set sel n tcs) i
      = Some (store_set sel n tcs ! nat (2 * i), store_set sel n tcs ! nat (2 * i + 1))"
    using i lA by (intro coords_ok) auto
  then show ?thesis using store_set_face [OF i] by simp
qed

lemma dup_coords:
  assumes i: "int (length tcs) \<le> i" "i < int (length tcs) + dups n"
  shows "coords (store_set sel n tcs) i = Some (None, None)"
proof -
  have "int (length (store_set sel n tcs)) = 2 * int (length tcs) + 2 * dups n"
    using i by (simp add: store_set_def concat_pairs_length)
  then have "coords (store_set sel n tcs) i
      = Some (store_set sel n tcs ! nat (2 * i), store_set sel n tcs ! nat (2 * i + 1))"
    using i by (intro coords_ok) auto
  then show ?thesis using store_set_dups [OF i] by simp
qed


lemma TC_coords_final:
  assumes fits: "linewrds (quadsphere_sizes d) < 2 ^ 31"
  shows "\<exists>vs st.
      face_vertices (round_divs d) = Some vs
    \<and> int (length vs) = 6 * ppf (round_divs d)
    \<and> (\<forall>v\<in>set vs. dotp v v = 1)
    \<and> quadsphere_TC_sets fovw d = Some st
    \<and> (\<forall>i. 0 \<le> i \<and> i < 6 * ppf (round_divs d) \<longrightarrow>
          coords (set_rects st) i =
            Some (Some (if i \<in> set (seam_points (round_divs d))
                        then EVAL (fst (rect_pair fovw (vs ! nat (i - 1))))
                        else fst (rect_pair fovw (vs ! nat i))),
                  Some (snd (rect_pair fovw (vs ! nat i))))
        \<and> coords (set_cylis st) i =
            Some (Some (if i \<in> set (seam_points (round_divs d))
                        then EVAL (fst (cyli_pair fovw (stored_signs (round_divs d) ! nat (i - 1))
                                          (vs ! nat (i - 1))))
                        else fst (cyli_pair fovw (stored_signs (round_divs d) ! nat i) (vs ! nat i))),
                  Some (snd (cyli_pair fovw (stored_signs (round_divs d) ! nat i) (vs ! nat i))))
        \<and> coords (set_equis st) i =
            Some (Some (if i \<in> set (seam_points (round_divs d))
                        then EVAL (fst (tc_equi (stored_signs (round_divs d) ! nat (i - 1))
                                          (vs ! nat (i - 1))))
                        else fst (tc_equi (stored_signs (round_divs d) ! nat i) (vs ! nat i))),
                  Some (snd (tc_equi (stored_signs (round_divs d) ! nat i) (vs ! nat i))))
        \<and> coords (set_sters st) i =
            Some (Some (fst (ster_pair (vs ! nat i))), Some (snd (ster_pair (vs ! nat i))))
        \<and> coords (set_mercs st) i =
            Some (Some (fst (merc_pair (stored_signs (round_divs d) ! nat i) (vs ! nat i))),
                  Some (snd (merc_pair (stored_signs (round_divs d) ! nat i) (vs ! nat i)))))
    \<and> (\<forall>i. 6 * ppf (round_divs d) \<le> i \<and> i < vertpnts (quadsphere_sizes d) \<longrightarrow>
          coords (set_sters st) i = Some (None, None)
        \<and> coords (set_mercs st) i = Some (None, None))"
proof -
  let ?n = "round_divs d"
  let ?sg = "stored_signs ?n"
  let ?S = "set (seam_points ?n)"
  have n: "1 \<le> ?n" by (rule round_divs_ge1)
  obtain vs tcs st where vs: "face_vertices ?n = Some vs" "int (length vs) = 6 * ppf ?n"
    "\<forall>v\<in>set vs. dotp v v = 1"
    and tcs: "length tcs = length vs"
    "\<forall>i<length vs. \<exists>s'. tcs ! i = fst (vertex_TCs fovw (?sg ! i) (vs ! i) s')"
    and st: "quadsphere_TC_sets fovw d = Some st"
    "TC_inv (stored_TCs ?n tcs) (2 * (6 * ppf ?n)) ((\<lambda>p. 2 * p) ` ?S) st"
    using TC_sets_final [OF fits, of fovw] by blast
  have F2: "2 * (6 * ppf ?n) = 2 * int (length tcs)" using tcs(1) vs(2) by simp
  have S1: "\<forall>p\<in>?S. 1 \<le> p" using seam_points_range(1) [OF n] by blast
  from st(2) have
    ir: "edge_inv (store_set rects ?n tcs) (2 * int (length tcs)) ((\<lambda>p. 2 * p) ` ?S) (set_rects st)"
    and ic: "edge_inv (store_set cylis ?n tcs) (2 * int (length tcs)) ((\<lambda>p. 2 * p) ` ?S) (set_cylis st)"
    and ie: "edge_inv (store_set equis ?n tcs) (2 * int (length tcs)) ((\<lambda>p. 2 * p) ` ?S) (set_equis st)"
    and iss: "set_sters st = store_set sters ?n tcs"
    and im: "set_mercs st = store_set mercs ?n tcs"
    unfolding F2 by (simp_all add: TC_inv_def stored_TCs_def)
  have pairs: "rects (tcs ! nat k) = rect_pair fovw (vs ! nat k)
      \<and> cylis (tcs ! nat k) = cyli_pair fovw (?sg ! nat k) (vs ! nat k)
      \<and> equis (tcs ! nat k) = tc_equi (?sg ! nat k) (vs ! nat k)
      \<and> mercs (tcs ! nat k) = merc_pair (?sg ! nat k) (vs ! nat k)
      \<and> sters (tcs ! nat k) = ster_pair (vs ! nat k)"
    if k: "0 \<le> k" "k < 6 * ppf ?n" for k
  proof -
    have kl: "nat k < length vs" using k vs(2) by simp
    then have u: "dotp (vs ! nat k) (vs ! nat k) = 1" using vs(3) by simp
    obtain s' where "tcs ! nat k = fst (vertex_TCs fovw (?sg ! nat k) (vs ! nat k) s')"
      using tcs(2) kl by blast
    then show ?thesis using vertex_pairs [OF u] by simp
  qed
  have face: "coords (set_rects st) i =
            Some (Some (if i \<in> ?S then EVAL (fst (rect_pair fovw (vs ! nat (i - 1))))
                        else fst (rect_pair fovw (vs ! nat i))),
                  Some (snd (rect_pair fovw (vs ! nat i))))
        \<and> coords (set_cylis st) i =
            Some (Some (if i \<in> ?S
                        then EVAL (fst (cyli_pair fovw (?sg ! nat (i - 1)) (vs ! nat (i - 1))))
                        else fst (cyli_pair fovw (?sg ! nat i) (vs ! nat i))),
                  Some (snd (cyli_pair fovw (?sg ! nat i) (vs ! nat i))))
        \<and> coords (set_equis st) i =
            Some (Some (if i \<in> ?S
                        then EVAL (fst (tc_equi (?sg ! nat (i - 1)) (vs ! nat (i - 1))))
                        else fst (tc_equi (?sg ! nat i) (vs ! nat i))),
                  Some (snd (tc_equi (?sg ! nat i) (vs ! nat i))))
        \<and> coords (set_sters st) i =
            Some (Some (fst (ster_pair (vs ! nat i))), Some (snd (ster_pair (vs ! nat i))))
        \<and> coords (set_mercs st) i =
            Some (Some (fst (merc_pair (?sg ! nat i) (vs ! nat i))),
                  Some (snd (merc_pair (?sg ! nat i) (vs ! nat i))))"
    if i: "0 \<le> i" "i < 6 * ppf ?n" for i
  proof -
    have il: "i < int (length tcs)" using i tcs(1) vs(2) by simp
    note p = pairs [OF i]
    have p1: "rects (tcs ! nat (i - 1)) = rect_pair fovw (vs ! nat (i - 1))
      \<and> cylis (tcs ! nat (i - 1)) = cyli_pair fovw (?sg ! nat (i - 1)) (vs ! nat (i - 1))
      \<and> equis (tcs ! nat (i - 1)) = tc_equi (?sg ! nat (i - 1)) (vs ! nat (i - 1))"
      if "i \<in> ?S"
    proof -
      have "1 \<le> i" using that S1 by blast
      then show ?thesis using pairs [of "i - 1"] i by simp
    qed
    note e = edge_coords [OF ir S1 i(1) il] edge_coords [OF ic S1 i(1) il]
      edge_coords [OF ie S1 i(1) il]
      plain_coords [OF i(1) il, of sters ?n] plain_coords [OF i(1) il, of mercs ?n]
    show ?thesis
    proof (cases "i \<in> ?S")
      case True
      show ?thesis unfolding iss im e using p p1 [OF True] True by simp
    next
      case False
      show ?thesis unfolding iss im e using p False by simp
    qed
  qed
  have dup: "coords (set_sters st) i = Some (None, None)
      \<and> coords (set_mercs st) i = Some (None, None)"
    if i: "6 * ppf ?n \<le> i" "i < vertpnts (quadsphere_sizes d)" for i
  proof -
    have "int (length tcs) \<le> i" "i < int (length tcs) + dups ?n"
      using i tcs(1) vs(2) by (simp_all add: vertpnts_sizes)
    then show ?thesis unfolding iss im by (simp add: dup_coords)
  qed
  show ?thesis using vs st(1) face dup by blast
qed

text \<open>
  The seam repair works on the fisheye and on the equiangular set with \<open>copyTCs\<close>
  only, which writes to the duplicates: the constructed object holds for every vertex of
  the six faces the fisheye and the equiangular pair that the loop over the vertices
  has stored.
\<close>

lemma copy_coords:
  assumes inv: "copy_inv (store_set sel n tcs) (2 * int (length tcs)) B"
    and i: "0 \<le> i" "i < int (length tcs)"
  shows "coords B i = Some (Some (fst (sel (tcs ! nat i))), Some (snd (sel (tcs ! nat i))))"
proof -
  let ?A = "store_set sel n tcs"
  have l: "length B = length ?A"
    and k: "\<And>j. 0 \<le> j \<Longrightarrow> j < 2 * int (length tcs) \<Longrightarrow> B ! nat j = ?A ! nat j"
    using inv by (simp_all add: copy_inv_def)
  have lA: "2 * int (length tcs) \<le> int (length ?A)"
    by (simp add: store_set_def concat_pairs_length)
  have a: "coords ?A i = Some (?A ! nat (2 * i), ?A ! nat (2 * i + 1))"
    using i lA by (intro coords_ok) auto
  have b: "coords B i = Some (B ! nat (2 * i), B ! nat (2 * i + 1))"
    using i lA l by (intro coords_ok) auto
  have "B ! nat (2 * i) = ?A ! nat (2 * i)" "B ! nat (2 * i + 1) = ?A ! nat (2 * i + 1)"
    using i by (auto intro!: k)
  then have "coords B i = coords ?A i" using a b by simp
  then show ?thesis using plain_coords [OF i, of sel n] by simp
qed

lemma fish_angl_coords_final:
  assumes fits: "linewrds (quadsphere_sizes d) < 2 ^ 31"
  shows "\<exists>tcs st.
      quadsphere_TCs fovw d = Some tcs
    \<and> int (length tcs) = 6 * ppf (round_divs d)
    \<and> quadsphere_TC_sets fovw d = Some st
    \<and> (\<forall>i. 0 \<le> i \<and> i < 6 * ppf (round_divs d) \<longrightarrow>
          coords (set_fishs st) i
            = Some (Some (fst (fishs (tcs ! nat i))), Some (snd (fishs (tcs ! nat i))))
        \<and> coords (set_angls st) i
            = Some (Some (fst (angls (tcs ! nat i))), Some (snd (angls (tcs ! nat i)))))"
proof -
  let ?n = "round_divs d"
  obtain vs tcs st where fv: "face_vertices ?n = Some vs" and vs: "int (length vs) = 6 * ppf ?n"
    and tcs: "quadsphere_TCs fovw d = Some tcs" "length tcs = length vs"
    and st: "quadsphere_TC_sets fovw d = Some st"
    "TC_inv (stored_TCs ?n tcs) (2 * (6 * ppf ?n)) ((\<lambda>p. 2 * p) ` set (seam_points ?n)) st"
    using TC_sets_final [OF fits, of fovw] by blast
  have F2: "2 * (6 * ppf ?n) = 2 * int (length tcs)" using tcs(2) vs by simp
  have l: "int (length tcs) = 6 * ppf ?n" using tcs(2) vs by simp
  from st(2) have
    f: "copy_inv (store_set fishs ?n tcs) (2 * int (length tcs)) (set_fishs st)"
    and a: "copy_inv (store_set angls ?n tcs) (2 * int (length tcs)) (set_angls st)"
    unfolding F2 by (simp_all add: TC_inv_def stored_TCs_def)
  have "coords (set_fishs st) i
            = Some (Some (fst (fishs (tcs ! nat i))), Some (snd (fishs (tcs ! nat i))))
        \<and> coords (set_angls st) i
            = Some (Some (fst (angls (tcs ! nat i))), Some (snd (angls (tcs ! nat i))))"
    if "0 \<le> i" "i < 6 * ppf ?n" for i
    using copy_coords [OF f, of i] copy_coords [OF a, of i] that l by simp
  then show ?thesis using tcs(1) l st(1) by blast
qed


subsection \<open>What a caller reads for a vertex of the faces\<close>

lemma vertex_face:
  assumes k: "0 \<le> k" "k < 6 * ppf (round_divs d)"
  shows "vertex d k = Some (mesh_vertex (round_divs d) k)"
proof -
  let ?n = "round_divs d"
  have n: "1 \<le> ?n" by (rule round_divs_ge1)
  obtain vs where vs: "face_vertices ?n = Some vs" "int (length vs) = 6 * ppf ?n"
    using face_vertices_ok [OF n] by blast
  obtain pd where pd: "seam_vertices ?n vs = Some pd"
    using seam_vertices_ok [OF n vs(2)] by blast
  have q: "quadsphere_vertices d = Some (vs @ pd)"
    using vs(1) pd by (simp add: quadsphere_vertices_def Let_def)
  have kl: "nat k < length vs" using k vs(2) by simp
  then have "rdv (vs @ pd) k = Some (vs ! nat k)" using k by (simp add: rdv_def nth_append)
  then show ?thesis
    unfolding vertex_def q using face_vertices_nth [OF n vs(1) k] by simp
qed

lemma texcoord_face:
  assumes fits: "linewrds (quadsphere_sizes d) < 2 ^ 31"
    and k: "0 \<le> k" "k < 6 * ppf (round_divs d)"
  defines "n \<equiv> round_divs d"
  defines "v \<equiv> mesh_vertex n k" and "ng \<equiv> face_neg (face_of (k div ppf n))"
  shows "texcoord_of set_rects fovw d k =
           Some (Some (if k \<in> set (seam_points n)
                       then EVAL (fst (rect_pair fovw (mesh_vertex n (k - 1))))
                       else fst (rect_pair fovw v)),
                 Some (snd (rect_pair fovw v)))"
    and "texcoord_of set_cylis fovw d k =
           Some (Some (if k \<in> set (seam_points n)
                       then EVAL (fst (cyli_pair fovw (face_neg (face_of ((k - 1) div ppf n)))
                                         (mesh_vertex n (k - 1))))
                       else fst (cyli_pair fovw ng v)),
                 Some (snd (cyli_pair fovw ng v)))"
    and "texcoord_of set_sters fovw d k = Some (Some (fst (ster_pair v)), Some (snd (ster_pair v)))"
    and "texcoord_of set_mercs fovw d k
           = Some (Some (fst (merc_pair ng v)), Some (snd (merc_pair ng v)))"
proof -
  have n: "1 \<le> n" unfolding n_def by (rule round_divs_ge1)
  obtain vs st where vs: "face_vertices n = Some vs"
    and st: "quadsphere_TC_sets fovw d = Some st"
    and c: "\<forall>i. 0 \<le> i \<and> i < 6 * ppf n \<longrightarrow>
          coords (set_rects st) i =
            Some (Some (if i \<in> set (seam_points n)
                        then EVAL (fst (rect_pair fovw (vs ! nat (i - 1))))
                        else fst (rect_pair fovw (vs ! nat i))),
                  Some (snd (rect_pair fovw (vs ! nat i))))
        \<and> coords (set_cylis st) i =
            Some (Some (if i \<in> set (seam_points n)
                        then EVAL (fst (cyli_pair fovw (stored_signs n ! nat (i - 1))
                                          (vs ! nat (i - 1))))
                        else fst (cyli_pair fovw (stored_signs n ! nat i) (vs ! nat i))),
                  Some (snd (cyli_pair fovw (stored_signs n ! nat i) (vs ! nat i))))
        \<and> coords (set_equis st) i =
            Some (Some (if i \<in> set (seam_points n)
                        then EVAL (fst (tc_equi (stored_signs n ! nat (i - 1))
                                          (vs ! nat (i - 1))))
                        else fst (tc_equi (stored_signs n ! nat i) (vs ! nat i))),
                  Some (snd (tc_equi (stored_signs n ! nat i) (vs ! nat i))))
        \<and> coords (set_sters st) i =
            Some (Some (fst (ster_pair (vs ! nat i))), Some (snd (ster_pair (vs ! nat i))))
        \<and> coords (set_mercs st) i =
            Some (Some (fst (merc_pair (stored_signs n ! nat i) (vs ! nat i))),
                  Some (snd (merc_pair (stored_signs n ! nat i) (vs ! nat i))))"
    using TC_coords_final [OF fits, of fovw] unfolding n_def by blast
  have k': "0 \<le> k" "k < 6 * ppf n" using k by (simp_all add: n_def)
  have vk: "vs ! nat k = v" unfolding v_def by (rule face_vertices_nth [OF n vs k'])
  have sk: "stored_signs n ! nat k = ng" unfolding ng_def by (rule stored_signs_nth [OF n k'])
  have prev: "vs ! nat (k - 1) = mesh_vertex n (k - 1)
      \<and> stored_signs n ! nat (k - 1) = face_neg (face_of ((k - 1) div ppf n))"
    if "k \<in> set (seam_points n)"
  proof -
    have "0 \<le> k - 1" "k - 1 < 6 * ppf n"
      using seam_points_range(1) [OF n that] k' by simp_all
    then show ?thesis using face_vertices_nth [OF n vs] stored_signs_nth [OF n] by blast
  qed
  from c k' have ck: "coords (set_rects st) k =
            Some (Some (if k \<in> set (seam_points n)
                        then EVAL (fst (rect_pair fovw (vs ! nat (k - 1))))
                        else fst (rect_pair fovw (vs ! nat k))),
                  Some (snd (rect_pair fovw (vs ! nat k))))"
     "coords (set_cylis st) k =
            Some (Some (if k \<in> set (seam_points n)
                        then EVAL (fst (cyli_pair fovw (stored_signs n ! nat (k - 1))
                                          (vs ! nat (k - 1))))
                        else fst (cyli_pair fovw (stored_signs n ! nat k) (vs ! nat k))),
                  Some (snd (cyli_pair fovw (stored_signs n ! nat k) (vs ! nat k))))"
     "coords (set_sters st) k =
            Some (Some (fst (ster_pair (vs ! nat k))), Some (snd (ster_pair (vs ! nat k))))"
     "coords (set_mercs st) k =
            Some (Some (fst (merc_pair (stored_signs n ! nat k) (vs ! nat k))),
                  Some (snd (merc_pair (stored_signs n ! nat k) (vs ! nat k))))"
    by blast+
  show "texcoord_of set_rects fovw d k =
           Some (Some (if k \<in> set (seam_points n)
                       then EVAL (fst (rect_pair fovw (mesh_vertex n (k - 1))))
                       else fst (rect_pair fovw v)),
                 Some (snd (rect_pair fovw v)))"
    unfolding texcoord_of_def st using ck(1) prev by (simp add: vk)
  show "texcoord_of set_cylis fovw d k =
           Some (Some (if k \<in> set (seam_points n)
                       then EVAL (fst (cyli_pair fovw (face_neg (face_of ((k - 1) div ppf n)))
                                         (mesh_vertex n (k - 1))))
                       else fst (cyli_pair fovw ng v)),
                 Some (snd (cyli_pair fovw ng v)))"
    unfolding texcoord_of_def st using ck(2) prev by (simp add: vk sk)
  show "texcoord_of set_sters fovw d k = Some (Some (fst (ster_pair v)), Some (snd (ster_pair v)))"
    unfolding texcoord_of_def st using ck(3) by (simp add: vk)
  show "texcoord_of set_mercs fovw d k
           = Some (Some (fst (merc_pair ng v)), Some (snd (merc_pair ng v)))"
    unfolding texcoord_of_def st using ck(4) by (simp add: vk sk)
qed

text \<open>The object constructed with the argument 2.\<close>

lemma two_facts:
  "round_divs 2 = 2" "ppf 2 = 9" "dp1 2 = 3" "linewrds (quadsphere_sizes 2) < 2 ^ 31"
  "seam_points 2 = [10, 28, 31, 34, 43]" "- (2 ^ 31) \<le> (2::int)"
proof -
  show r: "round_divs 2 = 2" by (simp add: round_divs_cases)
  show "ppf 2 = 9" "dp1 2 = 3" by (simp_all add: ppf_def dp1_def)
  show "linewrds (quadsphere_sizes 2) < 2 ^ 31" by (simp add: quadsphere_sizes_def Let_def r qpf_def)
  show "seam_points 2 = [10, 28, 31, 34, 43]" by code_simp
  show "- (2 ^ 31) \<le> (2::int)" by simp
qed

lemma two_vertices:
  "mesh_vertex 2 0 = vul" "mesh_vertex 2 13 = (0, 1, 0)" "mesh_vertex 2 31 = (0, 0, - 1)"
  "mesh_vertex 2 40 = (0, - 1, 0)"
proof -
  have c: "front_pt 2 0 0 = vul" "front_pt 2 1 1 = (0, 0, 1)"
    using front_pt_corners(1) [of 2] front_pt_center [of 2 1] by simp_all
  show "mesh_vertex 2 0 = vul" "mesh_vertex 2 13 = (0, 1, 0)" "mesh_vertex 2 31 = (0, 0, - 1)"
    "mesh_vertex 2 40 = (0, - 1, 0)"
    by (simp_all add: mesh_vertex_def Let_def two_facts face_of_def c vul_def)
qed

subsection \<open>The rectilinear coordinates of the constructed object\<close>

lemma rect_pair_cases:
  assumes u: "dotp v v = 1" and fov: "0 < fovw" "fovw < 180"
  shows "(za v > 0.45 * pi \<longrightarrow> rect_pair fovw v = (INVAL (sx v), INVAL (sy v)))
       \<and> (za v \<le> 0.45 * pi \<longrightarrow>
            rect_pair fovw v =
              (CLIP (0.5 + 0.5 * (tan (za v) / tan (amaxrect fovw)) * sx v),
               CLIP (0.5 + 0.5 * (tan (za v) / tan (amaxrect fovw)) * sy v)))
       \<and> (za v \<le> amaxrect fovw \<and> amaxrect fovw \<le> 0.45 * pi \<longrightarrow>
            rect_pair fovw v =
              (0.5 + 0.5 * (tan (za v) / tan (amaxrect fovw)) * sx v,
               0.5 + 0.5 * (tan (za v) / tan (amaxrect fovw)) * sy v))"
proof -
  define k where "k = 0.5 * (tan (za v) / tan (amaxrect fovw))"
  have B: "rect_pair fovw v = (INVAL (sx v), INVAL (sy v))" if "za v > 0.45 * pi"
    using that by (simp add: rect_pair_def tc_rect_def Pi_def)
  have C: "rect_pair fovw v = (CLIP (0.5 + k * sx v), CLIP (0.5 + k * sy v))"
    if "za v \<le> 0.45 * pi"
    using that sza_cza(3) [OF u]
    by (simp add: rect_pair_def tc_rect_def Pi_def Let_def tmaxrect_def k_def)
  have D: "rect_pair fovw v = (0.5 + k * sx v, 0.5 + k * sy v)"
    if h: "za v \<le> amaxrect fovw" "amaxrect fovw \<le> 0.45 * pi"
  proof -
    have zr: "0 \<le> za v" using za_range [OF u] by simp
    have ar: "0 < amaxrect fovw" "amaxrect fovw < pi / 2" "0 < tan (amaxrect fovw)"
      using amaxrect_range [OF fov] by (simp_all add: tmaxrect_def)
    have t0: "0 \<le> tan (za v)" using zr h(1) ar(2) by (intro tan_pos_pi2_le) auto
    have t1: "tan (za v) \<le> tan (amaxrect fovw)"
      using zr h(1) ar(2) pi_gt_zero by (intro tan_mono_le) linarith+
    have k: "0 \<le> k" "k \<le> 1 / 2" using t0 t1 ar(3) by (simp_all add: k_def)
    have rx: "0 \<le> 1 / 2 + k * sx v \<and> 1 / 2 + k * sx v \<le> 1"
      using half_plus_range [OF k] sx_sy_range [of v] by blast
    have ry: "0 \<le> 1 / 2 + k * sy v \<and> 1 / 2 + k * sy v \<le> 1"
      using half_plus_range [OF k] sx_sy_range [of v] by blast
    have "za v \<le> 0.45 * pi" using h by simp
    from C [OF this] show ?thesis using rx ry by (simp add: CLIP_id)
  qed
  show ?thesis using B C D unfolding k_def by blast
qed

lemma rect_vul_90: "rect_pair 90 vul = (0, 0)"
proof -
  have le: "\<not> za vul > 0.45 * Pi"
    using za_vul(2) by (simp add: Pi_def, insert pi_gt_zero, linarith)
  have cz: "cza vul = sqrt (1 / 3)" by (simp add: cza_def vul_def ccc_def)
  have k: "0.5 * (sza vul / cza vul) / tmaxrect 90 = sqrt 2 / 2"
    unfolding sza_vul cz amaxrect_90 sqrt_facts(1) by simp
  have z: "0.5 + sqrt 2 / 2 * - sqrt (1 / 2) = (0::real)"
    using sqrt_facts(3) by (simp del: real_sqrt_divide)
  have "fst (tc_rect 90 vul 0) = (CLIP 0, CLIP 0)"
    using le by (simp only: tc_rect_def if_False Let_def k sx_vul z fst_conv)
  then show ?thesis by (simp add: rect_pair_def CLIP_def ninv_def pinv_def)
qed

text \<open>
  C4 as stated: a vertex whose angle \<open>za\<close> exceeds the configured half field of view
  receives the out-of-range marker. With a configured field of view of 90 degrees the
  half is 45 degrees. The first vertex of the object constructed with the argument 2 is
  the corner \<open>vul\<close> of the cube; its angle \<open>za\<close> is above 45 degrees (it is about
  54.7), and the rectilinear coordinates that the constructed object holds for it are
  \<open>(0, 0)\<close>, not the marker \<open>(-0.01, -0.01)\<close>: the test of the code is
  \<open>za > 0.45 * Pi\<close>.
\<close>

theorem rectilinear_threshold_counterexample:
  "vertex 2 0 = Some vul
   \<and> za vul > amaxrect 90
   \<and> texcoord_of set_rects 90 2 0 = Some (Some 0, Some 0)
   \<and> (INVAL (sx vul), INVAL (sy vul)) = (- 0.01, - 0.01)"
proof -
  have k: "(0::int) \<le> 0" "0 < 6 * ppf (round_divs 2)" by (simp_all add: two_facts)
  have v: "vertex 2 0 = Some vul" using vertex_face [OF k] by (simp add: two_facts two_vertices)
  have a: "za vul > amaxrect 90" using za_vul by (simp add: amaxrect_90)
  have t: "texcoord_of set_rects 90 2 0 = Some (Some 0, Some 0)"
    using texcoord_face(1) [OF two_facts(4) k, of 90]
    by (simp add: two_facts two_vertices rect_vul_90)
  have s: "sqrt (1 / 2) > 0" by (simp del: real_sqrt_divide)
  have i: "(INVAL (sx vul), INVAL (sy vul)) = (- 0.01, - 0.01)"
    using s by (simp add: INVAL_def sx_vul ninv_def del: real_sqrt_divide)
  show ?thesis using v a t i by simp
qed


text \<open>
  C4 as amended. Let \<open>d\<close> be an argument for which the \<open>int\<close> values of the
  constructor fit, and let the configured field of view be between 0 and 180 degrees.
  For every vertex \<open>v\<close> of the six faces the loop over the vertices stores the pair
  \<open>rect_pair\<close>: the out-of-range marker \<open>(INVAL sx, INVAL sy)\<close> exactly when the angle
  \<open>za\<close> exceeds \<open>0.45 \<pi>\<close> (81 degrees), a limit fixed in the code, and otherwise
  \<open>CLIP (0.5 + 0.5 (tan za / tan amaxrect) (sx, sy))\<close>, each component clipped to
  \<open>[-0.01, 1.01]\<close>; the half field of view \<open>amaxrect\<close> that is configured in the
  catalog only scales the coordinates, and where \<open>za \<le> amaxrect \<le> 0.45 \<pi>\<close> nothing is
  clipped. The constructed object holds that pair for the vertex, except on the wrap
  seam (\<open>seam_points\<close>): there the seam repair has replaced the first coordinate by
  \<open>EVAL\<close> of the first coordinate of the vertex before it, and the second is kept.
\<close>

theorem rectilinear_region:
  assumes int_d: "- (2 ^ 31) \<le> d" and fits: "linewrds (quadsphere_sizes d) < 2 ^ 31"
    and fov: "0 < fovw" "fovw < 180"
  shows "amaxrect fovw = (fovw / 2) * pi / 180
    \<and> (\<exists>vs st.
          face_vertices (round_divs d) = Some vs
        \<and> int (length vs) = 6 * ppf (round_divs d)
        \<and> quadsphere_TC_sets fovw d = Some st
        \<and> (\<forall>i. 0 \<le> i \<and> i < 6 * ppf (round_divs d) \<longrightarrow>
              rect_pair fovw (vs ! nat i) =
                (if za (vs ! nat i) > 0.45 * pi
                 then (INVAL (sx (vs ! nat i)), INVAL (sy (vs ! nat i)))
                 else (CLIP (0.5 + 0.5 * (tan (za (vs ! nat i)) / tan (amaxrect fovw))
                                   * sx (vs ! nat i)),
                       CLIP (0.5 + 0.5 * (tan (za (vs ! nat i)) / tan (amaxrect fovw))
                                   * sy (vs ! nat i))))
            \<and> (za (vs ! nat i) \<le> amaxrect fovw \<and> amaxrect fovw \<le> 0.45 * pi \<longrightarrow>
                 rect_pair fovw (vs ! nat i) =
                   (0.5 + 0.5 * (tan (za (vs ! nat i)) / tan (amaxrect fovw)) * sx (vs ! nat i),
                    0.5 + 0.5 * (tan (za (vs ! nat i)) / tan (amaxrect fovw)) * sy (vs ! nat i)))
            \<and> coords (set_rects st) i =
                 Some (Some (if i \<in> set (seam_points (round_divs d))
                             then EVAL (fst (rect_pair fovw (vs ! nat (i - 1))))
                             else fst (rect_pair fovw (vs ! nat i))),
                       Some (snd (rect_pair fovw (vs ! nat i))))
            \<and> (i \<in> set (seam_points (round_divs d)) \<longrightarrow> 1 \<le> i)))"
proof -
  let ?n = "round_divs d"
  have n: "1 \<le> ?n" by (rule round_divs_ge1)
  have A: "amaxrect fovw = (fovw / 2) * pi / 180"
    by (simp add: amaxrect_def DEG2RAD_def Pi_def)
  obtain vs st where vs: "face_vertices ?n = Some vs" "int (length vs) = 6 * ppf ?n"
    "\<forall>v\<in>set vs. dotp v v = 1"
    and st: "quadsphere_TC_sets fovw d = Some st"
    and c: "\<forall>i. 0 \<le> i \<and> i < 6 * ppf ?n \<longrightarrow>
          coords (set_rects st) i =
            Some (Some (if i \<in> set (seam_points ?n)
                        then EVAL (fst (rect_pair fovw (vs ! nat (i - 1))))
                        else fst (rect_pair fovw (vs ! nat i))),
                  Some (snd (rect_pair fovw (vs ! nat i))))"
    using TC_coords_final [OF fits, of fovw] by blast
  have each: "rect_pair fovw (vs ! nat i) =
                (if za (vs ! nat i) > 0.45 * pi
                 then (INVAL (sx (vs ! nat i)), INVAL (sy (vs ! nat i)))
                 else (CLIP (0.5 + 0.5 * (tan (za (vs ! nat i)) / tan (amaxrect fovw))
                                   * sx (vs ! nat i)),
                       CLIP (0.5 + 0.5 * (tan (za (vs ! nat i)) / tan (amaxrect fovw))
                                   * sy (vs ! nat i))))
            \<and> (za (vs ! nat i) \<le> amaxrect fovw \<and> amaxrect fovw \<le> 0.45 * pi \<longrightarrow>
                 rect_pair fovw (vs ! nat i) =
                   (0.5 + 0.5 * (tan (za (vs ! nat i)) / tan (amaxrect fovw)) * sx (vs ! nat i),
                    0.5 + 0.5 * (tan (za (vs ! nat i)) / tan (amaxrect fovw)) * sy (vs ! nat i)))
            \<and> coords (set_rects st) i =
                 Some (Some (if i \<in> set (seam_points ?n)
                             then EVAL (fst (rect_pair fovw (vs ! nat (i - 1))))
                             else fst (rect_pair fovw (vs ! nat i))),
                       Some (snd (rect_pair fovw (vs ! nat i))))
            \<and> (i \<in> set (seam_points ?n) \<longrightarrow> 1 \<le> i)"
    if i: "0 \<le> i" "i < 6 * ppf ?n" for i
  proof -
    have "nat i < length vs" using i vs(2) by simp
    then have u: "dotp (vs ! nat i) (vs ! nat i) = 1" using vs(3) by simp
    have r: "rect_pair fovw (vs ! nat i) =
                (if za (vs ! nat i) > 0.45 * pi
                 then (INVAL (sx (vs ! nat i)), INVAL (sy (vs ! nat i)))
                 else (CLIP (0.5 + 0.5 * (tan (za (vs ! nat i)) / tan (amaxrect fovw))
                                   * sx (vs ! nat i)),
                       CLIP (0.5 + 0.5 * (tan (za (vs ! nat i)) / tan (amaxrect fovw))
                                   * sy (vs ! nat i))))"
      using rect_pair_cases [OF u fov] by (cases "za (vs ! nat i) > 0.45 * pi") auto
    show ?thesis
      using r rect_pair_cases [OF u fov] c i seam_points_range(1) [OF n, of i] by blast
  qed
  show ?thesis using A vs(1,2) st each by blast
qed

lemma amaxrect_120: "amaxrect 120 = pi / 3" "tan (amaxrect 120) = sqrt 3"
proof -
  show a: "amaxrect 120 = pi / 3" by (simp add: amaxrect_def DEG2RAD_def Pi_def)
  show "tan (amaxrect 120) = sqrt 3" unfolding a by (rule tan_60)
qed

lemma rect_scaled_vul:
  "0.5 + 0.5 * (tan (za vul) / sqrt 3) * sx vul = 1 / 2 - 1 / (2 * sqrt 3)"
  "0.5 + 0.5 * (tan (za vul) / sqrt 3) * sy vul = 1 / 2 - 1 / (2 * sqrt 3)"
proof -
  have u: "dotp vul vul = 1" by (simp add: dotp_def vul_def ccc_sq)
  have cz: "cza vul = sqrt (1 / 3)" by (simp add: cza_def vul_def ccc_def)
  have t: "tan (za vul) = sqrt 2"
    using sza_cza(3) [OF u] unfolding sza_vul cz sqrt_facts(1) by simp
  have "sqrt 2 / sqrt 3 * sqrt (1 / 2) = (sqrt 2 * sqrt (1 / 2)) / sqrt 3" by simp
  then have e: "sqrt 2 / sqrt 3 * sqrt (1 / 2) = 1 / sqrt 3" unfolding sqrt_facts(3) .
  have "0.5 + 0.5 * (sqrt 2 / sqrt 3) * - sqrt (1 / 2)
      = 1 / 2 - 1 / 2 * (sqrt 2 / sqrt 3 * sqrt (1 / 2))"
    by (simp del: real_sqrt_divide)
  also have "\<dots> = 1 / 2 - 1 / (2 * sqrt 3)" unfolding e by simp
  finally show "0.5 + 0.5 * (tan (za vul) / sqrt 3) * sx vul = 1 / 2 - 1 / (2 * sqrt 3)"
    "0.5 + 0.5 * (tan (za vul) / sqrt 3) * sy vul = 1 / 2 - 1 / (2 * sqrt 3)"
    unfolding t sx_vul by simp_all
qed

lemma pole_markers:
  "za (0, 1, 0) = pi / 2" "sx (0, 1, 0) = 0" "sy (0, 1, 0) = - 1"
  "za (0, - 1, 0) = pi / 2" "sx (0, - 1, 0) = 0" "sy (0, - 1, 0) = 1"
  "za (0, 0, - 1) = pi" "sx (0, 0, - 1) = 0" "sy (0, 0, - 1) = 0"
  by (simp_all add: za_def sx_def sy_def sxa_def sya_def sza_def)

theorem rectilinear_region_witness:
  "- (2 ^ 31) \<le> (2::int) \<and> linewrds (quadsphere_sizes 2) < 2 ^ 31
   \<and> (0::real) < 120 \<and> (120::real) < 180
   \<and> (\<exists>vs st. face_vertices (round_divs 2) = Some vs \<and> quadsphere_TC_sets 120 2 = Some st
         \<and> vs ! 0 = vul \<and> za (vs ! 0) \<le> amaxrect 120 \<and> amaxrect 120 \<le> 0.45 * pi
         \<and> coords (set_rects st) 0
             = Some (Some (1 / 2 - 1 / (2 * sqrt 3)), Some (1 / 2 - 1 / (2 * sqrt 3)))
         \<and> vs ! 13 = (0, 1, 0) \<and> za (vs ! 13) > 0.45 * pi
         \<and> coords (set_rects st) 13 = Some (Some (- 0.01), Some (- 0.01))
         \<and> coords (set_rects st) 28
             = Some (Some (EVAL (fst (rect_pair 120 (vs ! 27)))), Some (snd (rect_pair 120 (vs ! 28)))))"
proof -
  have f: "(0::real) < 120" "(120::real) < 180" by simp_all
  have n: "1 \<le> (2::int)" by simp
  from rectilinear_region [OF two_facts(6,4) f] obtain vs st where
    vs: "face_vertices (round_divs 2) = Some vs"
    and st: "quadsphere_TC_sets 120 2 = Some st"
    and c: "\<forall>i. 0 \<le> i \<and> i < 6 * ppf (round_divs 2) \<longrightarrow>
              rect_pair 120 (vs ! nat i) =
                (if za (vs ! nat i) > 0.45 * pi
                 then (INVAL (sx (vs ! nat i)), INVAL (sy (vs ! nat i)))
                 else (CLIP (0.5 + 0.5 * (tan (za (vs ! nat i)) / tan (amaxrect 120))
                                   * sx (vs ! nat i)),
                       CLIP (0.5 + 0.5 * (tan (za (vs ! nat i)) / tan (amaxrect 120))
                                   * sy (vs ! nat i))))
            \<and> (za (vs ! nat i) \<le> amaxrect 120 \<and> amaxrect 120 \<le> 0.45 * pi \<longrightarrow>
                 rect_pair 120 (vs ! nat i) =
                   (0.5 + 0.5 * (tan (za (vs ! nat i)) / tan (amaxrect 120)) * sx (vs ! nat i),
                    0.5 + 0.5 * (tan (za (vs ! nat i)) / tan (amaxrect 120)) * sy (vs ! nat i)))
            \<and> coords (set_rects st) i =
                 Some (Some (if i \<in> set (seam_points (round_divs 2))
                             then EVAL (fst (rect_pair 120 (vs ! nat (i - 1))))
                             else fst (rect_pair 120 (vs ! nat i))),
                       Some (snd (rect_pair 120 (vs ! nat i))))
            \<and> (i \<in> set (seam_points (round_divs 2)) \<longrightarrow> 1 \<le> i)"
    by blast
  note vs' = vs [unfolded two_facts]
  have v0: "vs ! 0 = vul" using face_vertices_nth [OF n vs', of 0] by (simp add: two_facts two_vertices)
  have v13: "vs ! 13 = (0, 1, 0)"
    using face_vertices_nth [OF n vs', of 13] by (simp add: two_facts two_vertices)
  have h0: "za (vs ! 0) \<le> amaxrect 120" "amaxrect 120 \<le> 0.45 * pi"
    using za_vul(2) pi_gt_zero unfolding v0 amaxrect_120 by simp_all
  have h13: "za (vs ! 13) > 0.45 * pi" unfolding v13 pole_markers using pi_gt_zero by simp
  have k0: "(0::int) \<le> 0 \<and> 0 < 6 * ppf (round_divs 2)"
    and k13: "(0::int) \<le> 13 \<and> 13 < 6 * ppf (round_divs 2)"
    by (simp_all add: two_facts)
  note c0' = c [rule_format, OF k0] and c13' = c [rule_format, OF k13]
  have n13: "nat 13 = 13" by simp
  have p0: "rect_pair 120 vul =
      (0.5 + 0.5 * (tan (za vul) / tan (amaxrect 120)) * sx vul,
       0.5 + 0.5 * (tan (za vul) / tan (amaxrect 120)) * sy vul)"
    using c0' [THEN conjunct2, THEN conjunct1] h0 unfolding nat_0 v0 by blast
  have q0: "coords (set_rects st) 0
      = Some (Some (fst (rect_pair 120 vul)), Some (snd (rect_pair 120 vul)))"
    using c0' [THEN conjunct2, THEN conjunct2, THEN conjunct1] unfolding nat_0 v0
    by (simp add: two_facts)
  have c0: "coords (set_rects st) 0 =
      Some (Some (0.5 + 0.5 * (tan (za vul) / tan (amaxrect 120)) * sx vul),
            Some (0.5 + 0.5 * (tan (za vul) / tan (amaxrect 120)) * sy vul))"
    unfolding q0 p0 by simp
  have p13: "rect_pair 120 (0, 1, 0) = (INVAL (sx (0, 1, 0)), INVAL (sy (0, 1, 0)))"
    using c13' [THEN conjunct1] h13 unfolding n13 v13 by simp
  have q13: "coords (set_rects st) 13
      = Some (Some (fst (rect_pair 120 (0, 1, 0))), Some (snd (rect_pair 120 (0, 1, 0))))"
    using c13' [THEN conjunct2, THEN conjunct2, THEN conjunct1] unfolding n13 v13
    by (simp add: two_facts)
  have c13: "coords (set_rects st) 13 =
      Some (Some (INVAL (sx (0, 1, 0))), Some (INVAL (sy (0, 1, 0))))"
    unfolding q13 p13 by simp
  from c [rule_format, of 28] have c28: "coords (set_rects st) 28
      = Some (Some (EVAL (fst (rect_pair 120 (vs ! 27)))), Some (snd (rect_pair 120 (vs ! 28))))"
    by (simp add: two_facts)
  have r0: "coords (set_rects st) 0
      = Some (Some (1 / 2 - 1 / (2 * sqrt 3)), Some (1 / 2 - 1 / (2 * sqrt 3)))"
    unfolding c0 amaxrect_120(2) rect_scaled_vul ..
  have r13: "coords (set_rects st) 13 = Some (Some (- 0.01), Some (- 0.01))"
    unfolding c13 pole_markers by (simp add: INVAL_def ninv_def)
  have "\<exists>vs st. face_vertices (round_divs 2) = Some vs \<and> quadsphere_TC_sets 120 2 = Some st
         \<and> vs ! 0 = vul \<and> za (vs ! 0) \<le> amaxrect 120 \<and> amaxrect 120 \<le> 0.45 * pi
         \<and> coords (set_rects st) 0
             = Some (Some (1 / 2 - 1 / (2 * sqrt 3)), Some (1 / 2 - 1 / (2 * sqrt 3)))
         \<and> vs ! 13 = (0, 1, 0) \<and> za (vs ! 13) > 0.45 * pi
         \<and> coords (set_rects st) 13 = Some (Some (- 0.01), Some (- 0.01))
         \<and> coords (set_rects st) 28
             = Some (Some (EVAL (fst (rect_pair 120 (vs ! 27)))), Some (snd (rect_pair 120 (vs ! 28))))"
    using vs st v0 h0 r0 v13 h13 r13 c28 by blast
  then show ?thesis using two_facts(6,4) f by blast
qed

subsection \<open>The out-of-range markers\<close>













lemma marker_pairs:
  assumes u: "dotp v v = 1"
  shows "za v > 0.45 * Pi \<longrightarrow> rect_pair fovw v = (INVAL (sx v), INVAL (sy v))"
    and "\<bar>ya v - 0.5 * Pi\<bar> > amaxcyl \<longrightarrow>
           cyli_pair fovw ng v = (INVAL (xa ng v), INVAL (ya v - 0.5 * Pi))"
    and "za v > amaxster \<longrightarrow> ster_pair v = (INVAL (sx v), INVAL (sy v))"
    and "\<bar>cya v\<bar> < cminmerc \<longrightarrow>
           merc_pair ng v = (fst (tc_equi ng v), INVAL (0.5 * za v / Pi))"
    and "\<not> za v > amaxfish" and "\<not> za v > amaxsph"
proof -
  show "za v > 0.45 * Pi \<longrightarrow> rect_pair fovw v = (INVAL (sx v), INVAL (sy v))"
    by (simp add: rect_pair_def tc_rect_def)
  show "\<bar>ya v - 0.5 * Pi\<bar> > amaxcyl \<longrightarrow>
           cyli_pair fovw ng v = (INVAL (xa ng v), INVAL (ya v - 0.5 * Pi))"
    by (simp add: cyli_pair_def tc_cyli_def Let_def)
  show "za v > amaxster \<longrightarrow> ster_pair v = (INVAL (sx v), INVAL (sy v))"
    by (simp add: ster_pair_def tc_ster_def)
  show "\<bar>cya v\<bar> < cminmerc \<longrightarrow>
           merc_pair ng v = (fst (tc_equi ng v), INVAL (0.5 * za v / Pi))"
    by (simp add: merc_pair_def tc_merc_def)
  show "\<not> za v > amaxfish" "\<not> za v > amaxsph"
    using za_range [OF u] by (simp_all add: amax_pi)
qed

text \<open>
  The marker of mercator is \<open>INVAL s\<close>, and \<open>s\<close> is what the equiangular section has
  left, \<open>0.5 * za / Pi\<close>, which is positive beyond the limit of mercator: the marker is
  \<open>1.01\<close> on both sides of the sphere.
\<close>

lemma mercator_marker_high:
  assumes u: "dotp v v = 1" and b: "\<bar>cya v\<bar> < cminmerc"
  shows "snd (merc_pair ng v) = pinv"
proof -
  obtain x y z where v: "v = (x, y, z)" by (cases v)
  have c1: "cminmerc \<le> 1"
    by (simp add: cminmerc_def)
  have z: "- 1 \<le> z" "z \<le> 1" using unit_z [of x y z] u by (simp_all add: v)
  have "z \<noteq> 1"
  proof
    assume "z = 1"
    then have "sqrt 1 \<le> sqrt (x * x + z * z)" by (intro real_sqrt_le_mono) simp
    then have "1 \<le> sqrt (x * x + z * z)" by (simp only: real_sqrt_one)
    moreover have "sqrt (x * x + z * z) < cminmerc" using b by (simp add: cya_def v)
    ultimately show False using c1 by linarith
  qed
  then have "z < 1" using z by simp
  then have "arccos 1 < arccos z" using z by (intro arccos_less_arccos) auto
  then have "0 < 0.5 * za v / Pi" by (simp add: za_def v Pi_def)
  then show ?thesis using marker_pairs(4) [OF u, of ng] b by (simp add: INVAL_def)
qed








subsection \<open>The resolution 1\<close>

text \<open>
  The resolution 1 has four vertices on each face, the corners of the front face under
  the map of the face, and one cell on each face.
\<close>

lemma one_sizes:
  "ppf 1 = 4" "dp1 1 = 2" "qpf 1 = 1"
  by (simp_all add: ppf_def dp1_def qpf_def)

lemma front_pt_1:
  "front_pt 1 0 0 = vul" "front_pt 1 0 1 = vur" "front_pt 1 1 0 = vll" "front_pt 1 1 1 = vlr"
  using front_pt_corners [of 1] by simp_all

lemma face_vertices_1:
  "face_vertices 1 = Some (concat (map (\<lambda>f. map (face_image f) [vul, vur, vll, vlr])
                                    [Front, Top, Left, Back, Bottom, Right]))"
proof -
  have u: "[0..<24] = [0, 1, 2, 3, 4, 5, 6, 7, 8, 9, 10, 11, 12, 13, 14, 15, 16, 17, 18, 19,
                       20, 21, 22, 23]"
    by code_simp
  have n: "1 \<le> (1::int)" by simp
  show ?thesis
    unfolding face_vertices_tab [OF n]
    by (simp add: one_sizes u mesh_vertex_def Let_def face_of_def front_pt_1)
qed

lemma quad_indices_1:
  "quad_indices 1 = Some [0, 2, 3, 1, 4, 6, 7, 5, 8, 10, 11, 9, 12, 14, 15, 13,
                          16, 18, 19, 17, 20, 22, 23, 21]"
  by code_simp

lemma corners_distinct:
  "distinct [(ccc, ccc, ccc), (- ccc, ccc, ccc), (ccc, - ccc, ccc), (- ccc, - ccc, ccc),
             (ccc, ccc, - ccc), (- ccc, ccc, - ccc), (ccc, - ccc, - ccc), (- ccc, - ccc, - ccc)]"
  using ccc_bounds(4) by simp


lemma cube_1:
  "(\<exists>vs qs. face_vertices (1) = Some vs \<and> quad_indices (1) = Some qs
            \<and> vs = concat (map (\<lambda>f. map (face_image f) [vul, vur, vll, vlr])
                            [Front, Top, Left, Back, Bottom, Right])
            \<and> length vs = 24
            \<and> set vs = {(ccc, ccc, ccc), (- ccc, ccc, ccc), (ccc, - ccc, ccc), (- ccc, - ccc, ccc),
                    (ccc, ccc, - ccc), (- ccc, ccc, - ccc), (ccc, - ccc, - ccc),
                    (- ccc, - ccc, - ccc)}
            \<and> card (set vs) = 8
            \<and> (\<forall>v\<in>set vs. count_list vs v = 3)
            \<and> qs = [0, 2, 3, 1, 4, 6, 7, 5, 8, 10, 11, 9, 12, 14, 15, 13,
                        16, 18, 19, 17, 20, 22, 23, 21]
            \<and> map (\<lambda>i. vs ! nat i) qs
                = concat (map (\<lambda>f. map (face_image f) [vul, vll, vlr, vur])
                            [Front, Top, Left, Back, Bottom, Right]))"
proof -
  let ?vs = "concat (map (\<lambda>f. map (face_image f) [vul, vur, vll, vlr])
                            [Front, Top, Left, Back, Bottom, Right])"
  let ?qs = "[0, 2, 3, 1, 4, 6, 7, 5, 8, 10, 11, 9, 12, 14, 15, 13,
                        16, 18, 19, 17, 20, 22, 23, 21] :: int list"
  have d: "ccc \<noteq> 0" using ccc_bounds(4) by simp
  have s: "set ?vs = {(ccc, ccc, ccc), (- ccc, ccc, ccc), (ccc, - ccc, ccc), (- ccc, - ccc, ccc),
                    (ccc, ccc, - ccc), (- ccc, ccc, - ccc), (ccc, - ccc, - ccc),
                    (- ccc, - ccc, - ccc)}"
    by (auto simp: vul_def vur_def vll_def vlr_def)
  have c: "card (set ?vs) = 8" unfolding s using d by simp
  have n: "\<forall>v\<in>set ?vs. count_list ?vs v = 3"
    unfolding s using d by (simp add: vul_def vur_def vll_def vlr_def)
  have m: "map (\<lambda>i. ?vs ! nat i) ?qs
      = concat (map (\<lambda>f. map (face_image f) [vul, vll, vlr, vur])
                  [Front, Top, Left, Back, Bottom, Right])"
    by (simp add: vul_def vur_def vll_def vlr_def)
  have l: "length ?vs = 24" by simp
  show ?thesis
    unfolding face_vertices_1 quad_indices_1 using s c n m l by blast
qed

text \<open>
  C3 as stated: an odd argument is rounded up to the next even number, the least
  resolution is 1, and the argument 1 gives the bare cube with 6 quads and 8 base
  vertices. The argument 1 is odd and is rounded up like every other odd argument: the
  resolution is 2, with 24 quads and 6 faces of 9 vertices.
\<close>

theorem argument_one_not_bare_cube:
  "round_divs 1 = 2
   \<and> quadIndexCount (quadsphere_sizes 1) = 4 * 24
   \<and> quadIndexCount (quadsphere_sizes 1) \<noteq> 4 * 6
   \<and> 6 * ppf (round_divs 1) = 54"
proof -
  have r: "round_divs 1 = 2" by (simp add: round_divs_cases)
  show ?thesis
    by (simp add: r quadIndexCount_def quadsphere_sizes_def Let_def qpf_def ppf_def dp1_def)
qed

text \<open>
  C3 as amended. An argument \<open>d\<close> is an \<open>int\<close>, and the rounding computes \<open>d + 1\<close>,
  which fits while \<open>d < 2 ^ 31 - 1\<close>. A positive odd argument below that bound is
  rounded up to \<open>d + 1\<close>, a positive even one is kept, and every argument below 1
  gives the resolution 1, the least there is. The resolution 1 is reached from the
  arguments below 1 only; the argument 1 gives the resolution 2. At the resolution 1
  the sizes are those of the cube: 6 quads, and 6 faces of 4 vertices each before the
  duplicates are added. These 24 vertices are the 8 corners of the cube, each stored
  on 3 faces, and the 6 quads that the index builder emits are the 6 faces of the
  cube, each the square of the front face under the map of its face. What the seam
  repair then makes of these quads is not part of the statement.
\<close>

theorem round_divs_spec:
  "(0 < d \<and> d < 2 ^ 31 - 1 \<and> odd d \<longrightarrow> round_divs d = d + 1)
   \<and> (0 < d \<and> d < 2 ^ 31 \<and> even d \<longrightarrow> round_divs d = d)
   \<and> (- (2 ^ 31) \<le> d \<and> d \<le> 0 \<longrightarrow> round_divs d = 1)
   \<and> (- (2 ^ 31) \<le> d \<and> d < 2 ^ 31 - 1 \<longrightarrow>
        1 \<le> round_divs d \<and> round_divs d < 2 ^ 31 \<and> (round_divs d = 1 \<longleftrightarrow> d \<le> 0))
   \<and> (- (2 ^ 31) \<le> d \<and> d \<le> 0 \<longrightarrow>
        quadIndexCount (quadsphere_sizes d) = 4 * 6
      \<and> 6 * ppf (round_divs d) = 6 * 4
      \<and> (\<exists>vs qs. face_vertices (round_divs d) = Some vs \<and> quad_indices (round_divs d) = Some qs
            \<and> vs = concat (map (\<lambda>f. map (face_image f) [vul, vur, vll, vlr])
                            [Front, Top, Left, Back, Bottom, Right])
            \<and> length vs = 24
            \<and> set vs = {(ccc, ccc, ccc), (- ccc, ccc, ccc), (ccc, - ccc, ccc), (- ccc, - ccc, ccc),
                    (ccc, ccc, - ccc), (- ccc, ccc, - ccc), (ccc, - ccc, - ccc),
                    (- ccc, - ccc, - ccc)}
            \<and> card (set vs) = 8
            \<and> (\<forall>v\<in>set vs. count_list vs v = 3)
            \<and> qs = [0, 2, 3, 1, 4, 6, 7, 5, 8, 10, 11, 9, 12, 14, 15, 13,
                        16, 18, 19, 17, 20, 22, 23, 21]
            \<and> map (\<lambda>i. vs ! nat i) qs
                = concat (map (\<lambda>f. map (face_image f) [vul, vll, vlr, vur])
                            [Front, Top, Left, Back, Bottom, Right])))
   \<and> round_divs 1 = 2"
proof -
  have a: "(0 < d \<and> d < 2 ^ 31 - 1 \<and> odd d \<longrightarrow> round_divs d = d + 1)
   \<and> (0 < d \<and> d < 2 ^ 31 \<and> even d \<longrightarrow> round_divs d = d)
   \<and> (- (2 ^ 31) \<le> d \<and> d \<le> 0 \<longrightarrow> round_divs d = 1)
   \<and> (- (2 ^ 31) \<le> d \<and> d < 2 ^ 31 - 1 \<longrightarrow>
        1 \<le> round_divs d \<and> round_divs d < 2 ^ 31 \<and> (round_divs d = 1 \<longleftrightarrow> d \<le> 0))
   \<and> round_divs 1 = 2"
    by (auto simp: round_divs_cases)
  have b: "quadIndexCount (quadsphere_sizes d) = 4 * 6
      \<and> 6 * ppf (round_divs d) = 6 * 4
      \<and> (\<exists>vs qs. face_vertices (round_divs d) = Some vs \<and> quad_indices (round_divs d) = Some qs
            \<and> vs = concat (map (\<lambda>f. map (face_image f) [vul, vur, vll, vlr])
                            [Front, Top, Left, Back, Bottom, Right])
            \<and> length vs = 24
            \<and> set vs = {(ccc, ccc, ccc), (- ccc, ccc, ccc), (ccc, - ccc, ccc), (- ccc, - ccc, ccc),
                    (ccc, ccc, - ccc), (- ccc, ccc, - ccc), (ccc, - ccc, - ccc),
                    (- ccc, - ccc, - ccc)}
            \<and> card (set vs) = 8
            \<and> (\<forall>v\<in>set vs. count_list vs v = 3)
            \<and> qs = [0, 2, 3, 1, 4, 6, 7, 5, 8, 10, 11, 9, 12, 14, 15, 13,
                        16, 18, 19, 17, 20, 22, 23, 21]
            \<and> map (\<lambda>i. vs ! nat i) qs
                = concat (map (\<lambda>f. map (face_image f) [vul, vll, vlr, vur])
                            [Front, Top, Left, Back, Bottom, Right]))"
    if "d \<le> 0"
  proof -
    have r: "round_divs d = 1" using that by (simp add: round_divs_cases)
    have q: "quadIndexCount (quadsphere_sizes d) = 4 * 6" "6 * ppf (round_divs d) = 6 * 4"
      by (simp_all add: r quadIndexCount_def quadsphere_sizes_def Let_def one_sizes)
    show ?thesis unfolding r using q [unfolded r] cube_1 by blast
  qed
  show ?thesis using a b by blast
qed

theorem round_divs_spec_witness:
  "round_divs 5 = 6 \<and> round_divs 4 = 4 \<and> round_divs (- 3) = 1 \<and> round_divs 0 = 1
   \<and> quadIndexCount (quadsphere_sizes 0) = 24 \<and> 6 * ppf (round_divs 0) = 24
   \<and> face_vertices (round_divs 0) = Some (concat (map (\<lambda>f. map (face_image f) [vul, vur, vll, vlr])
                            [Front, Top, Left, Back, Bottom, Right]))
   \<and> quad_indices (round_divs 0) = Some [0, 2, 3, 1, 4, 6, 7, 5, 8, 10, 11, 9, 12, 14, 15, 13,
                        16, 18, 19, 17, 20, 22, 23, 21]"
proof -
  have a: "(0::int) < 5 \<and> (5::int) < 2 ^ 31 - 1 \<and> odd (5::int)" by simp
  have b: "(0::int) < 4 \<and> (4::int) < 2 ^ 31 \<and> even (4::int)" by simp
  have c: "- (2 ^ 31) \<le> (- 3::int) \<and> (- 3::int) \<le> 0" by simp
  have e: "- (2 ^ 31) \<le> (0::int) \<and> (0::int) \<le> 0" by simp
  from round_divs_spec [of 5] a have r5: "round_divs 5 = 5 + 1" by blast
  from round_divs_spec [of 4] b have r4: "round_divs 4 = 4" by blast
  from round_divs_spec [of "- 3"] c have r3: "round_divs (- 3) = 1" by blast
  from round_divs_spec [of 0] e have r0: "round_divs 0 = 1" by blast
  from round_divs_spec [of 0] e
  have q0: "quadIndexCount (quadsphere_sizes 0) = 4 * 6" "6 * ppf (round_divs 0) = 6 * 4"
    "face_vertices (round_divs 0) = Some (concat (map (\<lambda>f. map (face_image f) [vul, vur, vll, vlr])
                            [Front, Top, Left, Back, Bottom, Right]))"
    "quad_indices (round_divs 0) = Some [0, 2, 3, 1, 4, 6, 7, 5, 8, 10, 11, 9, 12, 14, 15, 13,
                        16, 18, 19, 17, 20, 22, 23, 21]"
    by blast+
  show ?thesis using r5 r4 r3 r0 q0 by simp
qed


end
